(* ===== verification/Prelude.thy ===== *)
theory Prelude
  imports Main "HOL-Library.Word" "HOL-Library.Char_ord" "HOL-Library.List_Lexorder"
    "HOL-Library.Product_Lexorder" "HOL-Library.Multiset"
begin

text \<open>
  Shared vocabulary of the development: the machine types of the C++ plugin, the parts of
  the C++ standard library that the sources use on strings and vectors, and the generic
  lemmas on lists and maps the component theories rest on.

  Strings are byte strings (\<open>std::string\<close>); \<^typ>\<open>char\<close> has 256 values and its order
  (from \<open>Char_ord\<close>) compares byte values, so the lexicographic order on \<^typ>\<open>string\<close>
  is that of \<open>std::string::operator<\<close>. Character classes are those of the C locale.
\<close>

section \<open>Results\<close>

text \<open>A fallible call returns an error on the left or a value on the right.\<close>

fun bindR :: "'e + 'a \<Rightarrow> ('a \<Rightarrow> 'e + 'b) \<Rightarrow> 'e + 'b" where
  "bindR (Inl e) f = Inl e"
| "bindR (Inr x) f = f x"

lemma bindR_Inr_iff: "bindR m f = Inr y \<longleftrightarrow> (\<exists>x. m = Inr x \<and> f x = Inr y)"
  by (cases m) auto

definition guardR :: "bool \<Rightarrow> 'e \<Rightarrow> 'e + unit" where
  "guardR b e = (if b then Inr () else Inl e)"

lemma guardR_Inr_iff [simp]: "guardR b e = Inr x \<longleftrightarrow> b"
  by (simp add: guardR_def)

lemma guardR_simps [simp]: "guardR True e = Inr ()" "guardR False e = Inl e"
  by (simp_all add: guardR_def)

section \<open>Machine types\<close>

type_synonym u8 = "8 word"
type_synonym u16 = "16 word"
type_synonym u32 = "32 word"
type_synonym u64 = "64 word"

text \<open>Signed 64-bit values are integers; the range is written out where it matters.\<close>

abbreviation INT64_MAX :: int where "INT64_MAX \<equiv> 9223372036854775807"
abbreviation INT64_MIN :: int where "INT64_MIN \<equiv> -9223372036854775808"

definition in_int64 :: "int \<Rightarrow> bool" where
  "in_int64 x \<longleftrightarrow> INT64_MIN \<le> x \<and> x \<le> INT64_MAX"

text \<open>C++ integer division truncates towards zero.\<close>

definition cdiv :: "int \<Rightarrow> int \<Rightarrow> int" where
  "cdiv a b = sgn a * sgn b * (\<bar>a\<bar> div \<bar>b\<bar>)"

definition cmod :: "int \<Rightarrow> int \<Rightarrow> int" where
  "cmod a b = a - cdiv a b * b"

section \<open>Characters (C locale)\<close>

definition char_val :: "char \<Rightarrow> nat" where
  "char_val c = of_char c"

definition is_digit :: "char \<Rightarrow> bool" where
  "is_digit c \<longleftrightarrow> 48 \<le> char_val c \<and> char_val c \<le> 57"

definition is_upper :: "char \<Rightarrow> bool" where
  "is_upper c \<longleftrightarrow> 65 \<le> char_val c \<and> char_val c \<le> 90"

definition is_lower :: "char \<Rightarrow> bool" where
  "is_lower c \<longleftrightarrow> 97 \<le> char_val c \<and> char_val c \<le> 122"

definition is_alnum :: "char \<Rightarrow> bool" where
  "is_alnum c \<longleftrightarrow> is_digit c \<or> is_upper c \<or> is_lower c"

definition is_space :: "char \<Rightarrow> bool" where
  "is_space c \<longleftrightarrow> char_val c = 32 \<or> (9 \<le> char_val c \<and> char_val c \<le> 13)"

definition to_lower :: "char \<Rightarrow> char" where
  "to_lower c = (if is_upper c then char_of (char_val c + 32) else c)"

definition digit_val :: "char \<Rightarrow> nat" where
  "digit_val c = char_val c - 48"

definition digit_char :: "nat \<Rightarrow> char" where
  "digit_char d = char_of (48 + d)"

lemma char_val_less [simp]: "char_val c < 256"
  by (simp add: char_val_def)

lemma char_val_inject [simp]: "char_val c = char_val d \<longleftrightarrow> c = d"
  by (simp add: char_val_def)

lemma char_val_char_of [simp]: "char_val (char_of n) = n mod 256"
  by (simp add: char_val_def)

lemma to_lower_idem [simp]: "to_lower (to_lower c) = to_lower c"
  by (auto simp: to_lower_def is_upper_def)

lemma digit_char_is_digit: "d < 10 \<Longrightarrow> is_digit (digit_char d)"
  by (simp add: is_digit_def digit_char_def)

lemma digit_val_digit_char: "d < 10 \<Longrightarrow> digit_val (digit_char d) = d"
  by (simp add: digit_val_def digit_char_def)

lemma digit_val_bound: "is_digit c \<Longrightarrow> digit_val c < 10"
  by (auto simp: is_digit_def digit_val_def)

lemma digit_char_digit_val: "is_digit c \<Longrightarrow> digit_char (digit_val c) = c"
  by (auto simp: is_digit_def digit_val_def digit_char_def char_val_def)

section \<open>Decimal rendering: \<open>std::to_string\<close>\<close>

fun nat_str :: "nat \<Rightarrow> string" where
  "nat_str n = (if n < 10 then [digit_char n] else nat_str (n div 10) @ [digit_char (n mod 10)])"

declare nat_str.simps [simp del]

definition int_str :: "int \<Rightarrow> string" where
  "int_str i = (if i < 0 then CHR ''-'' # nat_str (nat (- i)) else nat_str (nat i))"

fun digits_val :: "nat \<Rightarrow> string \<Rightarrow> nat" where
  "digits_val acc [] = acc"
| "digits_val acc (c # cs) = digits_val (acc * 10 + digit_val c) cs"

lemma digits_val_append: "digits_val a (xs @ ys) = digits_val (digits_val a xs) ys"
  by (induction xs arbitrary: a) auto

lemma nat_str_digits: "c \<in> set (nat_str n) \<Longrightarrow> is_digit c"
proof (induction n rule: nat_str.induct)
  case (1 n)
  then show ?case
    by (subst (asm) (2) nat_str.simps) (auto split: if_splits simp: digit_char_is_digit)
qed

lemma digits_val_nat_str: "digits_val 0 (nat_str n) = n"
proof (induction n rule: nat_str.induct)
  case (1 n)
  then show ?case
    by (subst nat_str.simps) (simp add: digits_val_append digit_val_digit_char)
qed

lemma nat_str_inject [simp]: "nat_str m = nat_str n \<longleftrightarrow> m = n"
  by (metis digits_val_nat_str)

lemma nat_str_not_Nil [simp]: "nat_str n \<noteq> []"
  by (subst nat_str.simps) simp

lemma nat_str_lower: "c \<in> set (nat_str n) \<Longrightarrow> to_lower c = c"
  by (drule nat_str_digits) (auto simp: to_lower_def is_upper_def is_digit_def)

lemma digits_val_bound:
  "list_all is_digit s \<Longrightarrow> digits_val a s < (a + 1) * 10 ^ length s"
proof (induction s arbitrary: a)
  case (Cons c cs)
  have "digits_val (a * 10 + digit_val c) cs < (a * 10 + digit_val c + 1) * 10 ^ length cs"
    using Cons by simp
  also have "\<dots> \<le> ((a + 1) * 10) * 10 ^ length cs"
    using digit_val_bound [of c] Cons.prems by (intro mult_le_mono1) simp
  finally show ?case by (simp add: algebra_simps)
qed simp

lemma nat_str_length: "n < 10 ^ k \<Longrightarrow> 0 < k \<Longrightarrow> length (nat_str n) \<le> k"
proof (induction n arbitrary: k rule: nat_str.induct)
  case (1 n)
  show ?case
  proof (cases "n < 10")
    case True
    then show ?thesis using 1 by (subst nat_str.simps) simp
  next
    case False
    then obtain j where j: "k = Suc j" "0 < j" using 1(2,3) by (cases k; cases "k - 1") auto
    then have "n div 10 < 10 ^ j" using 1(2) by auto
    then show ?thesis using 1(1) [OF False _ j(2)] False j by (subst nat_str.simps) simp
  qed
qed

lemma digits_val_ge: "a \<le> digits_val a s"
proof (induction s arbitrary: a)
  case (Cons c cs)
  have "a \<le> a * 10 + digit_val c" by simp
  also have "\<dots> \<le> digits_val (a * 10 + digit_val c) cs" by (rule Cons)
  finally show ?case by simp
qed simp

text \<open>The bytes of a string.\<close>

definition str_bytes :: "string \<Rightarrow> u8 list" where
  "str_bytes s = map (\<lambda>c. word_of_nat (char_val c)) s"

section \<open>\<open>std::string\<close> searches\<close>

text \<open>
  \<open>find_char c s\<close> is \<open>s.find(c)\<close>: the first position of \<open>c\<close>, with \<^const>\<open>None\<close>
  for \<open>npos\<close>. Splitting at that position is \<open>substr(0, pos)\<close> and \<open>substr(pos + 1)\<close>.
\<close>

fun find_char :: "char \<Rightarrow> string \<Rightarrow> nat option" where
  "find_char c [] = None"
| "find_char c (x # xs) = (if x = c then Some 0 else map_option Suc (find_char c xs))"

lemma find_char_None [simp]: "find_char c s = None \<longleftrightarrow> c \<notin> set s"
  by (induction s) auto

lemma find_char_Some:
  "find_char c s = Some i \<Longrightarrow> i < length s \<and> s ! i = c \<and> c \<notin> set (take i s)"
  by (induction s arbitrary: i) (auto split: if_splits)

lemma find_char_append:
  "c \<notin> set p \<Longrightarrow> find_char c (p @ c # r) = Some (length p)"
  by (induction p) auto

lemma find_char_split:
  "find_char c s = Some i \<Longrightarrow> s = take i s @ c # drop (Suc i) s"
  by (metis find_char_Some id_take_nth_drop)

definition starts_with :: "string \<Rightarrow> string \<Rightarrow> bool" where
  "starts_with s p \<longleftrightarrow> take (length p) s = p"

lemma starts_with_append [simp]: "starts_with (p @ s) p"
  by (simp add: starts_with_def)

lemma starts_with_iff: "starts_with s p \<longleftrightarrow> (\<exists>r. s = p @ r)"
  by (metis append_take_drop_id starts_with_append starts_with_def)

text \<open>\<open>s.find(p)\<close> for a string \<open>p\<close>.\<close>

fun find_sub :: "string \<Rightarrow> string \<Rightarrow> nat option" where
  "find_sub p [] = (if p = [] then Some 0 else None)"
| "find_sub p (x # xs) = (if starts_with (x # xs) p then Some 0 else map_option Suc (find_sub p xs))"

text \<open>\<open>s.substr(0, s.find(c))\<close>: all of \<open>s\<close> when \<open>c\<close> does not occur.\<close>

definition up_to :: "char \<Rightarrow> string \<Rightarrow> string" where
  "up_to c s = (case find_char c s of None \<Rightarrow> s | Some i \<Rightarrow> take i s)"

lemma up_to_free: "c \<notin> set (up_to c s)"
  by (auto simp: up_to_def dest: find_char_Some split: option.split)

lemma up_to_subset: "set (up_to c s) \<subseteq> set s"
  by (auto simp: up_to_def dest: in_set_takeD split: option.split)

lemma hd_up_to: "up_to c s \<noteq> [] \<Longrightarrow> hd (up_to c s) = hd s"
  by (cases "find_char c s") (simp_all add: up_to_def del: find_char_None)

lemma up_to_id: "c \<notin> set s \<Longrightarrow> up_to c s = s"
  by (simp add: up_to_def flip: find_char_None)

text \<open>Splitting at every occurrence of a separator; the result is never empty.\<close>

fun split_on :: "char \<Rightarrow> string \<Rightarrow> string list" where
  "split_on c [] = [[]]"
| "split_on c (x # xs) =
     (if x = c then [] # split_on c xs
      else (case split_on c xs of [] \<Rightarrow> [[x]] | p # ps \<Rightarrow> (x # p) # ps))"

lemma split_on_not_Nil [simp]: "split_on c s \<noteq> []"
  by (induction s) (auto split: list.splits)

lemma split_on_free: "p \<in> set (split_on c s) \<Longrightarrow> c \<notin> set p"
  by (induction s arbitrary: p) (fastforce split: if_splits list.splits)+

lemma split_on_append_free:
  "c \<notin> set p \<Longrightarrow> split_on c (p @ c # r) = p # split_on c r"
  by (induction p) auto

lemma split_on_no_sep: "c \<notin> set p \<Longrightarrow> split_on c p = [p]"
  by (induction p) auto

section \<open>\<open>std::sort\<close> followed by \<open>std::unique\<close>\<close>

definition sort_unique :: "'a::linorder list \<Rightarrow> 'a list" where
  "sort_unique xs = remdups_adj (sort xs)"

lemma set_sort_unique [simp]: "set (sort_unique xs) = set xs"
  by (simp add: sort_unique_def)

lemma sorted_sort_unique: "sorted (sort_unique xs)"
  by (simp add: sort_unique_def sorted_remdups_adj)

lemma distinct_remdups_adj_sorted: "sorted xs \<Longrightarrow> distinct (remdups_adj xs)"
  by (induction xs rule: remdups_adj.induct) (auto simp: antisym)

lemma distinct_sort_unique: "distinct (sort_unique xs)"
  by (simp add: sort_unique_def distinct_remdups_adj_sorted)

lemma sort_unique_eq_iff: "sort_unique xs = sort_unique ys \<longleftrightarrow> set xs = set ys"
proof
  assume "sort_unique xs = sort_unique ys"
  then show "set xs = set ys" by (metis set_sort_unique)
next
  assume "set xs = set ys"
  then show "sort_unique xs = sort_unique ys"
    by (intro sorted_distinct_set_unique)
      (simp_all add: sorted_sort_unique distinct_sort_unique)
qed

lemma sort_unique_idem [simp]: "sort_unique (sort_unique xs) = sort_unique xs"
  by (simp add: sort_unique_eq_iff)

section \<open>Keyed lists\<close>

text \<open>Removing a key and moving it to the front, as \<open>std::list::splice\<close> does.\<close>

definition del_key :: "'k \<Rightarrow> ('k \<times> 'v) list \<Rightarrow> ('k \<times> 'v) list" where
  "del_key k xs = filter (\<lambda>p. fst p \<noteq> k) xs"

lemma del_key_simps [simp]:
  "del_key k [] = []"
  "del_key k (p # xs) = (if fst p = k then del_key k xs else p # del_key k xs)"
  by (simp_all add: del_key_def)

lemma del_key_id: "k \<notin> fst ` set xs \<Longrightarrow> del_key k xs = xs"
  by (induction xs) auto

lemma set_del_key: "set (del_key k xs) = {p \<in> set xs. fst p \<noteq> k}"
  by (auto simp: del_key_def)

lemma map_fst_del_key: "map fst (del_key k xs) = filter (\<lambda>x. x \<noteq> k) (map fst xs)"
  by (induction xs) auto

lemma distinct_del_key: "distinct (map fst xs) \<Longrightarrow> distinct (map fst (del_key k xs))"
  by (simp add: map_fst_del_key)

lemma map_of_del_key: "map_of (del_key k xs) = (map_of xs)(k := None)"
  by (induction xs) (auto simp: fun_eq_iff)

lemma length_del_key:
  "distinct (map fst xs) \<Longrightarrow>
   length (del_key k xs) = (if k \<in> fst ` set xs then length xs - 1 else length xs)"
proof (induction xs)
  case Nil
  then show ?case by simp
next
  case (Cons p xs)
  then show ?case by (cases xs) (auto simp: del_key_id)
qed

section \<open>\<open>std::map\<close>\<close>

text \<open>
  A map is the list of its entries in key order. \<open>map_put\<close> is \<open>m[k] = v\<close>,
  \<open>map_emplace\<close> is \<open>m.emplace(k, v)\<close>, which leaves an existing entry alone.
\<close>

fun map_put :: "'k::linorder \<Rightarrow> 'v \<Rightarrow> ('k \<times> 'v) list \<Rightarrow> ('k \<times> 'v) list" where
  "map_put k v [] = [(k, v)]"
| "map_put k v ((k', v') # kvs) =
     (if k = k' then (k, v) # kvs
      else if k < k' then (k, v) # (k', v') # kvs
      else (k', v') # map_put k v kvs)"

definition map_emplace :: "'k::linorder \<Rightarrow> 'v \<Rightarrow> ('k \<times> 'v) list \<Rightarrow> ('k \<times> 'v) list" where
  "map_emplace k v m = (if map_of m k = None then map_put k v m else m)"

abbreviation map_sorted :: "('k::linorder \<times> 'v) list \<Rightarrow> bool" where
  "map_sorted m \<equiv> sorted_wrt (<) (map fst m)"

lemma set_map_put: "fst ` set (map_put k v kvs) = insert k (fst ` set kvs)"
  by (induction k v kvs rule: map_put.induct) (simp_all add: insert_commute)

lemma sorted_map_put: "map_sorted kvs \<Longrightarrow> map_sorted (map_put k v kvs)"
proof (induction kvs)
  case (Cons p kvs)
  obtain k' v' where p: "p = (k', v')" by (cases p)
  have "\<forall>x \<in> fst ` set (map_put k v kvs). k' < x" if "k' < k"
    using Cons.prems that by (simp add: set_map_put p)
  then show ?case
    using Cons by (auto simp: p)
qed simp

lemma map_of_map_put: "map_sorted kvs \<Longrightarrow> map_of (map_put k v kvs) = (map_of kvs)(k \<mapsto> v)"
  by (induction kvs) (auto simp: fun_eq_iff)

lemma snd_map_put: "snd ` set (map_put k v kvs) \<subseteq> insert v (snd ` set kvs)"
  by (induction k v kvs rule: map_put.induct) (simp_all add: subset_insertI2, blast)

lemma sorted_map_emplace: "map_sorted m \<Longrightarrow> map_sorted (map_emplace k v m)"
  by (simp add: map_emplace_def sorted_map_put)

lemma map_of_map_emplace:
  "map_sorted m \<Longrightarrow> map_of (map_emplace k v m) = (if map_of m k = None then (map_of m)(k \<mapsto> v) else map_of m)"
  by (simp add: map_emplace_def map_of_map_put)

lemma map_entries:
  assumes "distinct (map fst m)"
  shows "map (\<lambda>k. (k, the (map_of m k))) (map fst m) = m"
proof -
  have "(fst p, the (map_of m (fst p))) = p" if "p \<in> set m" for p
    using assms that by (cases p) simp
  then show ?thesis by (simp add: map_idI)
qed

lemma map_sorted_ext:
  assumes "map_sorted m" "map_sorted m'" and "map_of m = map_of m'"
  shows "m = m'"
proof -
  have d: "distinct (map fst m)" "distinct (map fst m')" using assms(1,2) by (simp_all add: strict_sorted_iff)
  have "fst ` set m = fst ` set m'" using assms(3) by (metis dom_map_of_conv_image_fst)
  then have "map fst m = map fst m'" using assms(1,2) by (intro strict_sorted_equal) simp_all
  then show ?thesis using map_entries [OF d(1)] map_entries [OF d(2)] assms(3) by simp
qed

end
