(* ===== verification/Wire.thy ===== *)
theory Wire
  imports Prelude
begin

text \<open>
  The messages of \<open>proto/pj_cloud.proto\<close> as the client reads them, the client's own types of
  \<open>backend_types.hpp\<close>, and \<open>wire_mapping.cpp\<close>, which turns the one into the other. A
  \<open>oneof\<close> is a datatype, an optional message an \<open>option\<close>, and bytes are character lists. Fields
  that no code of the client reads are left out.
\<close>

section \<open>Wire messages\<close>

datatype ErrorCode =
    ERROR_UNSPECIFIED | ERROR_AUTH_FAILED | ERROR_PROTOCOL_VERSION | ERROR_NOT_FOUND
  | ERROR_INVALID_REQUEST | ERROR_RESOURCE_LIMIT | ERROR_S3_UNAVAILABLE | ERROR_INTERNAL
  | ERROR_RESUME_NOT_POSSIBLE | ERROR_STALE_CATALOG | ERROR_CATALOG_UNAVAILABLE

record WireError =
  err_code :: ErrorCode
  err_message :: string

record PbTag =
  pt_key :: string
  pt_value :: string
  pt_override :: bool

record FileSummary =
  fs_id :: u64
  fs_s3_key :: string
  fs_size_bytes :: u64
  fs_recorded :: "(int \<times> int) option"
  fs_tags :: "PbTag list"

record ListFilesResponse =
  lf_files :: "FileSummary list"
  lf_next_page_token :: string
  lf_metadata :: "(string \<times> (string \<times> string) list) list"
  lf_generation :: string

record PbTopicInfo =
  pti_name :: string
  pti_schema_name :: string
  pti_schema_encoding :: string
  pti_message_count :: u64

record DimRobot =
  dr_id :: u64
  dr_name :: string
  dr_count :: u64

record DimSite =
  ds_id :: u64
  ds_name :: string
  ds_count :: u64
  ds_robots :: "DimRobot list"

record DimCustomer =
  dc_id :: u64
  dc_name :: string
  dc_count :: u64
  dc_sites :: "DimSite list"

record GetVocabularyResponse =
  gv_customers :: "DimCustomer list"
  gv_generation :: string

record HelloResponse =
  hr_version :: string
  hr_capabilities :: "(bool \<times> bool) option"
  hr_backend :: "(bool \<times> string list) option"
  hr_features :: "string list"

record TopicBinding =
  tb_topic_id :: u32
  tb_topic_name :: string
  tb_schema_id :: u32
  tb_message_encoding :: string

record SchemaBinding =
  sb_schema_id :: u32
  sb_name :: string
  sb_encoding :: string
  sb_data :: string

record OpenSessionResponse =
  os_subscription_id :: u64
  os_range :: "(int \<times> int) option"
  os_chunk_bytes :: u64
  os_messages :: u64
  os_topics :: "TopicBinding list"
  os_schemas :: "SchemaBinding list"

text \<open>Enumerations of proto3 are open: a value the client does not know is kept as a number.\<close>

datatype PayloadEncoding = PAYLOAD_UNSPECIFIED | PAYLOAD_RAW | PAYLOAD_ZSTD | PAYLOAD_LZ4 | PAYLOAD_OTHER int

datatype BodyEncoding = BODY_UNSPECIFIED | BODY_NONE | BODY_ZSTD | BODY_OTHER int

datatype EosReason = EOS_UNSPECIFIED | EOS_COMPLETE | EOS_CANCELLED | EOS_ERROR | EOS_OTHER int

record PbMessage =
  pm_topic_id :: u32
  pm_schema_id :: u32
  pm_log_time_ns :: int
  pm_publish_time_ns :: int
  pm_encoding :: PayloadEncoding
  pm_payload :: string

record MessageBatch =
  mb_seq :: u64
  mb_messages :: "PbMessage list"
  mb_encoding :: BodyEncoding
  mb_uncompressed_size :: u64
  mb_body :: string

record Eos =
  eos_reason :: EosReason
  eos_messages_sent :: u64
  eos_bytes_sent :: u64

record EncodedServerMessage =
  enc_zstd :: bool
  enc_size :: u64
  enc_body :: string

datatype ServerPayload =
    SmHello HelloResponse | SmListFiles ListFilesResponse | SmGetFile "PbTopicInfo list"
  | SmUpdateTags "PbTag list" | SmOpenSession OpenSessionResponse | SmBatch MessageBatch
  | SmProgress | SmEos Eos | SmError WireError | SmVocabulary GetVocabularyResponse
  | SmEncoded EncodedServerMessage | SmNone

record ServerMessage =
  sm_request_id :: u64
  sm_subscription_id :: u64
  sm_payload :: ServerPayload

section \<open>Client types\<close>

record TagRow =
  tag_key :: string
  tag_value :: string
  tag_is_override :: bool

record SequenceInfo =
  si_name :: string
  si_min_ts_ns :: int
  si_max_ts_ns :: int
  si_total_size_bytes :: int
  si_user_metadata :: "(string \<times> string) list"
  si_tags :: "TagRow list"

record TopicInfo =
  ti_topic_name :: string
  ti_schema_fields :: "(string \<times> string) list"
  ti_message_count :: int

record TopicsResult =
  tr_ok :: bool
  tr_error :: string
  tr_topics :: "TopicInfo list"

datatype HelloErrorCode = HelloNone | HelloAuthFailed | HelloOther

record BackendCaps =
  supports_file_hierarchy :: bool
  metadata_key_vocabulary :: "string list"

record ServerCaps =
  resume_supported :: bool
  tag_edit_supported :: bool

record VocabRobot =
  vr_id :: u64
  vr_name :: string
  vr_count :: u64

record VocabSite =
  vs_id :: u64
  vs_name :: string
  vs_count :: u64
  vs_robots :: "VocabRobot list"

record VocabCustomer =
  vc_id :: u64
  vc_name :: string
  vc_count :: u64
  vc_sites :: "VocabSite list"

record VocabularyInfo =
  vi_customers :: "VocabCustomer list"
  vi_generation :: string

definition totalFiles :: "VocabularyInfo \<Rightarrow> u64" where
  "totalFiles v = foldl (\<lambda>n c. n + vc_count c) 0 (vi_customers v)"

definition totalSites :: "VocabularyInfo \<Rightarrow> nat" where
  "totalSites v = foldl (\<lambda>n c. n + length (vc_sites c)) 0 (vi_customers v)"

definition totalRobots :: "VocabularyInfo \<Rightarrow> nat" where
  "totalRobots v =
     foldl (\<lambda>n c. foldl (\<lambda>n s. n + length (vs_robots s)) n (vc_sites c)) 0 (vi_customers v)"

record ListFilter =
  flt_customer_id :: "u64 option"
  flt_site_id :: "u64 option"
  flt_robot_id :: "u64 option"
  flt_generation :: string

definition filter_empty :: "ListFilter \<Rightarrow> bool" where
  "filter_empty f \<longleftrightarrow> flt_customer_id f = None \<and> flt_site_id f = None \<and> flt_robot_id f = None"

record SessionTopic =
  st_topic_id :: u32
  st_topic_name :: string
  st_schema_id :: u32
  st_message_encoding :: string

record SessionSchema =
  ss_schema_id :: u32
  ss_name :: string
  ss_encoding :: string
  ss_data :: string

record SessionInfo =
  inf_subscription_id :: u64
  inf_merged_start_ns :: int
  inf_merged_end_ns :: int
  inf_estimated_chunk_bytes :: u64
  inf_approximate_messages :: u64
  inf_topics :: "SessionTopic list"
  inf_schemas :: "SessionSchema list"

datatype SessionEos = EosUnset | EosComplete | EosCancelled | EosError

record SessionStats =
  messages_received :: u64
  bytes_received :: u64
  wire_bytes_received :: u64
  batches_received :: u64
  eos_total_messages_sent :: u64
  eos_total_bytes_sent :: u64
  eos :: SessionEos
  stats_error :: string

definition no_stats :: SessionStats where
  "no_stats = \<lparr>messages_received = 0, bytes_received = 0, wire_bytes_received = 0,
     batches_received = 0, eos_total_messages_sent = 0, eos_total_bytes_sent = 0,
     eos = EosUnset, stats_error = []\<rparr>"

record OpenSessionParams =
  osp_s3_keys :: "string list"
  osp_selection_id :: string
  osp_topic_names :: "string list"
  osp_start_ns :: "int option"
  osp_end_ns :: "int option"
  osp_include_latched :: bool

record DecodedMessage =
  dm_topic_id :: u32
  dm_schema_id :: u32
  dm_log_time_ns :: int
  dm_publish_time_ns :: int
  dm_payload :: string

section \<open>Mapping\<close>

definition mapTags :: "PbTag list \<Rightarrow> TagRow list" where
  "mapTags = map (\<lambda>t. \<lparr>tag_key = pt_key t, tag_value = pt_value t, tag_is_override = pt_override t\<rparr>)"

definition mapFileSummary :: "FileSummary \<Rightarrow> (string \<times> string) list option \<Rightarrow> u64 \<times> SequenceInfo" where
  "mapFileSummary s meta = (fs_id s,
     \<lparr>si_name = fs_s3_key s,
      si_min_ts_ns = (case fs_recorded s of Some (a, b) \<Rightarrow> a | None \<Rightarrow> 0),
      si_max_ts_ns = (case fs_recorded s of Some (a, b) \<Rightarrow> b | None \<Rightarrow> 0),
      si_total_size_bytes = sint (fs_size_bytes s),
      si_user_metadata = (case meta of Some kvs \<Rightarrow> kvs | None \<Rightarrow> []),
      si_tags = mapTags (fs_tags s)\<rparr>)"

text \<open>\<open>std::to_string\<close> of an unsigned number.\<close>

definition u64_str :: "u64 \<Rightarrow> string" where
  "u64_str w = nat_str (unat w)"

definition mapListFilesResponse :: "ListFilesResponse \<Rightarrow> (u64 \<times> SequenceInfo) list" where
  "mapListFilesResponse r =
     map (\<lambda>s. mapFileSummary s (map_of (lf_metadata r) (u64_str (fs_id s)))) (lf_files r)"

definition mapTopicInfo :: "PbTopicInfo \<Rightarrow> TopicInfo" where
  "mapTopicInfo t =
     \<lparr>ti_topic_name = pti_name t,
      ti_schema_fields =
        (if pti_schema_name t \<noteq> [] then [(''schema'', pti_schema_name t)] else []) @
        (if pti_schema_encoding t \<noteq> [] then [(''encoding'', pti_schema_encoding t)] else []) @
        (if 0 < pti_message_count t then [(''messages'', u64_str (pti_message_count t))] else []),
      ti_message_count = sint (pti_message_count t)\<rparr>"

definition mapGetFileResponseTopics :: "PbTopicInfo list \<Rightarrow> TopicInfo list" where
  "mapGetFileResponseTopics = map mapTopicInfo"

definition mapGetVocabularyResponse :: "GetVocabularyResponse \<Rightarrow> VocabularyInfo" where
  "mapGetVocabularyResponse r =
     \<lparr>vi_customers = map (\<lambda>c.
        \<lparr>vc_id = dc_id c, vc_name = dc_name c, vc_count = dc_count c,
         vc_sites = map (\<lambda>s.
           \<lparr>vs_id = ds_id s, vs_name = ds_name s, vs_count = ds_count s,
            vs_robots = map (\<lambda>b. \<lparr>vr_id = dr_id b, vr_name = dr_name b, vr_count = dr_count b\<rparr>)
              (ds_robots s)\<rparr>) (dc_sites c)\<rparr>) (gv_customers r),
      vi_generation = gv_generation r\<rparr>"

end
