(* ===== verification/Vocab_Gate.thy ===== *)
theory Vocab_Gate
  imports Wire
begin

text \<open>
  \<open>vocab_select.hpp\<close>: the browse gate. A recording list is requested only for a customer, a site
  and a robot chosen by name; the names are resolved to the ids of one catalog generation. The
  loops with early return are searches for the first entry of a name.
\<close>

section \<open>Definitions\<close>

definition resolveGateFilter :: "VocabularyInfo \<Rightarrow> string \<Rightarrow> string \<Rightarrow> string \<Rightarrow> ListFilter option" where
  "resolveGateFilter v customer site robot =
     (case find (\<lambda>c. vc_name c = customer) (vi_customers v) of
        None \<Rightarrow> None
      | Some c \<Rightarrow>
          (case find (\<lambda>s. vs_name s = site) (vc_sites c) of
             None \<Rightarrow> None
           | Some s \<Rightarrow>
               (case find (\<lambda>b. vr_name b = robot) (vs_robots s) of
                  None \<Rightarrow> None
                | Some b \<Rightarrow>
                    Some \<lparr>flt_customer_id = Some (vc_id c), flt_site_id = Some (vs_id s),
                          flt_robot_id = Some (vr_id b), flt_generation = vi_generation v\<rparr>)))"

definition autoSelectCustomer :: "VocabularyInfo \<Rightarrow> string" where
  "autoSelectCustomer v = (case vi_customers v of [c] \<Rightarrow> vc_name c | _ \<Rightarrow> [])"

definition siteNamesFor :: "VocabularyInfo \<Rightarrow> string \<Rightarrow> string list" where
  "siteNamesFor v customer =
     (case find (\<lambda>c. vc_name c = customer) (vi_customers v) of
        None \<Rightarrow> []
      | Some c \<Rightarrow> map vs_name (vc_sites c))"

definition robotNamesFor :: "VocabularyInfo \<Rightarrow> string \<Rightarrow> string \<Rightarrow> string list" where
  "robotNamesFor v customer site =
     (case find (\<lambda>c. vc_name c = customer) (vi_customers v) of
        None \<Rightarrow> []
      | Some c \<Rightarrow>
          (case find (\<lambda>s. vs_name s = site) (vc_sites c) of
             None \<Rightarrow> []
           | Some s \<Rightarrow> map vr_name (vs_robots s)))"

definition autoSelectRobot :: "VocabularyInfo \<Rightarrow> string \<Rightarrow> string \<Rightarrow> string" where
  "autoSelectRobot v customer site =
     (case robotNamesFor v customer site of [b] \<Rightarrow> b | _ \<Rightarrow> [])"

datatype GatePhase =
    GateDisconnected | GateVocabularyLoading | GateVocabularyError | GateEmptyCatalog
  | GateNeedsSelection | GateListLoading | GateListError | GateListEmpty | GateRows

fun gateHintText :: "GatePhase \<Rightarrow> u64 \<Rightarrow> nat \<Rightarrow> string" where
  "gateHintText GateDisconnected n sites = ''Connect to a server to browse recordings''"
| "gateHintText GateVocabularyError n sites = ''Could not load the catalog - use Refresh to retry''"
| "gateHintText GateEmptyCatalog n sites =
     ''The catalog is empty - no recordings have been indexed yet''"
| "gateHintText GateNeedsSelection n sites =
     ''Select customer, site and robot to load recordings - '' @ u64_str n @
     '' recordings across '' @ nat_str sites @ '' sites''"
| "gateHintText GateListError n sites =
     ''Recording list failed or is incomplete - use Refresh to retry''"
| "gateHintText GateListEmpty n sites = ''No recordings match the current selection''"
| "gateHintText GateVocabularyLoading n sites = []"
| "gateHintText GateListLoading n sites = []"
| "gateHintText GateRows n sites = []"

section \<open>Properties\<close>

text \<open>The wire tree below one dimension path.\<close>

definition dim_path :: "GetVocabularyResponse \<Rightarrow> string \<Rightarrow> string \<Rightarrow> string \<Rightarrow> u64 \<times> u64 \<times> u64 \<Rightarrow> bool" where
  "dim_path r customer site robot ids \<longleftrightarrow>
     (\<exists>c \<in> set (gv_customers r). \<exists>s \<in> set (dc_sites c). \<exists>b \<in> set (ds_robots s).
        dc_name c = customer \<and> ds_name s = site \<and> dr_name b = robot \<and> ids = (dc_id c, ds_id s, dr_id b))"

definition unique_names :: "GetVocabularyResponse \<Rightarrow> bool" where
  "unique_names r \<longleftrightarrow> distinct (map dc_name (gv_customers r)) \<and>
     (\<forall>c \<in> set (gv_customers r). distinct (map ds_name (dc_sites c)) \<and>
        (\<forall>s \<in> set (dc_sites c). distinct (map dr_name (ds_robots s))))"

lemma find_name_map:
  "find (\<lambda>y. f y = k) (map g xs) = map_option g (find (\<lambda>x. f (g x) = k) xs)"
  by (induction xs) auto

lemma find_unique:
  assumes "distinct (map f xs)" and "x \<in> set xs" and "f x = k"
  shows "find (\<lambda>y. f y = k) xs = Some x"
  using assms by (induction xs) (auto simp: image_iff)

lemma find_SomeD: "find P xs = Some x \<Longrightarrow> x \<in> set xs \<and> P x"
  by (metis find_Some_iff nth_mem)

lemma find_NoneD: "find P xs = None \<Longrightarrow> x \<in> set xs \<Longrightarrow> \<not> P x"
  by (simp add: find_None_iff)

text \<open>
  A customer, site and robot resolve to a filter exactly when the robot is among the names the
  pickers offer for them; nothing is ever resolved by half.
\<close>

theorem gate_resolves_offered:
  "(case resolveGateFilter v customer site robot of
      None \<Rightarrow> robot \<notin> set (robotNamesFor v customer site)
    | Some f \<Rightarrow> robot \<in> set (robotNamesFor v customer site) \<and> site \<in> set (siteNamesFor v customer) \<and>
        flt_customer_id f \<noteq> None \<and> flt_site_id f \<noteq> None \<and> flt_robot_id f \<noteq> None \<and>
        flt_generation f = vi_generation v)"
proof (cases "find (\<lambda>c. vc_name c = customer) (vi_customers v)")
  case (Some c)
  show ?thesis
  proof (cases "find (\<lambda>s. vs_name s = site) (vc_sites c)")
    case (Some s)
    with \<open>find _ _ = Some c\<close> show ?thesis
      by (cases "find (\<lambda>b. vr_name b = robot) (vs_robots s)")
        (auto simp: resolveGateFilter_def robotNamesFor_def siteNamesFor_def dest: find_SomeD find_NoneD)
  qed (simp add: Some resolveGateFilter_def robotNamesFor_def)
qed (simp add: resolveGateFilter_def robotNamesFor_def)

text \<open>
  With unique names per level, as the catalog builds them, the filter resolved from a mapped
  vocabulary response carries the ids the server sent for that path, and is found for every path.
\<close>

theorem gate_ids_from_wire:
  assumes "unique_names r"
  shows "resolveGateFilter (mapGetVocabularyResponse r) customer site robot =
           Some \<lparr>flt_customer_id = Some i, flt_site_id = Some j, flt_robot_id = Some k, flt_generation = g\<rparr>
         \<longleftrightarrow> dim_path r customer site robot (i, j, k) \<and> g = gv_generation r"
    (is "?lhs \<longleftrightarrow> ?rhs")
proof
  assume ?lhs
  then show ?rhs
    by (auto simp: resolveGateFilter_def mapGetVocabularyResponse_def find_name_map dim_path_def
        split: option.splits dest!: find_SomeD)
next
  assume ?rhs
  then obtain c s b where p: "c \<in> set (gv_customers r)" "s \<in> set (dc_sites c)" "b \<in> set (ds_robots s)"
      "dc_name c = customer" "ds_name s = site" "dr_name b = robot"
      "i = dc_id c" "j = ds_id s" "k = dr_id b" "g = gv_generation r"
    unfolding dim_path_def by blast
  have "find (\<lambda>y. dc_name y = customer) (gv_customers r) = Some c"
    "find (\<lambda>y. ds_name y = site) (dc_sites c) = Some s"
    "find (\<lambda>y. dr_name y = robot) (ds_robots s) = Some b"
    using assms p by (auto simp: unique_names_def intro!: find_unique)
  with p show ?lhs
    by (simp add: resolveGateFilter_def mapGetVocabularyResponse_def find_name_map)
qed

definition demo_vocabulary :: GetVocabularyResponse where
  "demo_vocabulary =
     \<lparr>gv_customers = [\<lparr>dc_id = 4, dc_name = ''globex'', dc_count = 2, dc_sites =
        [\<lparr>ds_id = 7, ds_name = ''nashville'', ds_count = 2, ds_robots =
           [\<lparr>dr_id = 9, dr_name = ''arri-182'', dr_count = 2\<rparr>]\<rparr>]\<rparr>],
      gv_generation = ''g1''\<rparr>"

theorem gate_ids_from_wire_witness:
  "resolveGateFilter (mapGetVocabularyResponse demo_vocabulary) ''globex'' ''nashville'' ''arri-182'' =
     Some \<lparr>flt_customer_id = Some 4, flt_site_id = Some 7, flt_robot_id = Some 9, flt_generation = ''g1''\<rparr>"
proof -
  have "unique_names demo_vocabulary" by (simp add: unique_names_def demo_vocabulary_def)
  from gate_ids_from_wire [OF this] show ?thesis by (simp add: dim_path_def demo_vocabulary_def)
qed

end
