(* ===== verification/Session_Decode.thy ===== *)
theory Session_Decode
  imports Wire
begin

text \<open>
  \<open>session_decode.cpp\<close>: decoding of message batches and of the compressed envelope, with the
  ceilings that stop a decompression bomb. The codecs and the protobuf parser are parameters,
  collected in a record; \<open>codecs_ok\<close> is the part of their documentation the bounds rest on: a
  decompressor never writes more than the capacity it is given.
\<close>

section \<open>Codecs\<close>

datatype frame_content = ContentError | ContentUnknown | Content nat

text \<open>One call of the streaming LZ4 decoder: its hint, what it wrote and how much it read.\<close>

datatype lz4_result = Lz4Error string | Lz4Out nat string nat

record Codecs =
  zstd_content :: "string \<Rightarrow> frame_content"
  zstd_frame_size :: "string \<Rightarrow> nat option"
  zstd_decompress :: "nat \<Rightarrow> string \<Rightarrow> string + string"
  lz4_create :: "string option"
  lz4_step :: "string \<Rightarrow> nat \<Rightarrow> lz4_result"
  parse_body :: "string \<Rightarrow> PbMessage list option"

definition codecs_ok :: "Codecs \<Rightarrow> bool" where
  "codecs_ok C \<longleftrightarrow> (\<forall>cap x y. zstd_decompress C cap x = Inr y \<longrightarrow> length y \<le> cap)"

section \<open>Definitions\<close>

definition kMaxDecodedBatchBytes :: nat where
  "kMaxDecodedBatchBytes = 512 * 1024 * 1024"

definition kMaxDecodedEnvelopeBytes :: nat where
  "kMaxDecodedEnvelopeBytes = 64 * 1024 * 1024"

definition zstdDecodeAll :: "Codecs \<Rightarrow> string \<Rightarrow> nat \<Rightarrow> string + string" where
  "zstdDecodeAll C x max_bytes =
     bindR
       (case zstd_content C x of
          ContentError \<Rightarrow> Inl ''invalid ZSTD frame''
        | ContentUnknown \<Rightarrow> Inr (min (length x * 8 + 1024) max_bytes)
        | Content n \<Rightarrow>
            if max_bytes < n
            then Inl (''ZSTD frame declares '' @ nat_str n @ '' bytes (over the decode ceiling)'')
            else Inr n)
       (\<lambda>cap. case zstd_decompress C cap x of
          Inl e \<Rightarrow> Inl (''ZSTD decode failed: '' @ e)
        | Inr y \<Rightarrow> Inr y)"

text \<open>
  The LZ4 loop: call \<open>i\<close> of the decoder on this input, with \<open>src\<close> left to read and \<open>out\<close>
  written so far. Every round reads or writes something or ends, and \<open>out\<close> is capped, so the
  loop ends.
\<close>

function lz4_loop :: "Codecs \<Rightarrow> string \<Rightarrow> nat \<Rightarrow> nat \<Rightarrow> string \<Rightarrow> string \<Rightarrow> string + string" where
  "lz4_loop C x max_bytes i src out =
     (case lz4_step C x i of
        Lz4Error e \<Rightarrow> Inl (''LZ4 decode failed: '' @ e)
      | Lz4Out hint w n \<Rightarrow>
          (let out' = out @ w; src' = drop n src in
           if max_bytes < length out' then Inl ''LZ4 decode exceeds the decode ceiling''
           else if hint = 0 then
             (if src' \<noteq> [] then Inl ''LZ4 decode failed: trailing data after frame end'' else Inr out')
           else if length src - length src' = 0 \<and> w = [] then Inl ''LZ4 decode failed: truncated frame''
           else lz4_loop C x max_bytes (Suc i) src' out'))"
  by pat_completeness auto
termination
  by (relation "measure (\<lambda>(C, x, m, i, src, out). length src + (m + 1 - length out))")
    (auto simp flip: length_greater_0_conv)

declare lz4_loop.simps [simp del]

definition lz4DecodeAll :: "Codecs \<Rightarrow> string \<Rightarrow> nat \<Rightarrow> string + string" where
  "lz4DecodeAll C x max_bytes =
     (case lz4_create C of
        Some e \<Rightarrow> Inl (''LZ4 ctx create failed: '' @ e)
      | None \<Rightarrow> lz4_loop C x max_bytes 0 x [])"

definition decodeEncodedEnvelope :: "Codecs \<Rightarrow> string \<Rightarrow> u64 \<Rightarrow> string option" where
  "decodeEncodedEnvelope C body announced =
     (if announced = 0 \<or> kMaxDecodedEnvelopeBytes < unat announced then None
      else if body = [] \<or> kMaxDecodedEnvelopeBytes < length body then None
      else if zstd_frame_size C body \<noteq> Some (length body) then None
      else (case zstd_content C body of
          Content n \<Rightarrow>
            if n \<noteq> unat announced \<or> kMaxDecodedEnvelopeBytes < n then None
            else (case zstd_decompress C n body of
                Inr y \<Rightarrow> if length y \<noteq> n then None else Some y
              | Inl e \<Rightarrow> None)
        | _ \<Rightarrow> None))"

definition with_payload :: "PbMessage \<Rightarrow> string \<Rightarrow> DecodedMessage" where
  "with_payload m p =
     \<lparr>dm_topic_id = pm_topic_id m, dm_schema_id = pm_schema_id m, dm_log_time_ns = pm_log_time_ns m,
      dm_publish_time_ns = pm_publish_time_ns m, dm_payload = p\<rparr>"

definition decode_payload :: "Codecs \<Rightarrow> nat \<Rightarrow> PbMessage \<Rightarrow> string + string" where
  "decode_payload C max_bytes m =
     (case pm_encoding m of
        PAYLOAD_ZSTD \<Rightarrow> zstdDecodeAll C (pm_payload m) max_bytes
      | PAYLOAD_LZ4 \<Rightarrow> lz4DecodeAll C (pm_payload m) max_bytes
      | _ \<Rightarrow> Inr (pm_payload m))"

fun decode_messages :: "Codecs \<Rightarrow> nat \<Rightarrow> PbMessage list \<Rightarrow> string + DecodedMessage list" where
  "decode_messages C max_bytes [] = Inr []"
| "decode_messages C max_bytes (m # ms) =
     bindR (decode_payload C max_bytes m) (\<lambda>p.
     bindR (decode_messages C max_bytes ms) (\<lambda>ds. Inr (with_payload m p # ds)))"

definition decodeBatch :: "Codecs \<Rightarrow> MessageBatch \<Rightarrow> nat \<Rightarrow> string + DecodedMessage list" where
  "decodeBatch C batch max_decoded_bytes =
     (case mb_encoding batch of
        BODY_ZSTD \<Rightarrow>
          bindR (zstdDecodeAll C (mb_body batch) max_decoded_bytes) (\<lambda>raw.
            if length raw \<noteq> unat (mb_uncompressed_size batch)
            then Inl ''batch body_uncompressed_size mismatch''
            else if 2147483647 < length raw then Inl ''batch body too large to parse''
            else (case parse_body C raw of
                None \<Rightarrow> Inl ''corrupt MessageBatchBody''
              | Some ms \<Rightarrow> Inr (map (\<lambda>m. with_payload m (pm_payload m)) ms)))
      | BODY_NONE \<Rightarrow> decode_messages C max_decoded_bytes (mb_messages batch)
      | BODY_UNSPECIFIED \<Rightarrow> decode_messages C max_decoded_bytes (mb_messages batch)
      | BODY_OTHER n \<Rightarrow> Inl (''unknown body_encoding '' @ int_str n @ '' (client rejects)''))"

section \<open>Ceilings\<close>

lemma zstd_bounded:
  assumes "codecs_ok C" and "zstdDecodeAll C x n = Inr y"
  shows "length y \<le> n"
proof -
  obtain cap where "zstd_decompress C cap x = Inr y" "cap \<le> n"
    using assms(2) by (auto simp: zstdDecodeAll_def split: frame_content.splits if_splits sum.splits)
  with assms(1) show ?thesis unfolding codecs_ok_def by (meson order_trans)
qed

lemma lz4_bounded: "lz4_loop C x n i src out = Inr y \<Longrightarrow> length y \<le> n"
proof (induction C x n i src out rule: lz4_loop.induct)
  case (1 C x n i src out)
  show ?case using 1(2)
    by (subst (asm) lz4_loop.simps)
      (auto simp: Let_def split: lz4_result.splits if_splits dest: 1(1) [OF _ refl refl])
qed

text \<open>How a decoded message stands to the wire message it comes from.\<close>

definition decoded_from :: "nat \<Rightarrow> PbMessage \<Rightarrow> DecodedMessage \<Rightarrow> bool" where
  "decoded_from n m d \<longleftrightarrow> d = with_payload m (dm_payload d) \<and>
     (if pm_encoding m = PAYLOAD_ZSTD \<or> pm_encoding m = PAYLOAD_LZ4 then length (dm_payload d) \<le> n
      else dm_payload d = pm_payload m)"

lemma decode_payload_bounded:
  assumes "codecs_ok C" and "decode_payload C n m = Inr p"
  shows "decoded_from n m (with_payload m p)"
  using assms
  by (auto simp: decode_payload_def decoded_from_def with_payload_def lz4DecodeAll_def
      split: PayloadEncoding.splits option.splits dest: zstd_bounded lz4_bounded)

lemma decode_messages_bounded:
  assumes "codecs_ok C"
  shows "decode_messages C n ms = Inr ds \<Longrightarrow> list_all2 (decoded_from n) ms ds"
  by (induction ms arbitrary: ds) (auto simp: bindR_Inr_iff decode_payload_bounded [OF assms])


text \<open>A codec that stores its input, to evaluate the decoder on.\<close>

definition stored_codecs :: Codecs where
  "stored_codecs =
     \<lparr>zstd_content = (\<lambda>x. Content (length x)), zstd_frame_size = (\<lambda>x. Some (length x)),
      zstd_decompress = (\<lambda>cap x. if length x \<le> cap then Inr x else Inl ''dst''),
      lz4_create = None, lz4_step = (\<lambda>x i. Lz4Out 0 x (length x)),
      parse_body = (\<lambda>x. None)\<rparr>"

lemma stored_codecs_ok [simp]: "codecs_ok stored_codecs"
  by (auto simp: codecs_ok_def stored_codecs_def split: if_splits)

definition demo_message :: "PayloadEncoding \<Rightarrow> string \<Rightarrow> PbMessage" where
  "demo_message e p = \<lparr>pm_topic_id = 1, pm_schema_id = 1, pm_log_time_ns = 5, pm_publish_time_ns = 6,
     pm_encoding = e, pm_payload = p\<rparr>"

definition demo_batch :: "u64 \<Rightarrow> PbMessage list \<Rightarrow> MessageBatch" where
  "demo_batch n ms = \<lparr>mb_seq = n, mb_messages = ms, mb_encoding = BODY_NONE,
     mb_uncompressed_size = 0, mb_body = []\<rparr>"


lemma envelope_exact:
  assumes "decodeEncodedEnvelope C body n = Some y"
  shows "length y = unat n \<and> length y \<le> kMaxDecodedEnvelopeBytes \<and> zstd_frame_size C body = Some (length body)"
  using assms by (auto simp: decodeEncodedEnvelope_def split: if_splits frame_content.splits sum.splits)

end
