(* ===== verification/Loops.thy ===== *)
theory Loops
  imports Prelude
begin

text \<open>
  The loop \<open>for (;;) { ... }\<close>: a step either leaves the loop with a result or goes round with a
  new state; a step that cannot complete makes the loop undefined. The rules below are an
  invariant rule for what the loop returns and a measure rule for that it returns.
\<close>

partial_function (option) loop :: "('s \<Rightarrow> ('r + 's) option) \<Rightarrow> 's \<Rightarrow> 'r option" where
  [code]: "loop step s =
     (case step s of
        None \<Rightarrow> None
      | Some (Inl r) \<Rightarrow> Some r
      | Some (Inr s') \<Rightarrow> loop step s')"

lemma loop_invariant:
  assumes "loop step s = Some r" and "I s"
    and "\<And>s s'. I s \<Longrightarrow> step s = Some (Inr s') \<Longrightarrow> I s'"
    and "\<And>s r. I s \<Longrightarrow> step s = Some (Inl r) \<Longrightarrow> Q r"
  shows "Q r"
proof -
  have "step = step \<longrightarrow> I s \<longrightarrow> Q r"
  proof (rule loop.raw_induct [where P = "\<lambda>st s r. st = step \<longrightarrow> I s \<longrightarrow> Q r", OF _ assms(1)], intro impI)
    fix loop' :: "('b \<Rightarrow> ('a + 'b) option) \<Rightarrow> 'b \<Rightarrow> 'a option" and st s r
    assume "\<And>st s r. loop' st s = Some r \<Longrightarrow> st = step \<longrightarrow> I s \<longrightarrow> Q r"
      and "(case st s of None \<Rightarrow> None | Some (Inl r) \<Rightarrow> Some r | Some (Inr s') \<Rightarrow> loop' st s') = Some r"
      and "st = step" and "I s"
    then show "Q r" using assms(3,4) by (auto split: option.splits sum.splits)
  qed
  with assms(2) show ?thesis by simp
qed

lemma loop_returns:
  fixes m :: "'s \<Rightarrow> nat"
  assumes "I s" and "\<And>s. I s \<Longrightarrow> step s \<noteq> None"
    and "\<And>s s'. I s \<Longrightarrow> step s = Some (Inr s') \<Longrightarrow> I s' \<and> m s' < m s"
  shows "\<exists>r. loop step s = Some r"
  using assms(1)
proof (induction s rule: measure_induct_rule [of m])
  case (less s)
  then obtain x where x: "step s = Some x" using assms(2) by fast
  then show ?case
  proof (cases x)
    case (Inl r)
    with x show ?thesis by (simp add: loop.simps)
  next
    case (Inr s')
    with x less assms(3) show ?thesis by (subst loop.simps) simp
  qed
qed

end
