(* ===== verification/Connection.thy ===== *)
theory Connection
  imports Session_Decode Loops "HOL-Library.Monad_Syntax" "HOL-Library.Code_Target_Nat"
begin

text \<open>
  \<open>backend_connection.cpp\<close>, first part: the state of a connection, the receive thread, and the
  request/response exchange. One thread drives the connection; the receive thread and a cancelling
  thread run beside it. What they do is a script: a list of groups of events, one group for each
  point at which the driving thread reads shared state, so that every interleaving of the atomic
  sections is the run of some script. A wait takes groups until its predicate holds or its time has
  passed; a function is \<open>None\<close> when the script ends before it returns. The clock counts
  milliseconds and advances only by events.

  The frames the connection has sent are logged; a send fails while the link is down.
\<close>

section \<open>State\<close>

datatype ClientPayload =
    CmHello (cm_version: u32) (cm_features: "string list") (cm_token: string) (cm_accept_zstd: bool)
  | CmListFiles (cm_page_token: string) (cm_limit: u32) (cm_filter: "ListFilter option") (cm_generation: "string option")
  | CmGetFile string "u64 option"
  | CmUpdateTags string "u64 option" "(string \<times> string) list" "string list"
  | CmOpenFresh "string list" "string list" "(int \<times> int) option" bool
  | CmOpenSelection string
  | CmOpenResume u64 u64
  | CmCancel u64
  | CmAck u64 u64
  | CmGetVocabulary bool

record ClientMessage =
  cm_request_id :: u64
  cm_payload :: ClientPayload

datatype net_event =
    EvFrame string | EvText string | EvOpen | EvClose | EvError string
  | EvCancel | EvAbort | EvTick nat | EvLink bool

record TlsCaChoice =
  ca_file :: string
  disable_hostname_validation :: bool

text \<open>Protobuf and the codecs, with the certificate files that can be read.\<close>

record Lib =
  codecs :: Codecs
  parse_server :: "string \<Rightarrow> ServerMessage option"
  serialize_client :: "ClientMessage \<Rightarrow> string option"
  cert_readable :: "string \<Rightarrow> bool"
  ssl_cert_file :: "string option"

record Conn =
  conn_uri :: string
  conn_cert_path :: string
  conn_api_key :: string
  conn_allow_insecure :: bool
  has_socket :: bool
  socket_tls :: "TlsCaChoice option"
  server_version :: "string option"
  last_hello_error :: HelloErrorCode
  backend_caps :: "BackendCaps option"
  server_caps :: "ServerCaps option"
  request_open_selection :: bool
  negotiated_features :: "string list"
  session_from_selection :: bool
  next_request_id :: u64
  socket_closed :: bool
  socket_open :: bool
  socket_error :: string
  pending :: "u64 \<rightharpoonup> ServerMessage option"
  file_id_by_name :: "string \<rightharpoonup> u64"
  catalog_generation :: string
  session_active :: bool
  session_subscription_id :: u64
  cancel_requested :: bool
  session_inbox :: "ServerMessage list"
  session_wire_bytes :: u64
  session_deadline :: "nat option"
  test_drop_after :: nat
  abort_requested :: bool
  now :: nat
  link_ok :: bool
  script :: "net_event list list"
  sent :: "ClientMessage list"

definition new_connection :: "string \<Rightarrow> string \<Rightarrow> string \<Rightarrow> bool \<Rightarrow> net_event list list \<Rightarrow> Conn" where
  "new_connection uri cert key insecure sc =
     \<lparr>conn_uri = uri, conn_cert_path = cert, conn_api_key = key, conn_allow_insecure = insecure, has_socket = False,
      socket_tls = None, server_version = None, last_hello_error = HelloNone, backend_caps = None,
      server_caps = None, request_open_selection = False, negotiated_features = [],
      session_from_selection = False, next_request_id = 1, socket_closed = False,
      socket_open = False, socket_error = [], pending = Map.empty, file_id_by_name = Map.empty,
      catalog_generation = [], session_active = False, session_subscription_id = 0,
      cancel_requested = False, session_inbox = [], session_wire_bytes = 0,
      session_deadline = None, test_drop_after = 0, abort_requested = False, now = 0,
      link_ok = True, script = sc, sent = []\<rparr>"

definition kProtocolVersion :: u32 where "kProtocolVersion = 2"
definition kSelectionProtocolVersion :: u32 where "kSelectionProtocolVersion = 3"
definition kListFilesPageLimit :: u32 where "kListFilesPageLimit = 500"
definition kOpenSelectionFeature :: string where "kOpenSelectionFeature = ''open-selection/v3''"
definition kOpenSelectionUnsupportedError :: string where
  "kOpenSelectionUnsupportedError =
     ''this server did not negotiate \"open-selection/v3\"; a frozen selection cannot be opened '' @
     ''here, and this client will not fall back to sending object keys''"
definition kRequestTimeout :: nat where "kRequestTimeout = 10000"
definition kOpenSessionTimeout :: nat where "kOpenSessionTimeout = 120000"

section \<open>Errors and addresses\<close>

definition buildWsUrl :: "string \<Rightarrow> string" where
  "buildWsUrl uri = rev (dropWhile (\<lambda>c. c = CHR ''/'') (rev uri)) @ ''/api/ws''"

definition isWssScheme :: "string \<Rightarrow> bool" where
  "isWssScheme uri \<longleftrightarrow> starts_with ''wss://'' uri"

fun errorCodeName :: "ErrorCode \<Rightarrow> string" where
  "errorCodeName ERROR_AUTH_FAILED = ''authentication failed''"
| "errorCodeName ERROR_PROTOCOL_VERSION = ''protocol version mismatch''"
| "errorCodeName ERROR_NOT_FOUND = ''not found''"
| "errorCodeName ERROR_INVALID_REQUEST = ''invalid request''"
| "errorCodeName ERROR_RESOURCE_LIMIT = ''resource limit''"
| "errorCodeName ERROR_S3_UNAVAILABLE = ''storage unavailable''"
| "errorCodeName ERROR_INTERNAL = ''internal server error''"
| "errorCodeName ERROR_RESUME_NOT_POSSIBLE = ''resume not possible''"
| "errorCodeName ERROR_STALE_CATALOG = ''catalog changed during the request; refresh and retry''"
| "errorCodeName _ = ''server error''"

definition formatWireError :: "WireError \<Rightarrow> string" where
  "formatWireError e = (if err_message e \<noteq> [] then err_message e else errorCodeName (err_code e))"

definition classifyHelloError :: "WireError \<Rightarrow> HelloErrorCode" where
  "classifyHelloError e = (if err_code e = ERROR_AUTH_FAILED then HelloAuthFailed else HelloOther)"

section \<open>Certificates\<close>

definition isCertReadable :: "Lib \<Rightarrow> string \<Rightarrow> bool" where
  "isCertReadable L path \<longleftrightarrow> path \<noteq> [] \<and> cert_readable L path"

definition firstReadableCaBundle :: "Lib \<Rightarrow> string list \<Rightarrow> string" where
  "firstReadableCaBundle L paths = (case find (isCertReadable L) paths of Some p \<Rightarrow> p | None \<Rightarrow> [])"

definition systemCaBundleCandidates :: "string list" where
  "systemCaBundleCandidates =
     [''/etc/ssl/certs/ca-certificates.crt'', ''/etc/pki/tls/certs/ca-bundle.crt'',
      ''/etc/ssl/ca-bundle.pem'', ''/etc/ca-certificates/extracted/tls-ca-bundle.pem'',
      ''/etc/ssl/cert.pem'']"

definition resolveSystemCaBundle :: "Lib \<Rightarrow> string \<Rightarrow> string list \<Rightarrow> string" where
  "resolveSystemCaBundle L env paths =
     (if isCertReadable L env then env else firstReadableCaBundle L paths)"

definition detectSystemCaBundle :: "Lib \<Rightarrow> string" where
  "detectSystemCaBundle L =
     resolveSystemCaBundle L (case ssl_cert_file L of Some p \<Rightarrow> p | None \<Rightarrow> []) systemCaBundleCandidates"

definition chooseTlsCaFile :: "string \<Rightarrow> bool \<Rightarrow> string \<Rightarrow> TlsCaChoice" where
  "chooseTlsCaFile cert_path allow_insecure system_ca =
     \<lparr>ca_file =
        (if allow_insecure then ''NONE''
         else if cert_path \<noteq> [] then cert_path
         else if system_ca \<noteq> [] then system_ca
         else ''SYSTEM''),
      disable_hostname_validation = False\<rparr>"

section \<open>The receive thread\<close>

text \<open>A frame is decoded, and unwrapped when it is a compressed envelope, before it is routed.\<close>

definition unwrap_frame :: "Lib \<Rightarrow> string \<Rightarrow> ServerMessage option" where
  "unwrap_frame L bytes =
     do {
       m \<leftarrow> parse_server L bytes;
       case sm_payload m of
         SmEncoded e \<Rightarrow>
           if \<not> enc_zstd e then None
           else do {
             raw \<leftarrow> decodeEncodedEnvelope (codecs L) (enc_body e) (enc_size e);
             inner \<leftarrow> parse_server L raw;
             (case sm_payload inner of SmEncoded _ \<Rightarrow> None | _ \<Rightarrow> Some inner)
           }
       | _ \<Rightarrow> Some m
     }"

fun is_session_frame :: "ServerPayload \<Rightarrow> bool" where
  "is_session_frame (SmBatch _) = True"
| "is_session_frame SmProgress = True"
| "is_session_frame (SmEos _) = True"
| "is_session_frame (SmError _) = True"
| "is_session_frame _ = False"

definition onBinaryFrame :: "Lib \<Rightarrow> string \<Rightarrow> Conn \<Rightarrow> Conn" where
  "onBinaryFrame L bytes c =
     (case unwrap_frame L bytes of
        None \<Rightarrow> c
      | Some m \<Rightarrow>
          if sm_request_id m \<noteq> 0 then
            (case pending c (sm_request_id m) of
               None \<Rightarrow> c
             | Some _ \<Rightarrow> c\<lparr>pending := (pending c)(sm_request_id m \<mapsto> Some m)\<rparr>)
          else if session_active c \<and> is_session_frame (sm_payload m) then
            (if session_subscription_id c \<noteq> 0 \<and> sm_subscription_id m \<noteq> session_subscription_id c then c
             else c\<lparr>session_wire_bytes := session_wire_bytes c + of_nat (length bytes),
                    session_inbox := session_inbox c @ [m]\<rparr>)
          else c)"

definition cancelSession :: "Conn \<Rightarrow> Conn" where
  "cancelSession c = c\<lparr>cancel_requested := True\<rparr>"

text \<open>The message callback; without a socket nothing arrives.\<close>

fun apply_event :: "Lib \<Rightarrow> net_event \<Rightarrow> Conn \<Rightarrow> Conn" where
  "apply_event L (EvFrame b) c = (if has_socket c then onBinaryFrame L b c else c)"
| "apply_event L (EvText b) c = c"
| "apply_event L EvOpen c = (if has_socket c then c\<lparr>socket_open := True\<rparr> else c)"
| "apply_event L EvClose c = (if has_socket c then c\<lparr>socket_closed := True\<rparr> else c)"
| "apply_event L (EvError r) c =
     (if has_socket c then c\<lparr>socket_closed := True, socket_error := r\<rparr> else c)"
| "apply_event L EvCancel c = cancelSession c"
| "apply_event L EvAbort c = c\<lparr>abort_requested := True\<rparr>"
| "apply_event L (EvTick n) c = c\<lparr>now := now c + n\<rparr>"
| "apply_event L (EvLink b) c = c\<lparr>link_ok := b\<rparr>"

definition apply_events :: "Lib \<Rightarrow> net_event list \<Rightarrow> Conn \<Rightarrow> Conn" where
  "apply_events L es c = fold (apply_event L) es c"

section \<open>Synchronisation\<close>

fun sync_script :: "Lib \<Rightarrow> net_event list list \<Rightarrow> Conn \<Rightarrow> Conn option" where
  "sync_script L [] c = None"
| "sync_script L (es # sc) c = Some (apply_events L es (c\<lparr>script := sc\<rparr>))"

definition sync :: "Lib \<Rightarrow> Conn \<Rightarrow> Conn option" where
  "sync L c = sync_script L (script c) c"

fun wait_until :: "Lib \<Rightarrow> (Conn \<Rightarrow> bool) \<Rightarrow> nat \<Rightarrow> net_event list list \<Rightarrow> Conn \<Rightarrow> (bool \<times> Conn) option" where
  "wait_until L p t sc c =
     (if p c then Some (True, c)
      else if t \<le> now c then Some (False, c)
      else case sc of
          [] \<Rightarrow> None
        | es # sc' \<Rightarrow> wait_until L p t sc' (apply_events L es (c\<lparr>script := sc'\<rparr>)))"

text \<open>\<open>cv_.wait_for\<close> under the lock.\<close>

definition wait_for :: "Lib \<Rightarrow> nat \<Rightarrow> (Conn \<Rightarrow> bool) \<Rightarrow> Conn \<Rightarrow> (bool \<times> Conn) option" where
  "wait_for L t p c = do { c \<leftarrow> sync L c; wait_until L p (now c + t) (script c) c }"

definition deadline_expired :: "Conn \<Rightarrow> bool" where
  "deadline_expired c = (case session_deadline c of Some d \<Rightarrow> d \<le> now c | None \<Rightarrow> False)"

definition sessionDeadlineExpired :: "Lib \<Rightarrow> Conn \<Rightarrow> (bool \<times> Conn) option" where
  "sessionDeadlineExpired L c = do { c \<leftarrow> sync L c; Some (deadline_expired c, c) }"

definition cappedToDeadline :: "Conn \<Rightarrow> nat \<Rightarrow> nat" where
  "cappedToDeadline c t =
     (case session_deadline c of
        None \<Rightarrow> t
      | Some d \<Rightarrow> if d \<le> now c then 0 else if d - now c < t then d - now c else t)"

definition read_cancel :: "Lib \<Rightarrow> Conn \<Rightarrow> (bool \<times> Conn) option" where
  "read_cancel L c = do { c \<leftarrow> sync L c; Some (cancel_requested c, c) }"

section \<open>Requests\<close>

definition nextRequestId :: "Conn \<Rightarrow> u64 \<times> Conn" where
  "nextRequestId c = (next_request_id c, c\<lparr>next_request_id := next_request_id c + 1\<rparr>)"

definition reply_ready :: "u64 \<Rightarrow> bool \<Rightarrow> Conn \<Rightarrow> bool" where
  "reply_ready i wake c \<longleftrightarrow> socket_closed c \<or> (wake \<and> cancel_requested c) \<or>
     (case pending c i of Some (Some m) \<Rightarrow> True | _ \<Rightarrow> False)"

definition take_reply :: "u64 \<Rightarrow> bool \<Rightarrow> Conn \<Rightarrow> ServerMessage option \<times> Conn" where
  "take_reply i got c =
     ((if got then case pending c i of Some r \<Rightarrow> r | None \<Rightarrow> None else None), c\<lparr>pending := (pending c)(i := None)\<rparr>)"

definition exchange :: "Lib \<Rightarrow> ClientMessage \<Rightarrow> nat \<Rightarrow> bool \<Rightarrow> Conn \<Rightarrow> (ServerMessage option \<times> Conn) option" where
  "exchange L msg timeout wake c =
     do {
       c \<leftarrow> sync L (c\<lparr>pending := (pending c)(cm_request_id msg \<mapsto> None)\<rparr>);
       if \<not> link_ok c then Some (None, c\<lparr>pending := (pending c)(cm_request_id msg := None)\<rparr>)
       else do {
         c \<leftarrow> sync L (c\<lparr>sent := sent c @ [msg]\<rparr>);
         (got, c) \<leftarrow> wait_for L (cappedToDeadline c timeout) (reply_ready (cm_request_id msg) wake) c;
         Some (take_reply (cm_request_id msg) got c)
       }
     }"

definition sendAndWait :: "Lib \<Rightarrow> ClientPayload \<Rightarrow> nat \<Rightarrow> bool \<Rightarrow> Conn \<Rightarrow> (ServerMessage option \<times> Conn) option" where
  "sendAndWait L req timeout wake c =
     (if \<not> has_socket c then Some (None, c)
      else let (i, c) = nextRequestId c; msg = \<lparr>cm_request_id = i, cm_payload = req\<rparr> in
      (case serialize_client L msg of
         None \<Rightarrow> Some (None, c)
       | Some payload \<Rightarrow> do {
           c \<leftarrow> sync L c;
           if socket_closed c then Some (None, c) else exchange L msg timeout wake c
         }))"

definition sendFrame :: "Lib \<Rightarrow> ClientPayload \<Rightarrow> Conn \<Rightarrow> (bool \<times> Conn) option" where
  "sendFrame L req c =
     (if \<not> has_socket c then Some (False, c)
      else let msg = \<lparr>cm_request_id = 0, cm_payload = req\<rparr> in
      (case serialize_client L msg of
         None \<Rightarrow> Some (False, c)
       | Some payload \<Rightarrow> do {
           c \<leftarrow> sync L c;
           if socket_closed c then Some (False, c)
           else do {
             c \<leftarrow> sync L c;
             if \<not> link_ok c then Some (False, c) else Some (True, c\<lparr>sent := sent c @ [msg]\<rparr>)
           }
         }))"

section \<open>Handshake\<close>

definition fillHello :: "Conn \<Rightarrow> ClientPayload" where
  "fillHello c =
     CmHello (if request_open_selection c then kSelectionProtocolVersion else kProtocolVersion)
       (if request_open_selection c then [kOpenSelectionFeature] else []) (conn_api_key c) True"

text \<open>\<open>socket_->stop(); socket_.reset();\<close>\<close>

definition drop_socket :: "Conn \<Rightarrow> Conn" where
  "drop_socket c = c\<lparr>has_socket := False\<rparr>"

definition buildAndOpenSocket :: "Lib \<Rightarrow> Conn \<Rightarrow> ((string + unit) \<times> Conn) option" where
  "buildAndOpenSocket L c =
     do {
       let c = c\<lparr>has_socket := True,
         socket_tls := (if isWssScheme (conn_uri c)
           then Some (chooseTlsCaFile (conn_cert_path c) (conn_allow_insecure c) (detectSystemCaBundle L)) else None),
         socket_open := False, socket_closed := False, socket_error := [],
         pending := Map.empty, session_inbox := []\<rparr>;
       c \<leftarrow> sync L c;
       (signalled, c) \<leftarrow> wait_for L (cappedToDeadline c kRequestTimeout)
         (\<lambda>c. socket_open c \<or> socket_closed c \<or> cancel_requested c) c;
       if cancel_requested c \<and> \<not> socket_open c then Some (Inl ''cancelled'', drop_socket c)
       else if \<not> signalled then
         Some (Inl (''timed out connecting to '' @ buildWsUrl (conn_uri c)), drop_socket c)
       else if \<not> socket_open c then
         Some (Inl (''could not open WebSocket to '' @ buildWsUrl (conn_uri c) @
           (if socket_error c = [] then [] else '': '' @ socket_error c)), drop_socket c)
       else Some (Inr (), c)
     }"

definition parseNegotiatedFeatures :: "HelloResponse \<Rightarrow> Conn \<Rightarrow> Conn" where
  "parseNegotiatedFeatures r c = c\<lparr>negotiated_features := hr_features r\<rparr>"

definition hasNegotiatedFeature :: "string \<Rightarrow> Conn \<Rightarrow> bool" where
  "hasNegotiatedFeature f c \<longleftrightarrow> f \<in> set (negotiated_features c)"

definition accept_hello :: "HelloResponse \<Rightarrow> Conn \<Rightarrow> Conn" where
  "accept_hello r c =
     (parseNegotiatedFeatures r (c\<lparr>server_version := Some (hr_version r)\<rparr>))
       \<lparr>backend_caps := map_option (\<lambda>(h, ks). \<lparr>supports_file_hierarchy = h, metadata_key_vocabulary = ks\<rparr>) (hr_backend r),
        server_caps := map_option (\<lambda>(rs, te). \<lparr>resume_supported = rs, tag_edit_supported = te\<rparr>) (hr_capabilities r)\<rparr>"

definition connect :: "Lib \<Rightarrow> Conn \<Rightarrow> ((string + unit) \<times> Conn) option" where
  "connect L c =
     do {
       (opened, c) \<leftarrow> buildAndOpenSocket L (c\<lparr>last_hello_error := HelloNone\<rparr>);
       case opened of
         Inl e \<Rightarrow> Some (Inl e, c)
       | Inr _ \<Rightarrow> do {
           (reply, c) \<leftarrow> sendAndWait L (fillHello c) kRequestTimeout True c;
           case reply of
             None \<Rightarrow> do {
               (cancelled, c) \<leftarrow> read_cancel L (drop_socket c);
               Some (Inl (if cancelled then ''cancelled''
                 else ''no response to handshake from '' @ buildWsUrl (conn_uri c)), c)
             }
           | Some m \<Rightarrow>
               (case sm_payload m of
                  SmError e \<Rightarrow>
                    Some (Inl (formatWireError e), drop_socket (c\<lparr>last_hello_error := classifyHelloError e\<rparr>))
                | SmHello r \<Rightarrow> Some (Inr (), accept_hello r c)
                | _ \<Rightarrow> Some (Inl ''unexpected handshake reply from server'', drop_socket c))
         }
     }"

definition reconnectAndHello :: "Lib \<Rightarrow> Conn \<Rightarrow> ((string + unit) \<times> Conn) option" where
  "reconnectAndHello L c =
     do {
       (opened, c) \<leftarrow> buildAndOpenSocket L ((drop_socket c)\<lparr>last_hello_error := HelloNone\<rparr>);
       case opened of
         Inl e \<Rightarrow> Some (Inl e, c)
       | Inr _ \<Rightarrow> do {
           (reply, c) \<leftarrow> sendAndWait L (fillHello c) kRequestTimeout False c;
           case reply of
             None \<Rightarrow> Some (Inl ''no response to handshake on reconnect'', c)
           | Some m \<Rightarrow>
               (case sm_payload m of
                  SmError e \<Rightarrow> Some (Inl (formatWireError e), c\<lparr>last_hello_error := classifyHelloError e\<rparr>)
                | SmHello r \<Rightarrow> Some (Inr (), parseNegotiatedFeatures r c)
                | _ \<Rightarrow> Some (Inl ''unexpected handshake reply on reconnect'', c))
         }
     }"

declare wait_until.simps [simp del]

section \<open>What the other threads can do\<close>

definition frames :: "net_event list list \<Rightarrow> string set" where
  "frames sc = {b. EvFrame b \<in> \<Union> (set ` set sc)}"

lemma frames_simps [simp]:
  "frames [] = {}" "frames (es # sc) = {b. EvFrame b \<in> set es} \<union> frames sc"
  by (auto simp: frames_def)

inductive env :: "Lib \<Rightarrow> string set \<Rightarrow> Conn \<Rightarrow> Conn \<Rightarrow> bool" for L S where
  env_refl [simp, intro]: "env L S c c"
| env_event: "env L S c c' \<Longrightarrow> (\<And>b. e = EvFrame b \<Longrightarrow> b \<in> S) \<Longrightarrow> env L S c (apply_event L e c')"
| env_script: "env L S c c' \<Longrightarrow> env L S c (c'\<lparr>script := sc\<rparr>)"

lemma env_trans:
  assumes "env L S a b" and "env L S b c"
  shows "env L S a c"
  using assms(2,1) by (induction rule: env.induct) (auto intro: env.intros)

lemma env_mono: "env L S a b \<Longrightarrow> S \<subseteq> T \<Longrightarrow> env L T a b"
  by (induction rule: env.induct) (auto intro: env.intros)

lemma env_events: "env L S a b \<Longrightarrow> {f. EvFrame f \<in> set es} \<subseteq> S \<Longrightarrow> env L S a (apply_events L es b)"
  unfolding apply_events_def
proof (induction es arbitrary: b)
  case (Cons e es)
  have "env L S a (apply_event L e b)" using Cons.prems by (intro env_event) auto
  moreover have "{f. EvFrame f \<in> set es} \<subseteq> S" using Cons.prems(2) by auto
  ultimately show ?case using Cons.IH by simp
qed simp

text \<open>The fields only the driving thread writes.\<close>

definition worker where
  "worker c = (conn_uri c, conn_cert_path c, conn_api_key c, conn_allow_insecure c, has_socket c,
     server_version c, last_hello_error c, backend_caps c, server_caps c, request_open_selection c,
     negotiated_features c, session_from_selection c, next_request_id c, file_id_by_name c,
     catalog_generation c, session_active c, session_subscription_id c, session_deadline c,
     test_drop_after c, sent c)"

lemma worker_simps [simp]: "worker (c\<lparr>pending := p\<rparr>) = worker c" "worker (c\<lparr>session_inbox := m\<rparr>) = worker c"
  "worker (c\<lparr>script := sc\<rparr>) = worker c" "worker (c\<lparr>session_wire_bytes := n\<rparr>) = worker c"
  by (simp_all add: worker_def)

lemma apply_event_worker [simp]: "worker (apply_event L e c) = worker c"
  by (cases e) (auto simp: worker_def onBinaryFrame_def cancelSession_def split: option.split)

lemma env_worker: "env L S c c' \<Longrightarrow> worker c' = worker c"
  by (induction rule: env.induct) auto

lemma worker_fields:
  assumes "worker c' = worker c"
  shows "has_socket c' = has_socket c" "sent c' = sent c" "next_request_id c' = next_request_id c"
    "session_active c' = session_active c" "session_subscription_id c' = session_subscription_id c"
    "session_deadline c' = session_deadline c" "negotiated_features c' = negotiated_features c"
    "file_id_by_name c' = file_id_by_name c" "catalog_generation c' = catalog_generation c"
    "session_from_selection c' = session_from_selection c" "conn_uri c' = conn_uri c"
    "server_version c' = server_version c" "backend_caps c' = backend_caps c" "server_caps c' = server_caps c"
    "last_hello_error c' = last_hello_error c" "test_drop_after c' = test_drop_after c"
    "request_open_selection c' = request_open_selection c" "conn_api_key c' = conn_api_key c"
  using assms by (simp_all add: worker_def)

lemma apply_event_mono:
  "cancel_requested c \<Longrightarrow> cancel_requested (apply_event L e c)" "now c \<le> now (apply_event L e c)"
  by (cases e; simp add: onBinaryFrame_def cancelSession_def split: option.split)+

lemma env_cancel: "env L S c c' \<Longrightarrow> cancel_requested c \<Longrightarrow> cancel_requested c'"
  by (induction rule: env.induct) (auto simp: apply_event_mono)

lemma env_now: "env L S c c' \<Longrightarrow> now c \<le> now c'"
  by (induction rule: env.induct) (auto intro: order_trans [OF _ apply_event_mono(2)])

text \<open>What can be in the inbox and in the reply slots.\<close>

definition session_frame :: "Lib \<Rightarrow> string set \<Rightarrow> u64 \<Rightarrow> ServerMessage \<Rightarrow> bool" where
  "session_frame L S sub m \<longleftrightarrow> (\<exists>b \<in> S. unwrap_frame L b = Some m) \<and> sm_request_id m = 0 \<and>
     is_session_frame (sm_payload m) \<and> (sub \<noteq> 0 \<longrightarrow> sm_subscription_id m = sub)"

definition inbox_ok :: "Lib \<Rightarrow> string set \<Rightarrow> Conn \<Rightarrow> bool" where
  "inbox_ok L S c \<longleftrightarrow> (\<forall>m \<in> set (session_inbox c). session_frame L S (session_subscription_id c) m)"

definition replies_ok :: "Lib \<Rightarrow> string set \<Rightarrow> Conn \<Rightarrow> bool" where
  "replies_ok L S c \<longleftrightarrow>
     (\<forall>i m. pending c i = Some (Some m) \<longrightarrow> sm_request_id m = i \<and> (\<exists>b \<in> S. unwrap_frame L b = Some m))"

lemma apply_event_inbox_ok:
  "inbox_ok L S c \<Longrightarrow> (\<And>b. e = EvFrame b \<Longrightarrow> b \<in> S) \<Longrightarrow> inbox_ok L S (apply_event L e c)"
  by (cases e) (auto simp: inbox_ok_def onBinaryFrame_def cancelSession_def session_frame_def split: option.split)

lemma env_inbox_ok: "env L S c c' \<Longrightarrow> inbox_ok L S c \<Longrightarrow> inbox_ok L S c'"
proof (induction rule: env.induct)
  case (env_event c c' e)
  then show ?case by (intro apply_event_inbox_ok) auto
qed (simp_all add: inbox_ok_def)

lemma replies_ok_script [simp]: "replies_ok L S (c\<lparr>script := sc\<rparr>) \<longleftrightarrow> replies_ok L S c"
  unfolding replies_ok_def by simp

lemma apply_event_replies_ok:
  "replies_ok L S c \<Longrightarrow> (\<And>b. e = EvFrame b \<Longrightarrow> b \<in> S) \<Longrightarrow> replies_ok L S (apply_event L e c)"
  by (cases e) (auto simp: replies_ok_def onBinaryFrame_def cancelSession_def split: option.split)

lemma env_replies_ok: "env L S c c' \<Longrightarrow> replies_ok L S c \<Longrightarrow> replies_ok L S c'"
proof (induction rule: env.induct)
  case (env_event c c' e)
  then show ?case by (intro apply_event_replies_ok) auto
qed simp_all

lemma apply_event_dom: "dom (pending (apply_event L e c)) = dom (pending c)"
  by (cases e) (auto simp: onBinaryFrame_def cancelSession_def split: option.split)

lemma env_dom: "env L S c c' \<Longrightarrow> dom (pending c') = dom (pending c)"
  by (induction rule: env.induct) (auto simp: apply_event_dom)

section \<open>Synchronisation uses up the script\<close>

lemma script_apply_event [simp]: "script (apply_event L e c) = script c"
  by (cases e) (auto simp: onBinaryFrame_def cancelSession_def split: option.split)

lemma script_apply_events [simp]: "script (apply_events L es c) = script c"
  unfolding apply_events_def by (induction es arbitrary: c) auto

text \<open>A call that leaves the state to the other threads and uses up some of the script.\<close>

definition waits :: "Lib \<Rightarrow> nat \<Rightarrow> Conn \<Rightarrow> Conn \<Rightarrow> bool" where
  "waits L n c c' \<longleftrightarrow> env L (frames (script c)) c c' \<and> frames (script c') \<subseteq> frames (script c) \<and>
     length (script c') + n \<le> length (script c)"

lemma waits_refl [simp]: "waits L 0 c c"
  by (simp add: waits_def)

lemma waits_trans: "waits L m a b \<Longrightarrow> waits L n b c \<Longrightarrow> waits L (m + n) a c"
  unfolding waits_def by (auto intro: env_trans env_mono)

lemma waits_weaken: "waits L m a b \<Longrightarrow> n \<le> m \<Longrightarrow> waits L n a b"
  by (auto simp: waits_def)

lemma sync_waits: "sync L c = Some c' \<Longrightarrow> waits L 1 c c'"
  by (cases "script c")
    (auto simp: sync_def waits_def intro!: env_events env_script)

lemma wait_until_waits:
  "wait_until L p t sc c = Some (g, c') \<Longrightarrow> script c = sc \<Longrightarrow>
     waits L 0 c c' \<and> g = p c' \<and> (\<not> g \<longrightarrow> t \<le> now c')"
proof (induction L p t sc c rule: wait_until.induct)
  case (1 L p t sc c)
  show ?case
  proof (cases "p c \<or> t \<le> now c")
    case True
    with 1(2) show ?thesis by (subst (asm) wait_until.simps) (auto split: if_splits)
  next
    case False
    with 1(2) obtain es sc' where sc: "sc = es # sc'"
        "wait_until L p t sc' (apply_events L es (c\<lparr>script := sc'\<rparr>)) = Some (g, c')"
      by (subst (asm) wait_until.simps) (auto split: list.splits)
    with False 1(1) [of es sc'] have *: "waits L 0 (apply_events L es (c\<lparr>script := sc'\<rparr>)) c'"
      and r: "g = p c' \<and> (\<not> g \<longrightarrow> t \<le> now c')" by auto
    have "waits L 1 c (apply_events L es (c\<lparr>script := sc'\<rparr>))"
      using sc(1) 1(3) by (auto simp: waits_def intro!: env_events env_script)
    from waits_trans [OF this *] r show ?thesis by (auto intro: waits_weaken)
  qed
qed

lemma wait_for_waits:
  assumes "wait_for L t p c = Some (g, c')"
  shows "waits L 1 c c' \<and> g = p c'"
proof -
  obtain c1 where c1: "sync L c = Some c1" "wait_until L p (now c1 + t) (script c1) c1 = Some (g, c')"
    using assms by (auto simp: wait_for_def bind_eq_Some_conv)
  from waits_trans [OF sync_waits [OF c1(1)]] wait_until_waits [OF c1(2) refl] show ?thesis
    by (auto intro: waits_weaken)
qed

section \<open>Requests and their replies\<close>

text \<open>
  What every operation of the connection keeps, for frames from \<open>S\<close>: the script is only used up,
  the clock and the cancel flag never go back, sent frames are only added, and the reply slots
  and the inbox stay consistent.
\<close>

definition evolves :: "Lib \<Rightarrow> string set \<Rightarrow> Conn \<Rightarrow> Conn \<Rightarrow> bool" where
  "evolves L S c c' \<longleftrightarrow>
     (frames (script c) \<subseteq> S \<longrightarrow> frames (script c') \<subseteq> S \<and>
        (replies_ok L S c \<longrightarrow> replies_ok L S c') \<and> (inbox_ok L S c \<longrightarrow> inbox_ok L S c')) \<and>
     length (script c') \<le> length (script c) \<and> now c \<le> now c' \<and>
     (cancel_requested c \<longrightarrow> cancel_requested c') \<and> (\<exists>ms. sent c' = sent c @ ms)"

lemma evolves_refl [simp]: "evolves L S c c"
  by (simp add: evolves_def)

lemma evolves_trans: "evolves L S a b \<Longrightarrow> evolves L S b c \<Longrightarrow> evolves L S a c"
  unfolding evolves_def by auto

lemma waits_evolves:
  assumes "waits L n c c'"
  shows "evolves L S c c'"
proof -
  have e: "env L (frames (script c)) c c'" using assms by (simp add: waits_def)
  have "replies_ok L S c'" if "frames (script c) \<subseteq> S" "replies_ok L S c"
    using env_replies_ok [OF env_mono [OF e that(1)] that(2)] .
  moreover have "inbox_ok L S c'" if "frames (script c) \<subseteq> S" "inbox_ok L S c"
    using env_inbox_ok [OF env_mono [OF e that(1)] that(2)] .
  ultimately show ?thesis
    using assms env_now [OF e] env_cancel [OF e] worker_fields(2) [OF env_worker [OF e]]
    by (auto simp: evolves_def waits_def)
qed

lemmas sync_evolves = waits_evolves [OF sync_waits]
lemmas wait_for_evolves = waits_evolves [OF wait_for_waits [THEN conjunct1]]

lemma waits_worker: "waits L n c c' \<Longrightarrow> worker c' = worker c"
  by (auto simp: waits_def dest: env_worker)

lemmas sync_worker = waits_worker [OF sync_waits]
lemmas wait_for_worker = waits_worker [OF wait_for_waits [THEN conjunct1]]

lemma replies_ok_slot [simp]:
  "replies_ok L S c \<Longrightarrow> replies_ok L S (c\<lparr>pending := (pending c)(i := None)\<rparr>)"
  "replies_ok L S c \<Longrightarrow> replies_ok L S (c\<lparr>pending := (pending c)(i \<mapsto> None)\<rparr>)"
  unfolding replies_ok_def by auto

lemma replies_ok_other [simp]:
  "replies_ok L S (c\<lparr>sent := ms\<rparr>) = replies_ok L S c"
  "replies_ok L S (c\<lparr>next_request_id := i\<rparr>) = replies_ok L S c"
  "replies_ok L S (c\<lparr>has_socket := b\<rparr>) = replies_ok L S c"
  "replies_ok L S (c\<lparr>last_hello_error := h\<rparr>) = replies_ok L S c"
  unfolding replies_ok_def by simp_all

lemma inbox_ok_other [simp]:
  "inbox_ok L S (c\<lparr>sent := ms\<rparr>) = inbox_ok L S c" "inbox_ok L S (c\<lparr>next_request_id := i\<rparr>) = inbox_ok L S c"
  "inbox_ok L S (c\<lparr>has_socket := b\<rparr>) = inbox_ok L S c" "inbox_ok L S (c\<lparr>last_hello_error := h\<rparr>) = inbox_ok L S c"
  "inbox_ok L S (c\<lparr>pending := p\<rparr>) = inbox_ok L S c" "inbox_ok L S (c\<lparr>session_inbox := []\<rparr>)"
  unfolding inbox_ok_def by simp_all

lemma evolves_slot [simp]:
  "evolves L S c (c\<lparr>pending := (pending c)(i := None)\<rparr>)"
  "evolves L S c (c\<lparr>pending := (pending c)(i \<mapsto> None)\<rparr>)"
  "evolves L S c (c\<lparr>next_request_id := j\<rparr>)"
  "evolves L S c (c\<lparr>sent := sent c @ ms\<rparr>)"
  "evolves L S c (c\<lparr>has_socket := b\<rparr>)"
  "evolves L S c (c\<lparr>last_hello_error := h\<rparr>)"
  by (simp_all add: evolves_def)

text \<open>How a request ends: without reply, or with a reply that carries its id.\<close>

definition rpc_done :: "Lib \<Rightarrow> string set \<Rightarrow> ClientPayload \<Rightarrow> Conn \<Rightarrow> ServerMessage option \<Rightarrow> Conn \<Rightarrow> bool" where
  "rpc_done L S req c r c' \<longleftrightarrow>
     evolves L S c c' \<and>
     (\<exists>i ms. worker c' = worker (c\<lparr>next_request_id := i, sent := sent c @ ms\<rparr>) \<and>
        (ms = [] \<or> ms = [\<lparr>cm_request_id = next_request_id c, cm_payload = req\<rparr>]) \<and>
        (r \<noteq> None \<longrightarrow> ms \<noteq> [] \<and> i = next_request_id c + 1 \<and> has_socket c)) \<and>
     (\<forall>m. r = Some m \<longrightarrow> frames (script c) \<subseteq> S \<longrightarrow> replies_ok L S c \<longrightarrow>
        sm_request_id m = next_request_id c \<and> (\<exists>b \<in> S. unwrap_frame L b = Some m))"

lemma exchange_done:
  assumes "exchange L msg t w c = Some (r, c')"
  shows "evolves L S c c' \<and>
     (\<exists>ms. worker c' = worker (c\<lparr>sent := sent c @ ms\<rparr>) \<and> (ms = [] \<or> ms = [msg]) \<and> (r \<noteq> None \<longrightarrow> ms \<noteq> [])) \<and>
     (\<forall>m. r = Some m \<longrightarrow> frames (script c) \<subseteq> S \<longrightarrow> replies_ok L S c \<longrightarrow>
        sm_request_id m = cm_request_id msg \<and> (\<exists>b \<in> S. unwrap_frame L b = Some m))"
proof -
  let ?i = "cm_request_id msg"
  obtain c1 where c1: "sync L (c\<lparr>pending := (pending c)(?i \<mapsto> None)\<rparr>) = Some c1"
    using assms by (auto simp: exchange_def bind_eq_Some_conv)
  have e1: "evolves L S c c1" by (rule evolves_trans [OF evolves_slot(2) sync_evolves [OF c1]])
  have w1: "worker c1 = worker c" using sync_worker [OF c1] by simp
  show ?thesis
  proof (cases "link_ok c1")
    case False
    with assms c1 have r: "r = None" "c' = c1\<lparr>pending := (pending c1)(?i := None)\<rparr>"
      by (simp_all add: exchange_def)
    then have "evolves L S c c'" using evolves_trans [OF e1 evolves_slot(1)] by simp
    with r w1 show ?thesis by (auto intro!: exI [of _ "[]"])
  next
    case True
    then obtain c2 g c3 where c2: "sync L (c1\<lparr>sent := sent c1 @ [msg]\<rparr>) = Some c2"
        "wait_for L (cappedToDeadline c2 t) (reply_ready ?i w) c2 = Some (g, c3)" "(r, c') = take_reply ?i g c3"
      using assms c1 by (auto simp: exchange_def bind_eq_Some_conv)
    have e3: "evolves L S c c3"
      by (rule evolves_trans [OF evolves_trans [OF e1 evolves_slot(4)]
            evolves_trans [OF sync_evolves [OF c2(1)] wait_for_evolves [OF c2(2)]]])
    have "worker c3 = worker (c\<lparr>sent := sent c @ [msg]\<rparr>)"
      using wait_for_worker [OF c2(2)] sync_worker [OF c2(1)] w1 by (simp add: worker_def)
    moreover have "evolves L S c c'"
      using c2(3) evolves_trans [OF e3 evolves_slot(1)] by (simp add: take_reply_def)
    moreover have "sm_request_id m = ?i \<and> (\<exists>b \<in> S. unwrap_frame L b = Some m)"
      if "r = Some m" "frames (script c) \<subseteq> S" "replies_ok L S c" for m
    proof -
      have "pending c3 ?i = Some (Some m)"
        using c2(3) that(1) by (auto simp: take_reply_def split: if_splits option.splits)
      with e3 that(2,3) show ?thesis unfolding evolves_def replies_ok_def by blast
    qed
    ultimately show ?thesis using c2(3) by (auto simp: take_reply_def intro!: exI [of _ "[msg]"])
  qed
qed

lemma sendAndWait_done:
  assumes "sendAndWait L req t w c = Some (r, c')"
  shows "rpc_done L S req c r c'"
proof (cases "has_socket c")
  case False
  with assms show ?thesis
    by (auto simp: sendAndWait_def rpc_done_def worker_def intro!: exI [of _ "next_request_id c"] exI [of _ "[]"])
next
  case True
  let ?c0 = "c\<lparr>next_request_id := next_request_id c + 1\<rparr>" and ?msg = "\<lparr>cm_request_id = next_request_id c, cm_payload = req\<rparr>"
  show ?thesis
  proof (cases "serialize_client L ?msg")
    case None
    with assms True have "r = None" "c' = ?c0" by (simp_all add: sendAndWait_def nextRequestId_def)
    then show ?thesis
      by (auto simp: rpc_done_def worker_def intro!: exI [of _ "next_request_id c + 1"] exI [of _ "[]"])
  next
    case (Some payload)
    with assms True obtain c1 where c1: "sync L ?c0 = Some c1"
        "(if socket_closed c1 then Some (None, c1) else exchange L ?msg t w c1) = Some (r, c')"
      by (auto simp: sendAndWait_def nextRequestId_def bind_eq_Some_conv)
    have e1: "evolves L S c c1" by (rule evolves_trans [OF evolves_slot(3) sync_evolves [OF c1(1)]])
    have w1: "worker c1 = worker ?c0" by (rule sync_worker [OF c1(1)])
    show ?thesis
    proof (cases "socket_closed c1")
      case True
      with c1 e1 w1 show ?thesis
        by (auto simp: rpc_done_def worker_def intro!: exI [of _ "next_request_id c + 1"] exI [of _ "[]"])
    next
      case False
      with c1(2) have x: "exchange L ?msg t w c1 = Some (r, c')" by simp
      note d = exchange_done [OF x, of S]
      from d obtain ms where ms: "worker c' = worker (c1\<lparr>sent := sent c1 @ ms\<rparr>)" "ms = [] \<or> ms = [?msg]"
          "r \<noteq> None \<longrightarrow> ms \<noteq> []" by blast
      have "worker c' = worker (c\<lparr>next_request_id := next_request_id c + 1, sent := sent c @ ms\<rparr>)"
        using ms(1) w1 by (simp add: worker_def)
      moreover have "evolves L S c c'" using evolves_trans [OF e1] d by blast
      moreover have "frames (script c) \<subseteq> S \<Longrightarrow> replies_ok L S c \<Longrightarrow> frames (script c1) \<subseteq> S \<and> replies_ok L S c1"
        using e1 by (simp add: evolves_def)
      ultimately show ?thesis unfolding rpc_done_def
        using ms(2,3) True conjunct2 [OF conjunct2 [OF d]] by (intro conjI exI allI impI) auto
    qed
  qed
qed

section \<open>Handshake\<close>

lemma evolves_reset:
  "evolves L S c (c\<lparr>has_socket := b, socket_tls := t, socket_open := False, socket_closed := False,
     socket_error := [], pending := Map.empty, session_inbox := []\<rparr>)"
  by (simp add: evolves_def replies_ok_def inbox_ok_def)

lemma buildAndOpenSocket_done:
  assumes "buildAndOpenSocket L c = Some (r, c')"
  shows "evolves L S c c' \<and> worker c' = worker (c\<lparr>has_socket := (r = Inr ())\<rparr>) \<and>
         (frames (script c) \<subseteq> S \<longrightarrow> replies_ok L S c') \<and> (r = Inr () \<longrightarrow> socket_open c')"
proof -
  define c0 where "c0 = c\<lparr>has_socket := True,
     socket_tls := (if isWssScheme (conn_uri c)
       then Some (chooseTlsCaFile (conn_cert_path c) (conn_allow_insecure c) (detectSystemCaBundle L)) else None),
     socket_open := False, socket_closed := False, socket_error := [], pending := Map.empty, session_inbox := []\<rparr>"
  obtain c1 g c2 where c1: "sync L c0 = Some c1" and
      c2: "wait_for L (cappedToDeadline c1 kRequestTimeout)
             (\<lambda>c. socket_open c \<or> socket_closed c \<or> cancel_requested c) c1 = Some (g, c2)"
    using assms by (auto simp: buildAndOpenSocket_def c0_def bind_eq_Some_conv)
  have e0: "evolves L S c c0" unfolding c0_def by (rule evolves_reset)
  have e1: "evolves L S c c1" by (rule evolves_trans [OF e0 sync_evolves [OF c1]])
  have e: "evolves L S c c2" by (rule evolves_trans [OF e1 wait_for_evolves [OF c2]])
  have w: "worker c2 = worker (c\<lparr>has_socket := True\<rparr>)"
    using wait_for_worker [OF c2] sync_worker [OF c1] by (simp add: c0_def worker_def)
  have "replies_ok L S c2" if f: "frames (script c) \<subseteq> S"
  proof -
    have "replies_ok L S c0" "frames (script c0) \<subseteq> S" using f by (simp_all add: c0_def replies_ok_def)
    then have "replies_ok L S c1" "frames (script c1) \<subseteq> S" using sync_evolves [OF c1] by (auto simp: evolves_def)
    then show ?thesis using wait_for_evolves [OF c2] by (simp add: evolves_def)
  qed
  moreover have "c' = (if r = Inr () then c2 else drop_socket c2) \<and> (r = Inr () \<longrightarrow> socket_open c2)"
    using assms c1 c2 by (simp add: buildAndOpenSocket_def c0_def [symmetric] split: if_splits) auto
  ultimately show ?thesis
    using e w evolves_trans [OF e evolves_slot(5), of False]
    by (cases "r = Inr ()") (auto simp: drop_socket_def worker_def)
qed

text \<open>The Hello is sent on a socket just opened; what comes back answers it.\<close>

lemma hello_reply:
  assumes "buildAndOpenSocket L c0 = Some (Inr (), c1)" and "sendAndWait L req t w c1 = Some (r, c2)"
  shows "worker c2 = worker (c0\<lparr>has_socket := True, next_request_id := next_request_id c2, sent := sent c2\<rparr>)"
    and "r = Some m \<Longrightarrow> sm_request_id m = next_request_id c0 \<and> (\<exists>b \<in> frames (script c0). unwrap_frame L b = Some m)"
    and "evolves L S c0 c2"
proof -
  note b = buildAndOpenSocket_done [OF assms(1)]
  note d = sendAndWait_done [OF assms(2)]
  from d obtain i ms where "worker c2 = worker (c1\<lparr>next_request_id := i, sent := sent c1 @ ms\<rparr>)"
    unfolding rpc_done_def by blast
  with b [of "{}"] show "worker c2 = worker (c0\<lparr>has_socket := True, next_request_id := next_request_id c2, sent := sent c2\<rparr>)"
    by (simp add: worker_def)
  show "evolves L S c0 c2" using b [of S] d [of S] evolves_trans unfolding rpc_done_def by blast
  assume r: "r = Some m"
  from b [of "frames (script c0)"] have "replies_ok L (frames (script c0)) c1" "frames (script c1) \<subseteq> frames (script c0)"
    "next_request_id c1 = next_request_id c0" by (auto simp: evolves_def worker_def)
  with d [of "frames (script c0)"] r
  show "sm_request_id m = next_request_id c0 \<and> (\<exists>b \<in> frames (script c0). unwrap_frame L b = Some m)"
    unfolding rpc_done_def by auto
qed

text \<open>A reply to the first request of a connection attempt.\<close>

definition answers :: "Lib \<Rightarrow> Conn \<Rightarrow> ServerPayload \<Rightarrow> bool" where
  "answers L c p \<longleftrightarrow> (\<exists>b \<in> frames (script c). \<exists>m. unwrap_frame L b = Some m \<and>
     sm_request_id m = next_request_id c \<and> sm_payload m = p)"


text \<open>A library that reads a fixed set of frames, to run the model on.\<close>

definition demo_lib :: "(string \<times> ServerMessage) list \<Rightarrow> Lib" where
  "demo_lib ms = \<lparr>codecs = stored_codecs, parse_server = map_of ms, serialize_client = (\<lambda>m. Some []),
     cert_readable = (\<lambda>p. False), ssl_cert_file = None\<rparr>"

definition reply_to :: "u64 \<Rightarrow> ServerPayload \<Rightarrow> ServerMessage" where
  "reply_to i p = \<lparr>sm_request_id = i, sm_subscription_id = 0, sm_payload = p\<rparr>"

definition demo_hello :: HelloResponse where
  "demo_hello = \<lparr>hr_version = ''0.1.0'', hr_capabilities = Some (True, False), hr_backend = None, hr_features = []\<rparr>"

definition demo_start :: "net_event list list" where
  "demo_start = [[], [EvOpen], [], [], [], [EvFrame ''hello'']]"


end
