(* ===== verification/Catalog_Rpc.thy ===== *)
theory Catalog_Rpc
  imports Connection
begin

text \<open>
  \<open>backend_connection.cpp\<close>, second part: the catalog requests. A listing walks the pages of one
  catalog generation; a stale answer throws the pages away and starts again, at most twice. The
  consumer of the pages is a state that the page callback updates.
\<close>

section \<open>Listing\<close>

record 'p ListState =
  ls_token :: string
  ls_generation :: string
  ls_reset :: bool
  ls_sequences :: "SequenceInfo list"
  ls_ids :: "string \<rightharpoonup> u64"
  ls_consumer :: 'p
  ls_conn :: Conn

record 'p ListResult =
  lr_sequences :: "SequenceInfo list"
  lr_complete :: bool
  lr_stale :: bool
  lr_error :: string
  lr_consumer :: 'p
  lr_conn :: Conn

datatype 'p page_exit = PageReturn "'p ListResult" | PageStale "'p ListState" | PageDone "'p ListState"

definition filter_active :: "ListFilter option \<Rightarrow> bool" where
  "filter_active flt = (case flt of Some f \<Rightarrow> \<not> filter_empty f | None \<Rightarrow> False)"

definition list_request :: "ListFilter option \<Rightarrow> string \<Rightarrow> ClientPayload" where
  "list_request flt token =
     CmListFiles token kListFilesPageLimit
       (if filter_active flt then flt else None)
       (if filter_active flt \<and> token = [] then map_option flt_generation flt else None)"

definition partial_list :: "'p ListState \<Rightarrow> Conn \<Rightarrow> string \<Rightarrow> 'p page_exit" where
  "partial_list st c e = PageReturn
     \<lparr>lr_sequences = ls_sequences st, lr_complete = False, lr_stale = False, lr_error = e,
      lr_consumer = ls_consumer st, lr_conn = c\<rparr>"

definition add_ids :: "(u64 \<times> SequenceInfo) list \<Rightarrow> (string \<rightharpoonup> u64) \<Rightarrow> (string \<rightharpoonup> u64)" where
  "add_ids mapped ids = fold (\<lambda>(i, s) ids. ids(si_name s \<mapsto> i)) mapped ids"

definition add_page ::
  "('p \<Rightarrow> SequenceInfo list \<Rightarrow> bool \<Rightarrow> 'p) \<Rightarrow> ListFilesResponse \<Rightarrow> Conn \<Rightarrow> 'p ListState \<Rightarrow> 'p ListState" where
  "add_page on_page r c st =
     (let mapped = mapListFilesResponse r; page = map snd mapped in
      \<lparr>ls_token = lf_next_page_token r,
       ls_generation = (if ls_token st = [] then lf_generation r else ls_generation st),
       ls_reset = False,
       ls_sequences = ls_sequences st @ page,
       ls_ids = add_ids mapped (ls_ids st),
       ls_consumer = on_page (ls_consumer st) page (ls_reset st),
       ls_conn = c\<rparr>)"

definition page_step ::
  "Lib \<Rightarrow> ('p \<Rightarrow> SequenceInfo list \<Rightarrow> bool \<Rightarrow> 'p) \<Rightarrow> ListFilter option \<Rightarrow> 'p ListState \<Rightarrow>
     ('p page_exit + 'p ListState) option" where
  "page_step L on_page flt st =
     do {
       c \<leftarrow> sync L (ls_conn st);
       if abort_requested c then Some (Inl (partial_list st c []))
       else do {
         (reply, c) \<leftarrow> sendAndWait L (list_request flt (ls_token st)) kRequestTimeout False c;
         case reply of
           None \<Rightarrow> Some (Inl (partial_list st c (''no response to ListFiles from '' @ buildWsUrl (conn_uri c))))
         | Some m \<Rightarrow>
             (case sm_payload m of
                SmError e \<Rightarrow>
                  if err_code e = ERROR_STALE_CATALOG then
                    (if filter_active flt then
                       Some (Inl (PageReturn \<lparr>lr_sequences = [], lr_complete = False, lr_stale = True, lr_error = [],
                         lr_consumer = ls_consumer st, lr_conn = c\<rparr>))
                     else Some (Inl (PageStale (st\<lparr>ls_conn := c\<rparr>))))
                  else Some (Inl (partial_list st c (formatWireError e)))
              | SmListFiles r \<Rightarrow>
                  (let st' = add_page on_page r c st in
                   if ls_token st' = [] then
                     Some (Inl (PageDone (st'\<lparr>ls_conn := c\<lparr>catalog_generation := ls_generation st'\<rparr>\<rparr>)))
                   else Some (Inr st'))
              | _ \<Rightarrow> Some (Inl (partial_list st c ''unexpected reply to ListFiles'')))
       }
     }"

definition first_page :: "'p \<Rightarrow> Conn \<Rightarrow> 'p ListState" where
  "first_page p c = \<lparr>ls_token = [], ls_generation = [], ls_reset = True, ls_sequences = [],
     ls_ids = Map.empty, ls_consumer = p, ls_conn = c\<rparr>"

definition kMaxStaleRetries :: nat where "kMaxStaleRetries = 2"

fun list_attempts ::
  "Lib \<Rightarrow> ('p \<Rightarrow> SequenceInfo list \<Rightarrow> bool \<Rightarrow> 'p) \<Rightarrow> ListFilter option \<Rightarrow> nat \<Rightarrow> SequenceInfo list \<Rightarrow> 'p \<Rightarrow> Conn \<Rightarrow>
     'p ListResult option" where
  "list_attempts L on_page flt 0 seqs p c =
     Some \<lparr>lr_sequences = seqs, lr_complete = False, lr_stale = False,
       lr_error = ''catalog kept rebuilding during the listing (stale retries exhausted)'',
       lr_consumer = p, lr_conn = c\<rparr>"
| "list_attempts L on_page flt (Suc n) seqs p c =
     do {
       x \<leftarrow> loop (page_step L on_page flt) (first_page p c);
       case x of
         PageReturn r \<Rightarrow> Some r
       | PageStale st \<Rightarrow> list_attempts L on_page flt n (ls_sequences st) (ls_consumer st) (ls_conn st)
       | PageDone st \<Rightarrow>
           Some \<lparr>lr_sequences = ls_sequences st, lr_complete = True, lr_stale = False, lr_error = [],
             lr_consumer = ls_consumer st, lr_conn = (ls_conn st)\<lparr>file_id_by_name := ls_ids st\<rparr>\<rparr>
     }"

definition listSequences ::
  "Lib \<Rightarrow> ('p \<Rightarrow> SequenceInfo list \<Rightarrow> bool \<Rightarrow> 'p) \<Rightarrow> ListFilter option \<Rightarrow> 'p \<Rightarrow> Conn \<Rightarrow> 'p ListResult option" where
  "listSequences L on_page flt p c =
     (if \<not> has_socket c then
        Some \<lparr>lr_sequences = [], lr_complete = False, lr_stale = False, lr_error = ''not connected'',
          lr_consumer = p, lr_conn = c\<rparr>
      else list_attempts L on_page flt (Suc kMaxStaleRetries) [] p c)"

section \<open>Topics, vocabulary and tags\<close>

definition topics_error :: "string \<Rightarrow> TopicsResult" where
  "topics_error e = \<lparr>tr_ok = False, tr_error = e, tr_topics = []\<rparr>"

definition listTopicsChecked :: "Lib \<Rightarrow> string \<Rightarrow> Conn \<Rightarrow> (TopicsResult \<times> Conn) option" where
  "listTopicsChecked L name c =
     (if \<not> has_socket c then Some (topics_error ''not connected'', c)
      else do {
        (reply, c) \<leftarrow> sendAndWait L (CmGetFile name (file_id_by_name c name)) kRequestTimeout False c;
        case reply of
          None \<Rightarrow> do {
            c \<leftarrow> sync L c;
            Some (topics_error (if socket_closed c then ''connection lost (socket closed)''
              else ''no response to topics request (timeout)''), c)
          }
        | Some m \<Rightarrow>
            Some (case sm_payload m of
                SmError e \<Rightarrow> topics_error (formatWireError e)
              | SmGetFile ts \<Rightarrow> \<lparr>tr_ok = True, tr_error = [], tr_topics = mapGetFileResponseTopics ts\<rparr>
              | _ \<Rightarrow> topics_error ''unexpected reply to GetFile'', c)
      })"

definition getVocabulary :: "Lib \<Rightarrow> nat \<Rightarrow> bool \<Rightarrow> Conn \<Rightarrow> (VocabularyInfo option \<times> Conn) option" where
  "getVocabulary L timeout picker_only c =
     (if \<not> has_socket c then Some (None, c)
      else do {
        (reply, c) \<leftarrow> sendAndWait L (CmGetVocabulary picker_only) timeout False c;
        Some (case reply of
            Some m \<Rightarrow> (case sm_payload m of SmVocabulary r \<Rightarrow> Some (mapGetVocabularyResponse r) | _ \<Rightarrow> None)
          | None \<Rightarrow> None, c)
      })"

definition getTopicMetadata :: "Lib \<Rightarrow> string \<Rightarrow> string \<Rightarrow> Conn \<Rightarrow> (TopicInfo option \<times> Conn) option" where
  "getTopicMetadata L name topic c =
     do {
       (r, c) \<leftarrow> listTopicsChecked L name c;
       Some (find (\<lambda>t. ti_topic_name t = topic) (tr_topics r), c)
     }"

definition updateTags ::
  "Lib \<Rightarrow> string \<Rightarrow> (string \<times> string) list \<Rightarrow> string list \<Rightarrow> Conn \<Rightarrow> ((string + TagRow list) \<times> Conn) option" where
  "updateTags L name sets unsets c =
     (if \<not> has_socket c then Some (Inl ''not connected'', c)
      else if (case server_caps c of Some k \<Rightarrow> \<not> tag_edit_supported k | None \<Rightarrow> False) then
        Some (Inl ''server does not support tag editing (read-only catalog; no tag-edit IPC configured)'', c)
      else do {
        (reply, c) \<leftarrow> sendAndWait L (CmUpdateTags name (file_id_by_name c name) sets unsets) kRequestTimeout False c;
        Some (case reply of
            None \<Rightarrow> Inl ''no response to UpdateTags (timeout or socket closed)''
          | Some m \<Rightarrow>
              (case sm_payload m of
                 SmError e \<Rightarrow> Inl (formatWireError e)
               | SmUpdateTags ts \<Rightarrow> Inr (mapTags ts)
               | _ \<Rightarrow> Inl ''unexpected reply to UpdateTags''), c)
      })"

section \<open>A complete listing is one walk over the pages\<close>

definition page_of :: "ListFilesResponse \<Rightarrow> SequenceInfo list" where
  "page_of r = map snd (mapListFilesResponse r)"

text \<open>What a consumer holds that starts over at the first page and adds the later ones.\<close>

fun consume :: "('p \<Rightarrow> SequenceInfo list \<Rightarrow> bool \<Rightarrow> 'p) \<Rightarrow> 'p \<Rightarrow> ListFilesResponse list \<Rightarrow> 'p" where
  "consume on_page p [] = p"
| "consume on_page p (r # rs) = foldl (\<lambda>p r. on_page p (page_of r) False) (on_page p (page_of r) True) rs"

lemma consume_snoc:
  "consume on_page p (rs @ [r]) = on_page (consume on_page p rs) (page_of r) (rs = [])"
  by (cases rs) auto

text \<open>The requests that fetch these pages: the first page, then each next page by its token.\<close>

definition walk_requests :: "ListFilter option \<Rightarrow> ListFilesResponse list \<Rightarrow> ClientPayload list" where
  "walk_requests flt rs = map (list_request flt) (take (length rs) ([] # map lf_next_page_token rs))"

lemma walk_snoc:
  "walk_requests flt (rs @ [r]) =
     walk_requests flt rs @ [list_request flt (if rs = [] then [] else lf_next_page_token (last rs))]"
proof (cases rs rule: rev_cases)
  case (snoc xs x)
  have "take (length xs) (map lf_next_page_token xs @ [lf_next_page_token x, lf_next_page_token r]) =
      map lf_next_page_token xs" by simp
  then show ?thesis using snoc by (simp add: walk_requests_def)
qed (simp add: walk_requests_def)

definition ids_of :: "ListFilesResponse list \<Rightarrow> (string \<rightharpoonup> u64)" where
  "ids_of rs = add_ids (concat (map mapListFilesResponse rs)) Map.empty"

text \<open>The state of the walk after the pages \<open>rs\<close>.\<close>

definition walked ::
  "Lib \<Rightarrow> string set \<Rightarrow> ('p \<Rightarrow> SequenceInfo list \<Rightarrow> bool \<Rightarrow> 'p) \<Rightarrow> ListFilter option \<Rightarrow> Conn \<Rightarrow> 'p \<Rightarrow>
     ListFilesResponse list \<Rightarrow> 'p ListState \<Rightarrow> bool" where
  "walked L S on_page flt c p rs st \<longleftrightarrow>
     evolves L S c (ls_conn st) \<and>
     file_id_by_name (ls_conn st) = file_id_by_name c \<and>
     (\<exists>pre. map cm_payload (sent (ls_conn st)) = pre @ walk_requests flt rs) \<and>
     ls_sequences st = concat (map page_of rs) \<and> ls_ids st = ids_of rs \<and>
     ls_consumer st = consume on_page p rs \<and> ls_reset st = (rs = []) \<and>
     ls_token st = (if rs = [] then [] else lf_next_page_token (last rs)) \<and>
     (rs \<noteq> [] \<longrightarrow> ls_generation st = lf_generation (hd rs)) \<and>
     (\<forall>r \<in> set (butlast rs). lf_next_page_token r \<noteq> []) \<and>
     (\<forall>r \<in> set rs. \<exists>b \<in> S. \<exists>m. unwrap_frame L b = Some m \<and> sm_payload m = SmListFiles r)"

lemma evolves_catalog [simp]:
  "evolves L S c (c'\<lparr>catalog_generation := g\<rparr>) = evolves L S c c'"
  unfolding evolves_def replies_ok_def inbox_ok_def by simp

lemma walked_step:
  assumes "walked L S on_page flt c p rs st" and "rs \<noteq> [] \<longrightarrow> ls_token st \<noteq> []" and "frames (script c) \<subseteq> S" and "replies_ok L S c"
    and "page_step L on_page flt st = Some x"
  shows "case x of
      Inr st' \<Rightarrow> \<exists>r. walked L S on_page flt c p (rs @ [r]) st' \<and> ls_token st' \<noteq> [] \<and> catalog_generation (ls_conn st') = catalog_generation (ls_conn st)
    | Inl (PageDone st') \<Rightarrow> \<exists>r. walked L S on_page flt c p (rs @ [r]) st' \<and> lf_next_page_token r = [] \<and>
        catalog_generation (ls_conn st') = ls_generation st'
    | Inl (PageStale st') \<Rightarrow> evolves L S c (ls_conn st') \<and> file_id_by_name (ls_conn st') = file_id_by_name c \<and>
        catalog_generation (ls_conn st') = catalog_generation (ls_conn st)
    | Inl (PageReturn r) \<Rightarrow> \<not> lr_complete r \<and> file_id_by_name (lr_conn r) = file_id_by_name c \<and>
        catalog_generation (lr_conn r) = catalog_generation (ls_conn st)"
proof -
  obtain c1 where c1: "sync L (ls_conn st) = Some c1" using assms(5) by (auto simp: page_step_def bind_eq_Some_conv)
  have e0: "evolves L S c (ls_conn st)" and i0: "file_id_by_name (ls_conn st) = file_id_by_name c"
    using assms(1) by (auto simp: walked_def)
  have e1: "evolves L S c c1" by (rule evolves_trans [OF e0 sync_evolves [OF c1]])
  note w1 = worker_fields [OF sync_worker [OF c1]]
  show ?thesis
  proof (cases "abort_requested c1")
    case True
    with assms(5) c1 w1 i0 show ?thesis by (auto simp: page_step_def partial_list_def)
  next
    case False
    then obtain rep c2 where s: "sendAndWait L (list_request flt (ls_token st)) kRequestTimeout False c1 = Some (rep, c2)"
      using assms(5) c1 by (auto simp: page_step_def bind_eq_Some_conv)
    note d = sendAndWait_done [OF s, of S]
    have e2: "evolves L S c c2" using e1 d evolves_trans unfolding rpc_done_def by blast
    have w2: "file_id_by_name c2 = file_id_by_name c" "catalog_generation c2 = catalog_generation (ls_conn st)"
      using d w1 i0 by (auto simp: rpc_done_def worker_def)
    show ?thesis
    proof (cases rep)
      case None
      with False assms(5) c1 s w2 show ?thesis by (auto simp: page_step_def partial_list_def)
    next
      case (Some m)
      have sent: "map cm_payload (sent c2) = map cm_payload (sent (ls_conn st)) @ [list_request flt (ls_token st)]"
        using d Some w1 by (auto simp: rpc_done_def worker_def)
      have b: "\<exists>b \<in> S. unwrap_frame L b = Some m"
        using d Some e1 assms(3,4) by (auto simp: rpc_done_def evolves_def)
      have tokens: "\<forall>x \<in> set rs. lf_next_page_token x \<noteq> []"
        using assms(1,2) by (cases rs rule: rev_cases) (auto simp: walked_def)
      have add: "walked L S on_page flt c p (rs @ [r]) (add_page on_page r c2 st)" if "sm_payload m = SmListFiles r" for r
        using assms(1,2) e2 w2 sent b that tokens
        by (auto simp: walked_def add_page_def walk_snoc consume_snoc ids_of_def add_ids_def page_of_def Let_def)
      show ?thesis
      proof (cases "sm_payload m")
        case (SmListFiles r)
        have x: "x = (let st' = add_page on_page r c2 st in
            if ls_token st' = [] then Inl (PageDone (st'\<lparr>ls_conn := c2\<lparr>catalog_generation := ls_generation st'\<rparr>\<rparr>)) else Inr st')"
          using False assms(5) c1 s Some SmListFiles by (simp add: page_step_def Let_def split: if_splits)
        have "ls_conn (add_page on_page r c2 st) = c2" "ls_token (add_page on_page r c2 st) = lf_next_page_token r"
          by (simp_all add: add_page_def Let_def)
        moreover from this add [OF SmListFiles]
        have "walked L S on_page flt c p (rs @ [r])
          ((add_page on_page r c2 st)\<lparr>ls_conn := c2\<lparr>catalog_generation := ls_generation (add_page on_page r c2 st)\<rparr>\<rparr>)"
          by (simp add: walked_def)
        ultimately show ?thesis using x add [OF SmListFiles] w2 by (auto simp: Let_def)
      next
        case (SmError e)
        with False assms(5) c1 s Some e2 w2 show ?thesis
          by (auto simp: page_step_def partial_list_def split: if_splits)
      qed (use False assms(5) c1 s Some w2 in \<open>auto simp: page_step_def partial_list_def\<close>)
    qed
  qed
qed

lemma walked_first [simp]: "walked L S on_page flt c p [] (first_page p c)"
  by (simp add: walked_def first_page_def ids_of_def add_ids_def walk_requests_def)

lemma page_loop:
  assumes "loop (page_step L on_page flt) (first_page p c) = Some x"
    and "frames (script c) \<subseteq> S" and "replies_ok L S c"
  shows "case x of
      PageDone st \<Rightarrow> \<exists>rs. walked L S on_page flt c p rs st \<and> rs \<noteq> [] \<and> lf_next_page_token (last rs) = [] \<and>
        catalog_generation (ls_conn st) = lf_generation (hd rs)
    | PageStale st \<Rightarrow> evolves L S c (ls_conn st) \<and> file_id_by_name (ls_conn st) = file_id_by_name c \<and>
        catalog_generation (ls_conn st) = catalog_generation c
    | PageReturn r \<Rightarrow> \<not> lr_complete r \<and> file_id_by_name (lr_conn r) = file_id_by_name c \<and>
        catalog_generation (lr_conn r) = catalog_generation c"
    (is "?Q x")
proof -
  let ?I = "\<lambda>st rs. walked L S on_page flt c p rs st \<and> (rs \<noteq> [] \<longrightarrow> ls_token st \<noteq> []) \<and>
    catalog_generation (ls_conn st) = catalog_generation c"
  note step = walked_step [OF _ _ assms(2,3)]
  show ?thesis
  proof (rule loop_invariant [where I = "\<lambda>st. \<exists>rs. ?I st rs" and Q = ?Q, OF assms(1)])
    have "?I (first_page p c) []" by (simp, simp add: first_page_def)
    then show "\<exists>rs. ?I (first_page p c) rs" by blast
  next
    fix st st' assume "\<exists>rs. ?I st rs" and s: "page_step L on_page flt st = Some (Inr st')"
    then obtain rs where rs: "?I st rs" by blast
    with step [OF _ _ s] obtain r where "?I st' (rs @ [r])" by auto
    then show "\<exists>rs. ?I st' rs" by blast
  next
    fix st x assume "\<exists>rs. ?I st rs" and s: "page_step L on_page flt st = Some (Inl x)"
    then obtain rs where rs: "?I st rs" by blast
    note q = step [OF conjunct1 [OF rs] _ s]
    show "?Q x"
    proof (cases x)
      case (PageDone st')
      with q rs obtain r where r: "walked L S on_page flt c p (rs @ [r]) st'" "lf_next_page_token r = []"
        "catalog_generation (ls_conn st') = ls_generation st'" by auto
      moreover from r(1) have "ls_generation st' = lf_generation (hd (rs @ [r]))" unfolding walked_def by blast
      ultimately show ?thesis using PageDone by (auto intro!: exI [of _ "rs @ [r]"])
    qed (use q rs in auto)
  qed
qed

text \<open>What a listing promises when it is complete, and when it is not.\<close>

definition listed ::
  "Lib \<Rightarrow> string set \<Rightarrow> ('p \<Rightarrow> SequenceInfo list \<Rightarrow> bool \<Rightarrow> 'p) \<Rightarrow> ListFilter option \<Rightarrow> Conn \<Rightarrow> 'p ListResult \<Rightarrow> bool" where
  "listed L S on_page flt c r \<longleftrightarrow>
     (if lr_complete r then \<exists>rs p.
        rs \<noteq> [] \<and> (\<forall>x \<in> set (butlast rs). lf_next_page_token x \<noteq> []) \<and> lf_next_page_token (last rs) = [] \<and>
        (\<exists>pre. map cm_payload (sent (lr_conn r)) = pre @ walk_requests flt rs) \<and>
        (\<forall>x \<in> set rs. \<exists>b \<in> S. \<exists>m. unwrap_frame L b = Some m \<and> sm_payload m = SmListFiles x) \<and>
        lr_sequences r = concat (map page_of rs) \<and> lr_consumer r = consume on_page p rs \<and>
        file_id_by_name (lr_conn r) = ids_of rs \<and> catalog_generation (lr_conn r) = lf_generation (hd rs)
      else file_id_by_name (lr_conn r) = file_id_by_name c \<and> catalog_generation (lr_conn r) = catalog_generation c)"

lemma list_attempts_listed:
  "list_attempts L on_page flt n seqs p c = Some r \<Longrightarrow> frames (script c) \<subseteq> S \<Longrightarrow> replies_ok L S c \<Longrightarrow>
     listed L S on_page flt c r"
proof (induction n arbitrary: seqs p c)
  case 0
  then show ?case by (auto simp: listed_def)
next
  case (Suc n)
  then obtain x where x: "loop (page_step L on_page flt) (first_page p c) = Some x"
    by (auto simp: bind_eq_Some_conv)
  note px = page_loop [OF x Suc.prems(2,3)]
  show ?case
  proof (cases x)
    case (PageReturn q)
    with px x Suc.prems(1) show ?thesis by (auto simp: listed_def)
  next
    case (PageStale st)
    with px have st: "evolves L S c (ls_conn st)" "file_id_by_name (ls_conn st) = file_id_by_name c"
      "catalog_generation (ls_conn st) = catalog_generation c" by auto
    have "listed L S on_page flt (ls_conn st) r"
      by (rule Suc.IH) (use PageStale x Suc.prems st(1) in \<open>auto simp: evolves_def\<close>)
    then show ?thesis unfolding listed_def st(2,3) .
  next
    case (PageDone st)
    with px obtain rs where "walked L S on_page flt c p rs st" "rs \<noteq> []" "lf_next_page_token (last rs) = []"
      "catalog_generation (ls_conn st) = lf_generation (hd rs)" by auto
    with PageDone x Suc.prems(1) show ?thesis by (auto simp: listed_def walked_def intro!: exI [of _ rs])
  qed
qed

text \<open>
  C20: A listing reported complete is one unbroken walk over the pages of a single attempt: the
  requests follow the page tokens from the first page to an empty token, every page was received,
  and the returned list, what the page callback was given since its last reset, the published index
  of ids and the generation all come from exactly these pages. A listing that is not complete
  leaves the index and the generation of the last complete one in place.
\<close>

theorem listing_is_one_walk:
  assumes "listSequences L on_page flt p c = Some r" and "replies_ok L (frames (script c)) c"
  shows "listed L (frames (script c)) on_page flt c r"
proof (cases "has_socket c")
  case True
  with assms(1) have "list_attempts L on_page flt (Suc kMaxStaleRetries) [] p c = Some r"
    by (simp add: listSequences_def del: list_attempts.simps)
  then show ?thesis by (rule list_attempts_listed [OF _ subset_refl assms(2)])
next
  case False
  with assms show ?thesis by (auto simp: listSequences_def listed_def)
qed

definition demo_page :: "string list \<Rightarrow> string \<Rightarrow> ServerPayload" where
  "demo_page ks t = SmListFiles \<lparr>lf_files = map (\<lambda>k. \<lparr>fs_id = 7, fs_s3_key = k, fs_size_bytes = 10, fs_recorded = None, fs_tags = []\<rparr>) ks,
     lf_next_page_token = t, lf_metadata = [], lf_generation = ''g2''\<rparr>"

definition demo_listing :: "(string \<times> ServerMessage) list" where
  "demo_listing =
     [(''1'', reply_to 1 (demo_page [''old''] ''t'')),
      (''2'', reply_to 2 (SmError \<lparr>err_code = ERROR_STALE_CATALOG, err_message = []\<rparr>)),
      (''3'', reply_to 3 (demo_page [''a'', ''b''] ''t'')),
      (''4'', reply_to 4 (demo_page [''c''] []))]"

definition append_page :: "SequenceInfo list \<Rightarrow> SequenceInfo list \<Rightarrow> bool \<Rightarrow> SequenceInfo list" where
  "append_page p page reset = (if reset then page else p @ page)"

theorem listing_is_one_walk_witness:
  "\<exists>r. listSequences (demo_lib demo_listing) append_page None []
         ((new_connection ''ws://h'' [] [] False
            (concat (map (\<lambda>f. [[], [], [], [], [EvFrame f]]) [''1'', ''2'', ''3'', ''4''])))\<lparr>has_socket := True\<rparr>) = Some r \<and>
       lr_complete r \<and> map si_name (lr_consumer r) = [''a'', ''b'', ''c''] \<and> catalog_generation (lr_conn r) = ''g2'' \<and>
       lr_sequences r = lr_consumer r"
proof -
  let ?c = "(new_connection ''ws://h'' [] [] False
    (concat (map (\<lambda>f. [[], [], [], [], [EvFrame f]]) [''1'', ''2'', ''3'', ''4''])))\<lparr>has_socket := True\<rparr>"
  have "map_option (\<lambda>r. (lr_complete r, map si_name (lr_consumer r), catalog_generation (lr_conn r)))
      (listSequences (demo_lib demo_listing) append_page None [] ?c) = Some (True, [''a'', ''b'', ''c''], ''g2'')"
    by code_simp
  then obtain r where r: "listSequences (demo_lib demo_listing) append_page None [] ?c = Some r"
      "lr_complete r" "map si_name (lr_consumer r) = [''a'', ''b'', ''c'']" "catalog_generation (lr_conn r) = ''g2''" by auto
  have "replies_ok (demo_lib demo_listing) (frames (script ?c)) ?c"
    by (simp add: replies_ok_def new_connection_def)
  from listing_is_one_walk [OF r(1) this] r(2) obtain rs p where rs: "rs \<noteq> []" "lr_sequences r = concat (map page_of rs)"
      "lr_consumer r = consume append_page p rs"
    unfolding listed_def by auto
  have "foldl (\<lambda>p x. append_page p (page_of x) False) q xs = q @ concat (map page_of xs)" for q xs
    by (induction xs arbitrary: q) (simp_all add: append_page_def)
  with rs have "lr_consumer r = lr_sequences r" by (cases rs) (simp_all add: append_page_def)
  with r show ?thesis by auto
qed

lemma formatWireError_nonempty: "formatWireError e \<noteq> []"
  by (cases "err_code e") (auto simp: formatWireError_def)

text \<open>
  A topics request asks for the recording by its key. Its result is good exactly when the server
  answered this request with the recording's topics; every failure has a message and no topics, so
  it cannot be taken for a recording without topics.
\<close>

theorem topics_failure_is_not_empty:
  assumes "listTopicsChecked L name c = Some (r, c')" and "replies_ok L (frames (script c)) c"
  shows "if tr_ok r
         then \<exists>ts i. answers L c (SmGetFile ts) \<and> tr_topics r = map mapTopicInfo ts \<and>
                sent c' = sent c @ [\<lparr>cm_request_id = next_request_id c, cm_payload = CmGetFile name i\<rparr>]
         else tr_error r \<noteq> [] \<and> tr_topics r = []"
proof (cases "has_socket c")
  case True
  then obtain rep c1 where s: "sendAndWait L (CmGetFile name (file_id_by_name c name)) kRequestTimeout False c = Some (rep, c1)"
    using assms(1) by (auto simp: listTopicsChecked_def bind_eq_Some_conv)
  note d = sendAndWait_done [OF s, of "frames (script c)"]
  show ?thesis
  proof (cases rep)
    case None
    with True assms(1) s show ?thesis
      by (auto simp: listTopicsChecked_def topics_error_def bind_eq_Some_conv split: if_splits)
  next
    case (Some m)
    with d assms(2) have "answers L c (sm_payload m)"
      and "sent c1 = sent c @ [\<lparr>cm_request_id = next_request_id c, cm_payload = CmGetFile name (file_id_by_name c name)\<rparr>]"
      by (auto simp: rpc_done_def answers_def worker_def)
    with True assms(1) s Some show ?thesis
      by (cases "sm_payload m")
        (auto simp: listTopicsChecked_def topics_error_def mapGetFileResponseTopics_def formatWireError_nonempty)
  qed
next
  case False
  with assms show ?thesis by (auto simp: listTopicsChecked_def topics_error_def)
qed

theorem topics_failure_is_not_empty_witness:
  "\<exists>r c'. listTopicsChecked (demo_lib [(''1'', reply_to 1 (SmError \<lparr>err_code = ERROR_NOT_FOUND, err_message = []\<rparr>))]) ''k''
       ((new_connection ''ws://h'' [] [] False [[], [], [], [EvFrame ''1'']])\<lparr>has_socket := True\<rparr>) = Some (r, c') \<and>
     \<not> tr_ok r \<and> tr_error r \<noteq> []"
proof -
  let ?L = "demo_lib [(''1'', reply_to 1 (SmError \<lparr>err_code = ERROR_NOT_FOUND, err_message = []\<rparr>))]"
  let ?c = "(new_connection ''ws://h'' [] [] False [[], [], [], [EvFrame ''1'']])\<lparr>has_socket := True\<rparr>"
  have "map_option (\<lambda>(r, c'). tr_ok r) (listTopicsChecked ?L ''k'' ?c) = Some False" by code_simp
  then obtain r c' where r: "listTopicsChecked ?L ''k'' ?c = Some (r, c')" "\<not> tr_ok r" by auto
  moreover have "replies_ok ?L (frames (script ?c)) ?c" by (simp add: replies_ok_def new_connection_def)
  ultimately show ?thesis using topics_failure_is_not_empty [OF r(1)] by auto
qed

text \<open>A server known to be read-only is never sent a tag edit.\<close>

lemma read_only_sends_nothing:
  assumes "server_caps c = Some k" and "\<not> tag_edit_supported k"
  shows "\<exists>e. updateTags L name sets unsets c = Some (Inl e, c)"
  using assms by (simp add: updateTags_def)

end
