(* ===== verification/Session_Stream.thy ===== *)
theory Session_Stream
  imports Connection
begin

text \<open>
  \<open>backend_connection.cpp\<close>, third part: opening a download session, the loop over its frames, and
  the download that reconnects and resumes. The message handler is a state with a function that
  takes the next message and says whether to go on; the numbers of the statistics wrap like the
  64-bit counters they are.
\<close>

section \<open>Opening\<close>

definition finish_session :: "Conn \<Rightarrow> Conn" where
  "finish_session c = c\<lparr>session_active := False, session_inbox := []\<rparr>"

definition open_request :: "OpenSessionParams \<Rightarrow> ClientPayload" where
  "open_request p =
     (if osp_selection_id p \<noteq> [] then CmOpenSelection (osp_selection_id p)
      else CmOpenFresh (osp_s3_keys p) (osp_topic_names p)
        (case (osp_start_ns p, osp_end_ns p) of (Some a, Some b) \<Rightarrow> Some (a, b) | _ \<Rightarrow> None)
        (osp_include_latched p))"

definition session_info :: "OpenSessionResponse \<Rightarrow> SessionInfo" where
  "session_info r =
     \<lparr>inf_subscription_id = os_subscription_id r,
      inf_merged_start_ns = (case os_range r of Some (a, b) \<Rightarrow> a | None \<Rightarrow> 0),
      inf_merged_end_ns = (case os_range r of Some (a, b) \<Rightarrow> b | None \<Rightarrow> 0),
      inf_estimated_chunk_bytes = os_chunk_bytes r,
      inf_approximate_messages = os_messages r,
      inf_topics = map (\<lambda>b. \<lparr>st_topic_id = tb_topic_id b, st_topic_name = tb_topic_name b,
        st_schema_id = tb_schema_id b, st_message_encoding = tb_message_encoding b\<rparr>) (os_topics r),
      inf_schemas = map (\<lambda>s. \<lparr>ss_schema_id = sb_schema_id s, ss_name = sb_name s,
        ss_encoding = sb_encoding s, ss_data = sb_data s\<rparr>) (os_schemas r)\<rparr>"

definition openSessionFresh :: "Lib \<Rightarrow> OpenSessionParams \<Rightarrow> Conn \<Rightarrow> ((string + SessionInfo) \<times> Conn) option" where
  "openSessionFresh L p c =
     (if \<not> has_socket c then Some (Inl ''not connected'', c)
      else if osp_selection_id p = [] \<and> osp_s3_keys p = [] then Some (Inl ''no recordings selected for session'', c)
      else if osp_selection_id p \<noteq> [] \<and> \<not> hasNegotiatedFeature kOpenSelectionFeature c then
        Some (Inl kOpenSelectionUnsupportedError, c)
      else do {
        c \<leftarrow> sync L c;
        (reply, c) \<leftarrow> sendAndWait L (open_request p) kOpenSessionTimeout True
          (c\<lparr>session_active := True, session_from_selection := (osp_selection_id p \<noteq> []),
             session_subscription_id := 0, session_inbox := [], session_wire_bytes := 0\<rparr>);
        case reply of
          None \<Rightarrow> do {
            (cancelled, c) \<leftarrow> read_cancel L c;
            Some (Inl (if cancelled then ''cancelled'' else ''no response to OpenSession (timeout or socket closed)''),
              finish_session c)
          }
        | Some m \<Rightarrow>
            (case sm_payload m of
               SmError e \<Rightarrow> Some (Inl (formatWireError e), finish_session c)
             | SmOpenSession r \<Rightarrow> do {
                 c \<leftarrow> sync L c;
                 Some (Inr (session_info r), c\<lparr>session_subscription_id := os_subscription_id r\<rparr>)
               }
             | _ \<Rightarrow> Some (Inl ''unexpected reply to OpenSession'', finish_session c))
      })"

text \<open>The error and whether the server has rejected the resume.\<close>

definition openSessionResume :: "Lib \<Rightarrow> u64 \<Rightarrow> u64 \<Rightarrow> Conn \<Rightarrow> ((string \<times> bool + unit) \<times> Conn) option" where
  "openSessionResume L sub after c =
     (if \<not> has_socket c then Some (Inl (''not connected'', False), c)
      else if session_from_selection c \<and> \<not> hasNegotiatedFeature kOpenSelectionFeature c then
        Some (Inl (kOpenSelectionUnsupportedError, True), c)
      else do {
        c \<leftarrow> sync L c;
        (cancelled, c) \<leftarrow> read_cancel L
          (c\<lparr>session_active := True, session_subscription_id := sub, session_inbox := []\<rparr>);
        if cancelled then Some (Inl (''cancelled during resume'', False), finish_session c)
        else do {
          (reply, c) \<leftarrow> sendAndWait L (CmOpenResume sub after) kOpenSessionTimeout True c;
          case reply of
            None \<Rightarrow> do {
              (cancelled, c) \<leftarrow> read_cancel L c;
              Some (Inl (if cancelled then ''cancelled'' else ''no response to OpenResume (timeout or socket closed)'', False),
                finish_session c)
            }
          | Some m \<Rightarrow>
              Some (case sm_payload m of
                  SmError e \<Rightarrow> (Inl (formatWireError e, True), finish_session c)
                | SmOpenSession r \<Rightarrow> (Inr (), c)
                | _ \<Rightarrow> (Inl (''unexpected reply to OpenResume'', False), finish_session c))
        }
      })"

section \<open>The frame loop\<close>

definition waitSessionFrame :: "Lib \<Rightarrow> nat \<Rightarrow> Conn \<Rightarrow> (ServerMessage option \<times> Conn) option" where
  "waitSessionFrame L t c =
     do {
       (got, c) \<leftarrow> wait_for L t (\<lambda>c. socket_closed c \<or> session_inbox c \<noteq> [] \<or> cancel_requested c) c;
       Some (if \<not> got then (None, c)
         else case session_inbox c of
             [] \<Rightarrow> (None, c)
           | m # ms \<Rightarrow> (Some m, c\<lparr>session_inbox := ms\<rparr>))
     }"

definition kAckEveryBatches :: nat where "kAckEveryBatches = 64"
definition kAckEveryDur :: nat where "kAckEveryDur = 500"
definition kFrameTimeout :: nat where "kFrameTimeout = 60000"

definition send_ack :: "Lib \<Rightarrow> SessionInfo \<Rightarrow> u64 \<Rightarrow> Conn \<Rightarrow> Conn option" where
  "send_ack L info n c = map_option snd (sendFrame L (CmAck (inf_subscription_id info) n) c)"

definition send_cancel :: "Lib \<Rightarrow> SessionInfo \<Rightarrow> Conn \<Rightarrow> Conn option" where
  "send_cancel L info c = map_option snd (sendFrame L (CmCancel (inf_subscription_id info)) c)"

type_synonym 'h handler = "'h \<Rightarrow> DecodedMessage \<Rightarrow> bool \<times> 'h"

fun feed :: "'h handler \<Rightarrow> 'h \<Rightarrow> SessionStats \<Rightarrow> DecodedMessage list \<Rightarrow> bool \<times> 'h \<times> SessionStats" where
  "feed f h st [] = (False, h, st)"
| "feed f h st (m # ms) =
     (let (go, h') = f h m in
      if \<not> go then (True, h', st)
      else feed f h' (st\<lparr>messages_received := messages_received st + 1,
        bytes_received := bytes_received st + of_nat (length (dm_payload m))\<rparr>) ms)"

record 'h FrameState =
  fl_stats :: SessionStats
  fl_last_seq :: u64
  fl_since_ack :: nat
  fl_last_ack :: nat
  fl_pass :: nat
  fl_cancel_sent :: bool
  fl_handler :: 'h
  fl_conn :: Conn

record 'h FrameLoopResult =
  flr_stats :: SessionStats
  flr_resumable :: bool
  flr_last_seq :: u64
  flr_handler :: 'h
  flr_conn :: Conn

definition leg_end :: "'h FrameState \<Rightarrow> SessionEos \<Rightarrow> string \<Rightarrow> Conn \<Rightarrow> 'h FrameLoopResult" where
  "leg_end st e err c =
     \<lparr>flr_stats = (fl_stats st)\<lparr>eos := e, stats_error := err\<rparr>, flr_resumable = False,
      flr_last_seq = fl_last_seq st, flr_handler = fl_handler st, flr_conn = finish_session c\<rparr>"

definition no_frame :: "Lib \<Rightarrow> SessionInfo \<Rightarrow> 'h FrameState \<Rightarrow> Conn \<Rightarrow> 'h FrameLoopResult option" where
  "no_frame L info st c =
     do {
       (expired, c) \<leftarrow> sessionDeadlineExpired L c;
       (cancelled, c) \<leftarrow> (if expired then Some (True, c) else read_cancel L c);
       if expired \<or> cancelled then do {
         c \<leftarrow> (if fl_cancel_sent st then Some c else send_cancel L info c);
         Some (leg_end st EosCancelled [] c)
       }
       else Some \<lparr>flr_stats = (fl_stats st)\<lparr>eos := EosUnset,
           stats_error := ''session frame timeout or socket closed mid-stream''\<rparr>,
         flr_resumable = True, flr_last_seq = fl_last_seq st, flr_handler = fl_handler st, flr_conn = c\<rparr>
     }"

definition acknowledge :: "Lib \<Rightarrow> SessionInfo \<Rightarrow> 'h FrameState \<Rightarrow> 'h FrameState option" where
  "acknowledge L info st =
     do {
       c \<leftarrow> sync L (fl_conn st);
       if kAckEveryBatches \<le> fl_since_ack st \<or> kAckEveryDur \<le> now c - fl_last_ack st then do {
         c \<leftarrow> send_ack L info (fl_last_seq st) c;
         c \<leftarrow> sync L c;
         Some (st\<lparr>fl_since_ack := 0, fl_last_ack := now c, fl_conn := c\<rparr>)
       }
       else Some (st\<lparr>fl_conn := c\<rparr>)
     }"

text \<open>The test hook that drops the socket after a number of batches of the first pass.\<close>

definition test_drop :: "bool \<Rightarrow> 'h FrameState \<Rightarrow> 'h FrameState" where
  "test_drop first st =
     (let c = fl_conn st; n = fl_pass st + 1 in
      st\<lparr>fl_pass := n,
        fl_conn := (if first \<and> 0 < test_drop_after c \<and> n = test_drop_after c
          then c\<lparr>test_drop_after := 0, socket_closed := (if has_socket c then True else socket_closed c)\<rparr> else c)\<rparr>)"

definition handle_batch ::
  "Lib \<Rightarrow> SessionInfo \<Rightarrow> 'h handler \<Rightarrow> bool \<Rightarrow> 'h FrameState \<Rightarrow> MessageBatch \<Rightarrow> Conn \<Rightarrow>
     ('h FrameLoopResult + 'h FrameState) option" where
  "handle_batch L info f first st b c =
     (if mb_seq b \<noteq> fl_last_seq st + 1 then do {
        c \<leftarrow> send_cancel L info c;
        Some (Inl (leg_end st EosError (''out-of-order batch seq '' @ u64_str (mb_seq b) @ '' (expected '' @
          u64_str (fl_last_seq st + 1) @ '')'') c))
      }
      else case decodeBatch (codecs L) b kMaxDecodedBatchBytes of
          Inl e \<Rightarrow> do { c \<leftarrow> send_cancel L info c; Some (Inl (leg_end st EosError e c)) }
        | Inr ds \<Rightarrow>
            (let (aborted, h, stats) = feed f (fl_handler st) (fl_stats st) ds;
                 st = st\<lparr>fl_stats := stats\<lparr>batches_received := batches_received stats + 1\<rparr>,
                         fl_last_seq := mb_seq b, fl_handler := h\<rparr>
             in if aborted then do {
               c \<leftarrow> send_cancel L info c;
               Some (Inl (leg_end st EosCancelled ''download aborted by sink'' c))
             }
             else do {
               st \<leftarrow> acknowledge L info (st\<lparr>fl_since_ack := fl_since_ack st + 1, fl_conn := c\<rparr>);
               Some (Inr (test_drop first st))
             }))"

fun eos_outcome :: "EosReason \<Rightarrow> SessionEos \<times> string" where
  "eos_outcome EOS_COMPLETE = (EosComplete, [])"
| "eos_outcome EOS_CANCELLED = (EosCancelled, [])"
| "eos_outcome EOS_ERROR = (EosError, ''server reported stream error (Eos ERROR)'')"
| "eos_outcome _ = (EosUnset, ''Eos with unspecified reason'')"

definition handle_eos :: "Lib \<Rightarrow> SessionInfo \<Rightarrow> 'h FrameState \<Rightarrow> Eos \<Rightarrow> Conn \<Rightarrow> 'h FrameLoopResult option" where
  "handle_eos L info st e c =
     do {
       c \<leftarrow> send_ack L info (fl_last_seq st) c;
       let (r, err) = eos_outcome (eos_reason e);
       Some (leg_end (st\<lparr>fl_stats := (fl_stats st)\<lparr>eos_total_messages_sent := eos_messages_sent e,
         eos_total_bytes_sent := eos_bytes_sent e\<rparr>\<rparr>) r err c)
     }"

definition handle_frame ::
  "Lib \<Rightarrow> SessionInfo \<Rightarrow> 'h handler \<Rightarrow> bool \<Rightarrow> 'h FrameState \<Rightarrow> ServerMessage \<Rightarrow> Conn \<Rightarrow>
     ('h FrameLoopResult + 'h FrameState) option" where
  "handle_frame L info f first st m c =
     (case sm_payload m of
        SmBatch b \<Rightarrow> handle_batch L info f first st b c
      | SmEos e \<Rightarrow> map_option Inl (handle_eos L info st e c)
      | SmError e \<Rightarrow> Some (Inl (leg_end st EosError (formatWireError e) c))
      | _ \<Rightarrow> Some (Inr (st\<lparr>fl_conn := c\<rparr>)))"

definition next_frame ::
  "Lib \<Rightarrow> SessionInfo \<Rightarrow> 'h handler \<Rightarrow> bool \<Rightarrow> 'h FrameState \<Rightarrow> Conn \<Rightarrow> ('h FrameLoopResult + 'h FrameState) option" where
  "next_frame L info f first st c =
     do {
       c \<leftarrow> sync L c;
       (frame, c) \<leftarrow> waitSessionFrame L (cappedToDeadline c kFrameTimeout) c;
       case frame of
         None \<Rightarrow> map_option Inl (no_frame L info st c)
       | Some m \<Rightarrow> handle_frame L info f first st m c
     }"

definition frame_step ::
  "Lib \<Rightarrow> SessionInfo \<Rightarrow> 'h handler \<Rightarrow> bool \<Rightarrow> 'h FrameState \<Rightarrow> ('h FrameLoopResult + 'h FrameState) option" where
  "frame_step L info f first st =
     do {
       (cancelled, c) \<leftarrow> read_cancel L (fl_conn st);
       c \<leftarrow> (if cancelled \<and> \<not> fl_cancel_sent st then send_cancel L info c else Some c);
       let st = st\<lparr>fl_cancel_sent := (fl_cancel_sent st \<or> cancelled)\<rparr>;
       (expired, c) \<leftarrow> sessionDeadlineExpired L c;
       if expired then do {
         c \<leftarrow> send_cancel L info c;
         Some (Inl (leg_end st EosCancelled [] c))
       }
       else next_frame L info f first st c
     }"

definition runFrameLoop ::
  "Lib \<Rightarrow> SessionInfo \<Rightarrow> 'h handler \<Rightarrow> u64 \<Rightarrow> bool \<Rightarrow> 'h \<Rightarrow> Conn \<Rightarrow> 'h FrameLoopResult option" where
  "runFrameLoop L info f seed first h c =
     do {
       c \<leftarrow> sync L c;
       loop (frame_step L info f first)
         \<lparr>fl_stats = no_stats, fl_last_seq = seed, fl_since_ack = 0, fl_last_ack = now c, fl_pass = 0,
          fl_cancel_sent = False, fl_handler = h, fl_conn = c\<rparr>
     }"

definition downloadSession ::
  "Lib \<Rightarrow> SessionInfo \<Rightarrow> 'h handler \<Rightarrow> 'h \<Rightarrow> Conn \<Rightarrow> (SessionStats \<times> 'h \<times> Conn) option" where
  "downloadSession L info f h c =
     (if \<not> has_socket c then Some (no_stats\<lparr>stats_error := ''not connected''\<rparr>, h, c)
      else do {
        r \<leftarrow> runFrameLoop L info f 0 True h c;
        let c = (if flr_resumable r then finish_session (flr_conn r) else flr_conn r);
        Some ((flr_stats r)\<lparr>wire_bytes_received := session_wire_bytes c\<rparr>, flr_handler r, c)
      })"

section \<open>Reconnect and resume\<close>

definition kMaxResumeAttempts :: nat where "kMaxResumeAttempts = 3"

definition kResumeBackoffMs :: "nat list" where "kResumeBackoffMs = [1000, 4000, 16000]"

record 'h ResumeState =
  rs_total :: SessionStats
  rs_cursor :: u64
  rs_attempts :: nat
  rs_reason :: string
  rs_armed :: bool
  rs_handler :: 'h
  rs_conn :: Conn

type_synonym 'h download = "SessionStats \<times> 'h \<times> Conn"

definition finalize :: "'h ResumeState \<Rightarrow> SessionEos \<Rightarrow> string \<Rightarrow> Conn \<Rightarrow> 'h download" where
  "finalize st e err c =
     ((rs_total st)\<lparr>eos := e, stats_error := err, wire_bytes_received := session_wire_bytes c\<rparr>,
      rs_handler st, finish_session c)"

definition resume_leg ::
  "Lib \<Rightarrow> SessionInfo \<Rightarrow> 'h handler \<Rightarrow> 'h ResumeState \<Rightarrow> ('h download + 'h ResumeState) option" where
  "resume_leg L info f st =
     do {
       r \<leftarrow> runFrameLoop L info f (rs_cursor st) (rs_attempts st = 0) (rs_handler st) (rs_conn st);
       let t = rs_total st;
       let s = flr_stats r;
       let st = st\<lparr>rs_cursor := flr_last_seq r, rs_handler := flr_handler r, rs_conn := flr_conn r,
           rs_total := t\<lparr>messages_received := messages_received t + messages_received s,
             bytes_received := bytes_received t + bytes_received s,
             batches_received := batches_received t + batches_received s\<rparr>\<rparr>;
       if \<not> flr_resumable r then
         Some (Inl ((rs_total st)\<lparr>eos := eos s, eos_total_messages_sent := eos_total_messages_sent s,
           eos_total_bytes_sent := eos_total_bytes_sent s, stats_error := stats_error s,
           wire_bytes_received := session_wire_bytes (flr_conn r)\<rparr>, rs_handler st, flr_conn r))
       else do {
          (cancelled, c) \<leftarrow> read_cancel L (flr_conn r);
         if cancelled \<or> eos s = EosCancelled then Some (Inl (finalize st EosCancelled [] c))
         else Some (Inr (st\<lparr>rs_reason := stats_error s, rs_conn := c\<rparr>))
       }
     }"

definition reconnect ::
  "Lib \<Rightarrow> SessionInfo \<Rightarrow> 'h ResumeState \<Rightarrow> ('h download + 'h ResumeState) option" where
  "reconnect L info st =
     do {
       (hello, c) \<leftarrow> reconnectAndHello L (rs_conn st);
       (expired, c) \<leftarrow> sessionDeadlineExpired L c;
       if expired then Some (Inl (finalize st EosCancelled [] c))
       else case hello of
           Inl e \<Rightarrow>
             Some (Inr (st\<lparr>rs_reason := (if e = [] then ''reconnect failed'' else e), rs_armed := False, rs_conn := c\<rparr>))
         | Inr _ \<Rightarrow> do {
             (resumed, c) \<leftarrow> openSessionResume L (inf_subscription_id info) (rs_cursor st) c;
             Some (case resumed of
                 Inr _ \<Rightarrow> Inr (st\<lparr>rs_armed := True, rs_conn := c\<rparr>)
               | Inl (e, rejected) \<Rightarrow>
                   if rejected then Inl (finalize st EosError e c)
                   else Inr (st\<lparr>rs_reason := (if e = [] then ''resume failed'' else e), rs_armed := False, rs_conn := c\<rparr>))
           }
     }"

definition resume_retry ::
  "Lib \<Rightarrow> SessionInfo \<Rightarrow> 'h ResumeState \<Rightarrow> ('h download + 'h ResumeState) option" where
  "resume_retry L info st =
     (if kMaxResumeAttempts \<le> rs_attempts st then
        Some (Inl (finalize st EosUnset (''reconnect failed after '' @ nat_str kMaxResumeAttempts @ '' attempts: '' @
          (if rs_reason st = [] then ''transport drop'' else rs_reason st)) (rs_conn st)))
      else do {
        (expired, c) \<leftarrow> sessionDeadlineExpired L (rs_conn st);
        if expired then Some (Inl (finalize st EosCancelled [] c))
        else do {
          c \<leftarrow> sync L c;
          (woken, c) \<leftarrow> wait_for L (cappedToDeadline c (kResumeBackoffMs ! rs_attempts st)) cancel_requested c;
          (cancelled, c) \<leftarrow> read_cancel L c;
          if cancelled then Some (Inl (finalize st EosCancelled [] c))
          else do {
            (expired, c) \<leftarrow> sessionDeadlineExpired L c;
            if expired then Some (Inl (finalize st EosCancelled [] c))
            else do {
              (cancelled, c) \<leftarrow> read_cancel L c;
              let st = st\<lparr>rs_attempts := rs_attempts st + 1, rs_conn := c\<rparr>;
              if cancelled then Some (Inl (finalize st EosCancelled [] c)) else reconnect L info st
            }
          }
        }
      })"

definition resume_step ::
  "Lib \<Rightarrow> SessionInfo \<Rightarrow> 'h handler \<Rightarrow> 'h ResumeState \<Rightarrow> ('h download + 'h ResumeState) option" where
  "resume_step L info f st =
     do {
       x \<leftarrow> (if rs_armed st then resume_leg L info f st else Some (Inr st));
       case x of Inl r \<Rightarrow> Some (Inl r) | Inr st \<Rightarrow> resume_retry L info st
     }"

definition downloadSessionResumable ::
  "Lib \<Rightarrow> SessionInfo \<Rightarrow> 'h handler \<Rightarrow> 'h \<Rightarrow> Conn \<Rightarrow> 'h download option" where
  "downloadSessionResumable L info f h c =
     (if \<not> has_socket c then Some (no_stats\<lparr>stats_error := ''not connected''\<rparr>, h, c)
      else loop (resume_step L info f)
        \<lparr>rs_total = no_stats, rs_cursor = 0, rs_attempts = 0, rs_reason = [], rs_armed = True,
         rs_handler = h, rs_conn = c\<rparr>)"

end
