(* ===== verification/Session_Download.thy ===== *)
theory Session_Download
  imports Session_Stream
begin

text \<open>
  What a download delivers. The lemmas follow the code from the inside out: a call of the frame
  loop is quiet, that is it sends only stream control; a round of the loop takes no batch or the
  next one (\<open>round_ok\<close>); a leg hands over consecutive batches or is cut off by the handler
  (\<open>leg_ok\<close>); the reconnects keep the session (\<open>in_session\<close>); and the loop over the legs keeps
  \<open>resume_inv\<close>, from which the properties of \<open>downloadSessionResumable\<close> follow.
\<close>

section \<open>Quiet steps\<close>

text \<open>
  The frame loop sends nothing but acknowledgements and cancellations of its own subscription and
  does not change the session.
\<close>

fun stream_control :: "SessionInfo \<Rightarrow> ClientPayload \<Rightarrow> bool" where
  "stream_control info (CmAck sub n) \<longleftrightarrow> sub = inf_subscription_id info"
| "stream_control info (CmCancel sub) \<longleftrightarrow> sub = inf_subscription_id info"
| "stream_control info _ \<longleftrightarrow> False"

definition quiet :: "Lib \<Rightarrow> string set \<Rightarrow> SessionInfo \<Rightarrow> Conn \<Rightarrow> Conn \<Rightarrow> bool" where
  "quiet L S info c c' \<longleftrightarrow> evolves L S c c' \<and> session_subscription_id c' = session_subscription_id c \<and>
     (\<exists>ms. sent c' = sent c @ ms \<and> (\<forall>m \<in> set ms. stream_control info (cm_payload m)))"

lemma quiet_refl [simp]: "quiet L S info c c"
  by (simp add: quiet_def)

lemma quiet_trans:
  assumes "quiet L S info a b" and "quiet L S info b c"
  shows "quiet L S info a c"
proof -
  obtain ms ns where "sent b = sent a @ ms" "sent c = sent b @ ns"
    "\<forall>m \<in> set ms. stream_control info (cm_payload m)" "\<forall>m \<in> set ns. stream_control info (cm_payload m)"
    using assms unfolding quiet_def by blast
  then have "sent c = sent a @ (ms @ ns)" "\<forall>m \<in> set (ms @ ns). stream_control info (cm_payload m)" by auto
  moreover have "evolves L S a c" using assms evolves_trans unfolding quiet_def by blast
  ultimately show ?thesis using assms unfolding quiet_def by metis
qed

lemma waits_quiet: "waits L n c c' \<Longrightarrow> quiet L S info c c'"
  using waits_evolves [of L n c c' S] waits_worker [of L n c c'] by (auto simp: quiet_def worker_def)

lemmas sync_quiet = waits_quiet [OF sync_waits]

lemma quiet_inbox [simp]: "quiet L S info c (c\<lparr>session_inbox := []\<rparr>)"
  by (auto simp: quiet_def evolves_def replies_ok_def inbox_ok_def)

lemma quiet_finish: "quiet L S info c (finish_session c)"
  unfolding quiet_def evolves_def finish_session_def by (simp add: inbox_ok_def, simp add: replies_ok_def)

lemma read_cancel_quiet: "read_cancel L c = Some (b, c') \<Longrightarrow> quiet L S info c c'"
  by (auto simp: read_cancel_def bind_eq_Some_conv intro: sync_quiet)

lemma deadline_quiet: "sessionDeadlineExpired L c = Some (b, c') \<Longrightarrow> quiet L S info c c'"
  by (auto simp: sessionDeadlineExpired_def bind_eq_Some_conv intro: sync_quiet)

lemma quiet_sent: "stream_control info p \<Longrightarrow> quiet L S info c (c\<lparr>sent := sent c @ [\<lparr>cm_request_id = i, cm_payload = p\<rparr>]\<rparr>)"
  by (auto simp: quiet_def)

lemma sendFrame_quiet:
  assumes "sendFrame L p c = Some (b, c')" and "stream_control info p"
  shows "quiet L S info c c'"
proof (cases "has_socket c \<and> serialize_client L \<lparr>cm_request_id = 0, cm_payload = p\<rparr> \<noteq> None")
  case False
  with assms(1) have "c' = c" by (auto simp: sendFrame_def Let_def split: if_splits option.splits)
  then show ?thesis by simp
next
  case True
  then obtain c1 where c1: "sync L c = Some c1"
    and k: "(if socket_closed c1 then Some (False, c1)
         else do {
           c \<leftarrow> sync L c1;
           if \<not> link_ok c then Some (False, c)
           else Some (True, c\<lparr>sent := sent c @ [\<lparr>cm_request_id = 0, cm_payload = p\<rparr>]\<rparr>)
         }) = Some (b, c')"
    using assms(1) by (auto simp: sendFrame_def bind_eq_Some_conv)
  show ?thesis
  proof (cases "socket_closed c1")
    case True
    with k c1 show ?thesis by (auto intro: sync_quiet)
  next
    case False
    with k obtain c2 where c2: "sync L c1 = Some c2"
      and "c' = c2 \<or> c' = c2\<lparr>sent := sent c2 @ [\<lparr>cm_request_id = 0, cm_payload = p\<rparr>]\<rparr>"
      by (auto simp: bind_eq_Some_conv split: if_splits)
    then have "quiet L S info c2 c'" using quiet_sent [OF assms(2)] by auto
    with quiet_trans [OF sync_quiet [OF c1] sync_quiet [OF c2]] show ?thesis by (rule quiet_trans)
  qed
qed

lemma send_ack_quiet: "send_ack L info n c = Some c' \<Longrightarrow> quiet L S info c c'"
  by (auto simp: send_ack_def intro: sendFrame_quiet)

lemma send_cancel_quiet: "send_cancel L info c = Some c' \<Longrightarrow> quiet L S info c c'"
  by (auto simp: send_cancel_def intro: sendFrame_quiet)

lemmas quiet_steps = sync_quiet read_cancel_quiet deadline_quiet send_ack_quiet send_cancel_quiet quiet_finish

lemma waitSessionFrame_spec:
  assumes "waitSessionFrame L t c = Some (r, c')"
  shows "quiet L S info c c' \<and>
     (\<forall>m. r = Some m \<longrightarrow> frames (script c) \<subseteq> S \<longrightarrow> inbox_ok L S c \<longrightarrow> session_frame L S (session_subscription_id c) m)"
proof -
  obtain g c1 where w: "wait_for L t (\<lambda>c. socket_closed c \<or> session_inbox c \<noteq> [] \<or> cancel_requested c) c = Some (g, c1)"
    and r: "(r, c') = (if \<not> g then (None, c1)
         else case session_inbox c1 of [] \<Rightarrow> (None, c1) | m # ms \<Rightarrow> (Some m, c1\<lparr>session_inbox := ms\<rparr>))"
    using assms by (auto simp: waitSessionFrame_def bind_eq_Some_conv)
  have q: "quiet L S info c c1" using waits_quiet [OF conjunct1 [OF wait_for_waits [OF w]]] .
  show ?thesis
  proof (cases "r = None")
    case True
    with r have "c' = c1" by (auto split: if_splits list.splits)
    with q True show ?thesis by simp
  next
    case False
    with r obtain m ms where m: "session_inbox c1 = m # ms" "r = Some m" "c' = c1\<lparr>session_inbox := ms\<rparr>"
      by (auto split: if_splits list.splits)
    have "quiet L S info c1 c'"
      using m unfolding quiet_def evolves_def by (simp add: inbox_ok_def, simp add: replies_ok_def)
    with q have "quiet L S info c c'" by (rule quiet_trans)
    moreover have "session_frame L S (session_subscription_id c) m"
      if "frames (script c) \<subseteq> S" "inbox_ok L S c"
      using q that m(1) by (auto simp: quiet_def evolves_def inbox_ok_def)
    ultimately show ?thesis using m(2) by auto
  qed
qed

section \<open>One round of the frame loop\<close>

definition decoded :: "Lib \<Rightarrow> MessageBatch \<Rightarrow> DecodedMessage list" where
  "decoded L b = (case decodeBatch (codecs L) b kMaxDecodedBatchBytes of Inr ds \<Rightarrow> ds | Inl _ \<Rightarrow> [])"

text \<open>A batch that was received on the subscription and can be decoded.\<close>

definition good_batch :: "Lib \<Rightarrow> string set \<Rightarrow> u64 \<Rightarrow> MessageBatch \<Rightarrow> bool" where
  "good_batch L S sub b \<longleftrightarrow> (\<exists>m. session_frame L S sub m \<and> sm_payload m = SmBatch b) \<and>
     decodeBatch (codecs L) b kMaxDecodedBatchBytes = Inr (decoded L b)"

text \<open>
  What a round does to the download: nothing, or it hands over the messages of the next batch.
  The state of the download is its cursor, its handler and its counters.
\<close>

type_synonym 'h position = "u64 \<times> 'h \<times> SessionStats"

definition takes_batch ::
  "Lib \<Rightarrow> string set \<Rightarrow> u64 \<Rightarrow> 'h handler \<Rightarrow> 'h position \<Rightarrow> bool \<Rightarrow> 'h position \<Rightarrow> bool" where
  "takes_batch L S sub f p aborted p' \<longleftrightarrow>
     (case (p, p') of ((n, h, s), (n', h', s')) \<Rightarrow>
        \<exists>b s1. good_batch L S sub b \<and> n' = n + 1 \<and> mb_seq b = n' \<and> feed f h s (decoded L b) = (aborted, h', s1) \<and>
          messages_received s' = messages_received s1 \<and> batches_received s' = batches_received s1 + 1)"

definition idle :: "'h position \<Rightarrow> 'h position \<Rightarrow> bool" where
  "idle p p' \<longleftrightarrow> (case (p, p') of ((n, h, s), (n', h', s')) \<Rightarrow>
     n' = n \<and> h' = h \<and> messages_received s' = messages_received s \<and> batches_received s' = batches_received s)"

definition state_pos :: "'h FrameState \<Rightarrow> 'h position" where
  "state_pos st = (fl_last_seq st, fl_handler st, fl_stats st)"

definition result_pos :: "'h FrameLoopResult \<Rightarrow> 'h position" where
  "result_pos r = (flr_last_seq r, flr_handler r, flr_stats r)"

text \<open>The server has announced the end of the stream.\<close>

definition completed :: "Lib \<Rightarrow> string set \<Rightarrow> u64 \<Rightarrow> bool" where
  "completed L S sub \<longleftrightarrow>
     (\<exists>m e. session_frame L S sub m \<and> sm_payload m = SmEos e \<and> eos_reason e = EOS_COMPLETE)"

lemma eos_outcome_complete: "eos_outcome x = (EosComplete, err) \<Longrightarrow> x = EOS_COMPLETE"
  by (cases x) auto

definition round_ok ::
  "Lib \<Rightarrow> string set \<Rightarrow> SessionInfo \<Rightarrow> u64 \<Rightarrow> 'h handler \<Rightarrow> Conn \<Rightarrow> 'h position \<Rightarrow> 'h FrameLoopResult + 'h FrameState \<Rightarrow> bool" where
  "round_ok L S info sub f c p x \<longleftrightarrow>
     (case x of
        Inr st \<Rightarrow> quiet L S info c (fl_conn st) \<and> (idle p (state_pos st) \<or> takes_batch L S sub f p False (state_pos st))
      | Inl r \<Rightarrow> quiet L S info c (flr_conn r) \<and> (eos (flr_stats r) = EosComplete \<longrightarrow> completed L S sub) \<and>
          (idle p (result_pos r) \<or>
           takes_batch L S sub f p True (result_pos r) \<and> eos (flr_stats r) = EosCancelled \<and> \<not> flr_resumable r))"

lemma idle_leg_end:
  "quiet L S info c c' \<Longrightarrow> (e = EosComplete \<Longrightarrow> completed L S sub) \<Longrightarrow>
   round_ok L S info sub f c (state_pos st) (Inl (leg_end st e err c'))"
  using quiet_trans [OF _ quiet_finish]
  by (auto simp: round_ok_def leg_end_def idle_def state_pos_def result_pos_def)

lemma no_frame_ok:
  assumes "no_frame L info st c = Some r"
  shows "round_ok L S info sub f c (state_pos st) (Inl r)"
proof -
  obtain e c1 b c2 where s: "sessionDeadlineExpired L c = Some (e, c1)"
      "(if e then Some (True, c1) else read_cancel L c1) = Some (b, c2)"
    and r: "(if e \<or> b then do {
         c \<leftarrow> (if fl_cancel_sent st then Some c2 else send_cancel L info c2);
         Some (leg_end st EosCancelled [] c)
       }
       else Some \<lparr>flr_stats = (fl_stats st)\<lparr>eos := EosUnset,
           stats_error := ''session frame timeout or socket closed mid-stream''\<rparr>,
         flr_resumable = True, flr_last_seq = fl_last_seq st, flr_handler = fl_handler st, flr_conn = c2\<rparr>) = Some r"
    using assms by (auto simp: no_frame_def bind_eq_Some_conv)
  have "quiet L S info c1 c2" using s(2) by (auto intro: read_cancel_quiet split: if_splits)
  with s(1) have q: "quiet L S info c c2" by (blast intro: quiet_trans deadline_quiet)
  show ?thesis
  proof (cases "e \<or> b")
    case True
    with r obtain c3 where c3: "(if fl_cancel_sent st then Some c2 else send_cancel L info c2) = Some c3"
      "r = leg_end st EosCancelled [] c3" by (auto simp: bind_eq_Some_conv)
    have "quiet L S info c2 c3" using c3(1) by (auto intro: send_cancel_quiet split: if_splits)
    then show ?thesis unfolding c3(2) by (intro idle_leg_end quiet_trans [OF q]) simp_all
  next
    case False
    with r q show ?thesis by (auto simp: round_ok_def idle_def state_pos_def result_pos_def)
  qed
qed

lemma acknowledge_quiet:
  assumes "acknowledge L info st = Some st'"
  shows "quiet L S info (fl_conn st) (fl_conn st') \<and> state_pos st' = state_pos st"
proof -
  obtain c where c: "sync L (fl_conn st) = Some c" using assms by (auto simp: acknowledge_def bind_eq_Some_conv)
  show ?thesis
  proof (cases "kAckEveryBatches \<le> fl_since_ack st \<or> kAckEveryDur \<le> now c - fl_last_ack st")
    case True
    with assms c obtain c1 c2 where s: "send_ack L info (fl_last_seq st) c = Some c1" "sync L c1 = Some c2"
      and "st' = st\<lparr>fl_since_ack := 0, fl_last_ack := now c2, fl_conn := c2\<rparr>"
      by (auto simp: acknowledge_def bind_eq_Some_conv)
    moreover have "quiet L S info (fl_conn st) c2"
      by (rule quiet_trans [OF sync_quiet [OF c] quiet_trans [OF send_ack_quiet [OF s(1)] sync_quiet [OF s(2)]]])
    ultimately show ?thesis by (simp add: state_pos_def)
  next
    case False
    with assms c show ?thesis by (auto simp: acknowledge_def state_pos_def intro: sync_quiet)
  qed
qed

lemma test_drop_quiet: "quiet L S info (fl_conn st) (fl_conn (test_drop first st)) \<and> state_pos (test_drop first st) = state_pos st"
  unfolding test_drop_def quiet_def evolves_def state_pos_def by (simp add: Let_def, simp add: inbox_ok_def replies_ok_def)

lemma handle_batch_ok:
  assumes "handle_batch L info f first st b c = Some x" and "session_frame L S sub m" and "sm_payload m = SmBatch b"
  shows "round_ok L S info sub f c (state_pos st) x"
proof -
  consider (gap) "mb_seq b \<noteq> fl_last_seq st + 1"
    | (corrupt) e where "mb_seq b = fl_last_seq st + 1" "decodeBatch (codecs L) b kMaxDecodedBatchBytes = Inl e"
    | (good) "mb_seq b = fl_last_seq st + 1" "decodeBatch (codecs L) b kMaxDecodedBatchBytes = Inr (decoded L b)"
    by (cases "decodeBatch (codecs L) b kMaxDecodedBatchBytes") (auto simp: decoded_def)
  then show ?thesis
  proof cases
    case good
    obtain ab h s where fd: "feed f (fl_handler st) (fl_stats st) (decoded L b) = (ab, h, s)" by (metis prod_cases3)
    define st1 where "st1 = st\<lparr>fl_stats := s\<lparr>batches_received := batches_received s + 1\<rparr>, fl_last_seq := mb_seq b, fl_handler := h\<rparr>"
    have tk: "takes_batch L S sub f (state_pos st) ab (state_pos st1)"
      using good assms(2,3) fd by (auto simp: takes_batch_def state_pos_def st1_def good_batch_def)
    show ?thesis
    proof (cases ab)
      case True
      then obtain c1 where c1: "send_cancel L info c = Some c1" "x = Inl (leg_end st1 EosCancelled ''download aborted by sink'' c1)"
        using assms(1) good fd by (auto simp: handle_batch_def st1_def bind_eq_Some_conv)
      have "takes_batch L S sub f (state_pos st) True (result_pos (leg_end st1 EosCancelled ''download aborted by sink'' c1))"
        using tk True by (simp add: takes_batch_def state_pos_def result_pos_def leg_end_def)
      with c1 quiet_trans [OF send_cancel_quiet [OF c1(1)] quiet_finish, of S] show ?thesis
        by (simp add: round_ok_def leg_end_def)
    next
      case False
      then obtain st2 where st2: "acknowledge L info (st1\<lparr>fl_since_ack := fl_since_ack st1 + 1, fl_conn := c\<rparr>) = Some st2"
        "x = Inr (test_drop first st2)"
        using assms(1) good fd by (auto simp: handle_batch_def st1_def bind_eq_Some_conv)
      have "state_pos (test_drop first st2) = state_pos st1" "quiet L S info c (fl_conn (test_drop first st2))"
        using acknowledge_quiet [OF st2(1), of S] test_drop_quiet [of L S info st2 first]
        by (auto simp: state_pos_def intro: quiet_trans)
      with tk False st2(2) show ?thesis by (simp add: round_ok_def)
    qed
  qed (use assms(1) in \<open>auto simp: handle_batch_def bind_eq_Some_conv intro: idle_leg_end send_cancel_quiet\<close>)
qed

lemma handle_frame_ok:
  assumes "handle_frame L info f first st m c = Some x" and "session_frame L S sub m"
  shows "round_ok L S info sub f c (state_pos st) x"
proof (cases "sm_payload m")
  case (SmBatch b)
  with assms show ?thesis by (auto simp: handle_frame_def intro: handle_batch_ok)
next
  case (SmEos e)
  obtain r err where o: "eos_outcome (eos_reason e) = (r, err)" by fastforce
  with SmEos assms obtain c1 where c1: "send_ack L info (fl_last_seq st) c = Some c1"
      "x = Inl (leg_end (st\<lparr>fl_stats := (fl_stats st)\<lparr>eos_total_messages_sent := eos_messages_sent e,
         eos_total_bytes_sent := eos_bytes_sent e\<rparr>\<rparr>) r err c1)" (is "x = Inl (leg_end ?st r err c1)")
    by (auto simp: handle_frame_def handle_eos_def bind_eq_Some_conv)
  have "completed L S sub" if "r = EosComplete"
    using assms(2) SmEos o that eos_outcome_complete unfolding completed_def by blast
  then have "round_ok L S info sub f c (state_pos ?st) x"
    unfolding c1(2) by (intro idle_leg_end [OF send_ack_quiet [OF c1(1)]])
  then show ?thesis using c1(2) by (auto simp: round_ok_def idle_def takes_batch_def state_pos_def result_pos_def leg_end_def)
next
  case (SmError e)
  with assms show ?thesis by (auto simp: handle_frame_def intro: idle_leg_end)
qed (use assms in \<open>auto simp: handle_frame_def round_ok_def idle_def state_pos_def\<close>)

lemma frame_step_ok:
  assumes "frame_step L info f first st = Some x"
    and "frames (script (fl_conn st)) \<subseteq> S" and "inbox_ok L S (fl_conn st)"
  shows "round_ok L S info (session_subscription_id (fl_conn st)) f (fl_conn st) (state_pos st) x"
proof -
  obtain b c1 c2 e c3 where s: "read_cancel L (fl_conn st) = Some (b, c1)"
      "(if b \<and> \<not> fl_cancel_sent st then send_cancel L info c1 else Some c1) = Some c2"
      "sessionDeadlineExpired L c2 = Some (e, c3)"
    using assms(1) by (auto simp: frame_step_def bind_eq_Some_conv Let_def)
  define st1 where "st1 = st\<lparr>fl_cancel_sent := (fl_cancel_sent st \<or> b)\<rparr>"
  have p: "state_pos st = state_pos st1" by (simp add: st1_def state_pos_def)
  have "quiet L S info c1 c2" using s(2) by (auto intro: send_cancel_quiet split: if_splits)
  then have q3: "quiet L S info (fl_conn st) c3"
    using quiet_trans [OF read_cancel_quiet [OF s(1)]] quiet_trans [OF _ deadline_quiet [OF s(3)]] by blast
  have lift: "round_ok L S info sub f (fl_conn st) q y" if "quiet L S info (fl_conn st) c" "round_ok L S info sub f c q y" for sub q y c
    using that quiet_trans [OF that(1)] by (auto simp: round_ok_def split: sum.splits)
  show ?thesis
  proof (cases e)
    case True
    then obtain c4 where "send_cancel L info c3 = Some c4" "x = Inl (leg_end st1 EosCancelled [] c4)"
      using assms(1) s by (auto simp: frame_step_def st1_def bind_eq_Some_conv Let_def)
    then show ?thesis unfolding p using quiet_trans [OF q3 send_cancel_quiet] by (auto intro: idle_leg_end)
  next
    case False
    then have "next_frame L info f first st1 c3 = Some x"
      using assms(1) s by (auto simp: frame_step_def st1_def Let_def)
    then obtain c4 fr c5 where w: "sync L c3 = Some c4" "waitSessionFrame L (cappedToDeadline c4 kFrameTimeout) c4 = Some (fr, c5)"
      and x: "(case fr of None \<Rightarrow> map_option Inl (no_frame L info st1 c5) | Some m \<Rightarrow> handle_frame L info f first st1 m c5) = Some x"
      by (auto simp: next_frame_def bind_eq_Some_conv)
    have q4: "quiet L S info (fl_conn st) c4" by (rule quiet_trans [OF q3 sync_quiet [OF w(1)]])
    note ws = waitSessionFrame_spec [OF w(2), of S info]
    have q5: "quiet L S info (fl_conn st) c5" using quiet_trans [OF q4] ws by blast
    have fr: "session_frame L S (session_subscription_id (fl_conn st)) m" if "fr = Some m" for m
      using ws that q4 assms(2,3) by (auto simp: quiet_def evolves_def)
    show ?thesis unfolding p
    proof (rule lift [OF q5], cases fr)
      case None
      with x obtain r where "no_frame L info st1 c5 = Some r" "x = Inl r" by auto
      then show "round_ok L S info (session_subscription_id (fl_conn st)) f c5 (state_pos st1) x" by (simp add: no_frame_ok)
    next
      case (Some m)
      with x have "handle_frame L info f first st1 m c5 = Some x" by simp
      then show "round_ok L S info (session_subscription_id (fl_conn st)) f c5 (state_pos st1) x"
        by (rule handle_frame_ok) (rule fr [OF Some])
    qed
  qed
qed

section \<open>What is handed over\<close>

fun accepts :: "'h handler \<Rightarrow> 'h \<Rightarrow> DecodedMessage list \<Rightarrow> bool" where
  "accepts f h [] \<longleftrightarrow> True"
| "accepts f h (m # ms) \<longleftrightarrow> fst (f h m) \<and> accepts f (snd (f h m)) ms"

definition handler_after :: "'h handler \<Rightarrow> 'h \<Rightarrow> DecodedMessage list \<Rightarrow> 'h" where
  "handler_after f h ms = foldl (\<lambda>h m. snd (f h m)) h ms"

lemma handler_after_simps [simp]:
  "handler_after f h [] = h" "handler_after f h (m # ms) = handler_after f (snd (f h m)) ms"
  "handler_after f h (xs @ ys) = handler_after f (handler_after f h xs) ys"
  by (simp_all add: handler_after_def)

lemma accepts_append [simp]: "accepts f h (xs @ ys) \<longleftrightarrow> accepts f h xs \<and> accepts f (handler_after f h xs) ys"
  by (induction xs arbitrary: h) auto

text \<open>The handler refuses the message at position \<open>k\<close> and is left in \<open>h'\<close>.\<close>

definition stops_at :: "'h handler \<Rightarrow> 'h \<Rightarrow> DecodedMessage list \<Rightarrow> nat \<Rightarrow> 'h \<Rightarrow> bool" where
  "stops_at f h ms k h' \<longleftrightarrow> k < length ms \<and> accepts f h (take k ms) \<and>
     \<not> fst (f (handler_after f h (take k ms)) (ms ! k)) \<and> h' = handler_after f h (take (Suc k) ms)"

lemma stops_at_append:
  "accepts f h xs \<Longrightarrow> stops_at f (handler_after f h xs) ys k h' \<Longrightarrow> stops_at f h (xs @ ys) (length xs + k) h'"
  by (simp add: stops_at_def)

lemma stops_at_Cons:
  "fst (f h m) \<Longrightarrow> stops_at f (snd (f h m)) ms k h' \<Longrightarrow> stops_at f h (m # ms) (Suc k) h'"
  by (simp add: stops_at_def)

lemma feed_all:
  "feed f h s ms = (False, h', s') \<Longrightarrow>
     accepts f h ms \<and> h' = handler_after f h ms \<and> batches_received s' = batches_received s \<and>
     messages_received s' = messages_received s + of_nat (length ms)"
  by (induction ms arbitrary: h s) (auto simp: Let_def split: prod.splits if_splits)

lemma feed_cut:
  "feed f h s ms = (True, h', s') \<Longrightarrow> \<exists>k. stops_at f h ms k h' \<and>
     batches_received s' = batches_received s \<and> messages_received s' = messages_received s + of_nat k"
proof (induction ms arbitrary: h s)
  case (Cons m ms)
  show ?case
  proof (cases "fst (f h m)")
    case True
    then have "feed f (snd (f h m)) (s\<lparr>messages_received := messages_received s + 1,
        bytes_received := bytes_received s + of_nat (length (dm_payload m))\<rparr>) ms = (True, h', s')"
      using Cons.prems by (simp add: Let_def split: prod.splits)
    from Cons.IH [OF this] obtain k where k: "stops_at f (snd (f h m)) ms k h'"
      "batches_received s' = batches_received s" "messages_received s' = messages_received s + 1 + of_nat k"
      by auto
    with stops_at_Cons [OF True k(1)] show ?thesis by (intro exI [of _ "Suc k"]) simp
  next
    case False
    with Cons.prems show ?thesis
      by (intro exI [of _ 0]) (auto simp: stops_at_def Let_def split: prod.splits)
  qed
qed simp

text \<open>Batches with consecutive numbers after \<open>n\<close>.\<close>

definition in_order :: "Lib \<Rightarrow> string set \<Rightarrow> u64 \<Rightarrow> u64 \<Rightarrow> MessageBatch list \<Rightarrow> bool" where
  "in_order L S sub n bs \<longleftrightarrow> (\<forall>b \<in> set bs. good_batch L S sub b) \<and>
     map mb_seq bs = map (\<lambda>i. n + of_nat (Suc i)) [0..<length bs]"

definition messages_of :: "Lib \<Rightarrow> MessageBatch list \<Rightarrow> DecodedMessage list" where
  "messages_of L bs = concat (map (decoded L) bs)"

lemma messages_of_simps [simp]:
  "messages_of L [] = []" "messages_of L (xs @ ys) = messages_of L xs @ messages_of L ys" "messages_of L [b] = decoded L b"
  by (simp_all add: messages_of_def)

lemma in_order_append:
  assumes "in_order L S sub n xs" and "in_order L S sub (n + of_nat (length xs)) ys"
  shows "in_order L S sub n (xs @ ys)"
proof -
  have "map (\<lambda>i. n + of_nat (length xs) + of_nat (Suc i)) [0..<length ys] =
      map (\<lambda>i. n + of_nat (Suc i)) [length xs..<length xs + length ys]"
    by (rule nth_equalityI) (simp_all add: algebra_simps)
  moreover have "[0..<length xs + length ys] = [0..<length xs] @ [length xs..<length xs + length ys]"
    using upt_add_eq_append [of 0 "length xs" "length ys"] by simp
  ultimately show ?thesis using assms unfolding in_order_def by (simp add: ball_Un)
qed

lemma in_order_one: "good_batch L S sub b \<Longrightarrow> mb_seq b = n + 1 \<Longrightarrow> in_order L S sub n [b]"
  by (simp add: in_order_def)

definition handed_over ::
  "Lib \<Rightarrow> string set \<Rightarrow> u64 \<Rightarrow> 'h handler \<Rightarrow> 'h position \<Rightarrow> MessageBatch list \<Rightarrow> 'h position \<Rightarrow> bool" where
  "handed_over L S sub f p bs p' \<longleftrightarrow>
     (case (p, p') of ((n, h, s), (n', h', s')) \<Rightarrow>
        in_order L S sub n bs \<and> n' = n + of_nat (length bs) \<and>
        accepts f h (messages_of L bs) \<and> h' = handler_after f h (messages_of L bs) \<and>
        messages_received s' = messages_received s + of_nat (length (messages_of L bs)) \<and>
        batches_received s' = batches_received s + of_nat (length bs))"

definition cut_off ::
  "Lib \<Rightarrow> string set \<Rightarrow> u64 \<Rightarrow> 'h handler \<Rightarrow> 'h position \<Rightarrow> MessageBatch list \<Rightarrow> 'h position \<Rightarrow> bool" where
  "cut_off L S sub f p bs p' \<longleftrightarrow>
     (case (p, p') of ((n, h, s), (n', h', s')) \<Rightarrow>
        in_order L S sub n bs \<and>
        (\<exists>k. stops_at f h (messages_of L bs) k h' \<and> messages_received s' = messages_received s + of_nat k) \<and>
        batches_received s' = batches_received s + of_nat (length bs))"

lemma handed_over_refl [simp]: "handed_over L S sub f p [] p"
  by (cases p) (simp add: handed_over_def in_order_def)

lemma handed_over_trans:
  "handed_over L S sub f p bs q \<Longrightarrow> handed_over L S sub f q cs r \<Longrightarrow> handed_over L S sub f p (bs @ cs) r"
  by (auto simp: handed_over_def intro: in_order_append)

lemma handed_over_cut:
  assumes "handed_over L S sub f p bs q" and "cut_off L S sub f q cs r"
  shows "cut_off L S sub f p (bs @ cs) r"
proof -
  obtain n h s n1 h1 s1 n2 h2 s2 where pqr: "p = (n, h, s)" "q = (n1, h1, s1)" "r = (n2, h2, s2)" by (metis prod_cases3)
  from assms(1) pqr have 1: "in_order L S sub n bs" "n1 = n + of_nat (length bs)" "accepts f h (messages_of L bs)"
      "h1 = handler_after f h (messages_of L bs)"
      "messages_received s1 = messages_received s + of_nat (length (messages_of L bs))"
      "batches_received s1 = batches_received s + of_nat (length bs)"
    by (simp_all add: handed_over_def)
  from assms(2) pqr obtain k where 2: "in_order L S sub n1 cs" "stops_at f h1 (messages_of L cs) k h2"
      "messages_received s2 = messages_received s1 + of_nat k" "batches_received s2 = batches_received s1 + of_nat (length cs)"
    by (auto simp: cut_off_def)
  have "stops_at f h (messages_of L (bs @ cs)) (length (messages_of L bs) + k) h2"
    using stops_at_append [OF 1(3)] 1(4) 2(2) by simp
  moreover have "in_order L S sub n (bs @ cs)" using in_order_append 1(1,2) 2(1) by blast
  ultimately show ?thesis unfolding cut_off_def pqr using 1(5,6) 2(3,4)
    by (auto intro!: exI [of _ "length (messages_of L bs) + k"])
qed

lemma idle_handed: "idle p q \<Longrightarrow> handed_over L S sub f p [] q"
  by (auto simp: idle_def handed_over_def in_order_def)

lemma takes_handed:
  assumes "takes_batch L S sub f p False q"
  shows "\<exists>b. handed_over L S sub f p [b] q"
proof -
  obtain n h s n' h' s' where pq: "p = (n, h, s)" "q = (n', h', s')" by (metis prod_cases3)
  with assms obtain b s1 where b: "good_batch L S sub b" "n' = n + 1" "mb_seq b = n'"
      "feed f h s (decoded L b) = (False, h', s1)" "messages_received s' = messages_received s1"
      "batches_received s' = batches_received s1 + 1"
    by (auto simp: takes_batch_def)
  with feed_all [OF b(4)] pq show ?thesis by (auto simp: handed_over_def intro: in_order_one)
qed

lemma takes_cut:
  assumes "takes_batch L S sub f p True q"
  shows "\<exists>b. cut_off L S sub f p [b] q"
proof -
  obtain n h s n' h' s' where pq: "p = (n, h, s)" "q = (n', h', s')" by (metis prod_cases3)
  with assms obtain b s1 where b: "good_batch L S sub b" "n' = n + 1" "mb_seq b = n'"
      "feed f h s (decoded L b) = (True, h', s1)" "messages_received s' = messages_received s1"
      "batches_received s' = batches_received s1 + 1"
    by (auto simp: takes_batch_def)
  from feed_cut [OF b(4)] obtain k where "stops_at f h (decoded L b) k h'"
      "batches_received s1 = batches_received s" "messages_received s1 = messages_received s + of_nat k" by blast
  then show ?thesis using b in_order_one [OF b(1), of n] pq
    by (auto simp: cut_off_def intro!: exI [of _ b])
qed

section \<open>One leg\<close>

definition leg_ok ::
  "Lib \<Rightarrow> string set \<Rightarrow> SessionInfo \<Rightarrow> u64 \<Rightarrow> 'h handler \<Rightarrow> Conn \<Rightarrow> 'h position \<Rightarrow> 'h FrameLoopResult \<Rightarrow> bool" where
  "leg_ok L S info sub f c p r \<longleftrightarrow> quiet L S info c (flr_conn r) \<and>
     (eos (flr_stats r) = EosComplete \<longrightarrow> completed L S sub) \<and>
     (\<exists>bs. handed_over L S sub f p bs (result_pos r) \<or>
        cut_off L S sub f p bs (result_pos r) \<and> eos (flr_stats r) = EosCancelled \<and> \<not> flr_resumable r)"

lemma runFrameLoop_ok:
  assumes "runFrameLoop L info f n first h c = Some r" and "frames (script c) \<subseteq> S" and "inbox_ok L S c"
  shows "leg_ok L S info (session_subscription_id c) f c (n, h, no_stats) r"
proof -
  let ?sub = "session_subscription_id c" and ?p = "(n, h, no_stats)"
  let ?I = "\<lambda>st. quiet L S info c (fl_conn st) \<and> (\<exists>bs. handed_over L S ?sub f ?p bs (state_pos st))"
  obtain c1 where c1: "sync L c = Some c1"
    and lp: "loop (frame_step L info f first)
         \<lparr>fl_stats = no_stats, fl_last_seq = n, fl_since_ack = 0, fl_last_ack = now c1, fl_pass = 0,
          fl_cancel_sent = False, fl_handler = h, fl_conn = c1\<rparr> = Some r"
    using assms(1) by (auto simp: runFrameLoop_def bind_eq_Some_conv)
  have conn: "frames (script c') \<subseteq> S \<and> inbox_ok L S c' \<and> session_subscription_id c' = ?sub" if "quiet L S info c c'" for c'
    using that assms(2,3) by (auto simp: quiet_def evolves_def)
  have step: "round_ok L S info ?sub f (fl_conn st) (state_pos st) x" if "?I st" "frame_step L info f first st = Some x" for st x
  proof -
    have "frames (script (fl_conn st)) \<subseteq> S" "inbox_ok L S (fl_conn st)" "session_subscription_id (fl_conn st) = ?sub"
      using conn [OF conjunct1 [OF that(1)]] by blast+
    with frame_step_ok [OF that(2)] show ?thesis by metis
  qed
  show ?thesis
  proof (rule loop_invariant [OF lp, where I = ?I])
    show "?I \<lparr>fl_stats = no_stats, fl_last_seq = n, fl_since_ack = 0, fl_last_ack = now c1, fl_pass = 0,
          fl_cancel_sent = False, fl_handler = h, fl_conn = c1\<rparr>"
      using sync_quiet [OF c1] by (auto simp: state_pos_def intro: exI [of _ "[]"])
  next
    fix st st' assume I: "?I st" and s: "frame_step L info f first st = Some (Inr st')"
    from step [OF I s] have "quiet L S info (fl_conn st) (fl_conn st')"
      and "\<exists>bs. handed_over L S ?sub f (state_pos st) bs (state_pos st')"
      unfolding round_ok_def by (auto dest: idle_handed takes_handed)
    with I show "?I st'" by (blast intro: quiet_trans handed_over_trans)
  next
    fix st r assume I: "?I st" and s: "frame_step L info f first st = Some (Inl r)"
    from step [OF I s] have "quiet L S info (fl_conn st) (flr_conn r)"
      and "eos (flr_stats r) = EosComplete \<longrightarrow> completed L S ?sub"
      and "\<exists>bs. handed_over L S ?sub f (state_pos st) bs (result_pos r) \<or>
        cut_off L S ?sub f (state_pos st) bs (result_pos r) \<and> eos (flr_stats r) = EosCancelled \<and> \<not> flr_resumable r"
      unfolding round_ok_def by (auto dest: idle_handed takes_cut)
    with I show "leg_ok L S info ?sub f c ?p r"
      unfolding leg_ok_def by (blast intro: quiet_trans handed_over_trans handed_over_cut)
  qed
qed

section \<open>Reconnects\<close>

fun is_resume :: "ClientPayload \<Rightarrow> bool" where
  "is_resume (CmOpenResume _ _) \<longleftrightarrow> True"
| "is_resume _ \<longleftrightarrow> False"

fun resume_control :: "SessionInfo \<Rightarrow> ClientPayload \<Rightarrow> bool" where
  "resume_control info (CmHello _ _ _ _) \<longleftrightarrow> True"
| "resume_control info (CmOpenResume sub _) \<longleftrightarrow> sub = inf_subscription_id info"
| "resume_control info p \<longleftrightarrow> stream_control info p"

text \<open>What the connection does during the download, with at most \<open>k\<close> resume requests sent.\<close>

definition in_session :: "Lib \<Rightarrow> string set \<Rightarrow> SessionInfo \<Rightarrow> nat \<Rightarrow> Conn \<Rightarrow> Conn \<Rightarrow> bool" where
  "in_session L S info k c c' \<longleftrightarrow> evolves L S c c' \<and> session_subscription_id c' = session_subscription_id c \<and>
     (\<exists>ms. sent c' = sent c @ ms \<and> (\<forall>m \<in> set ms. resume_control info (cm_payload m)) \<and>
        length (filter (is_resume \<circ> cm_payload) ms) \<le> k)"

lemma in_session_refl [simp]: "in_session L S info k c c"
  by (simp add: in_session_def)

lemma in_session_trans:
  assumes "in_session L S info j a b" and "in_session L S info k b c"
  shows "in_session L S info (j + k) a c"
proof -
  obtain ms ns where "sent b = sent a @ ms" "sent c = sent b @ ns"
    "\<forall>m \<in> set ms. resume_control info (cm_payload m)" "\<forall>m \<in> set ns. resume_control info (cm_payload m)"
    "length (filter (is_resume \<circ> cm_payload) ms) \<le> j" "length (filter (is_resume \<circ> cm_payload) ns) \<le> k"
    using assms unfolding in_session_def by blast
  then have "sent c = sent a @ (ms @ ns)" "\<forall>m \<in> set (ms @ ns). resume_control info (cm_payload m)"
    "length (filter (is_resume \<circ> cm_payload) (ms @ ns)) \<le> j + k" by auto
  moreover have "evolves L S a c" using assms evolves_trans unfolding in_session_def by blast
  ultimately show ?thesis using assms unfolding in_session_def by metis
qed

lemma stream_resume: "stream_control info p \<Longrightarrow> resume_control info p \<and> \<not> is_resume p"
  by (cases p) auto

lemma quiet_in_session:
  assumes "quiet L S info c c'"
  shows "in_session L S info 0 c c'"
proof -
  from assms obtain ms where ms: "sent c' = sent c @ ms" "\<forall>m \<in> set ms. stream_control info (cm_payload m)"
    unfolding quiet_def by blast
  then have "filter (is_resume \<circ> cm_payload) ms = []" by (auto simp: filter_empty_conv dest: stream_resume)
  moreover have "\<forall>m \<in> set ms. resume_control info (cm_payload m)" using ms(2) by (auto dest: stream_resume)
  ultimately show ?thesis using assms ms(1) unfolding in_session_def quiet_def by auto
qed

lemma quiet_session: "in_session L S info k a b \<Longrightarrow> quiet L S info b c \<Longrightarrow> in_session L S info k a c"
  using in_session_trans [OF _ quiet_in_session] by fastforce

lemma rpc_in_session:
  assumes "rpc_done L S req c r c'" and "resume_control info req"
  shows "in_session L S info (if is_resume req then 1 else 0) c c'"
proof -
  obtain i ms where w: "worker c' = worker (c\<lparr>next_request_id := i, sent := sent c @ ms\<rparr>)"
    and ms: "ms = [] \<or> ms = [\<lparr>cm_request_id = next_request_id c, cm_payload = req\<rparr>]" and e: "evolves L S c c'"
    using assms(1) unfolding rpc_done_def by blast
  have "sent c' = sent c @ ms" "session_subscription_id c' = session_subscription_id c" using w by (simp_all add: worker_def)
  with e ms assms(2) show ?thesis unfolding in_session_def by auto
qed

lemma fillHello_control [simp]: "resume_control info (fillHello c)" "\<not> is_resume (fillHello c)"
  by (simp_all add: fillHello_def)

lemma reconnectAndHello_session:
  assumes "reconnectAndHello L c = Some (r, c')"
  shows "in_session L S info 0 c c'"
proof -
  let ?c = "(drop_socket c)\<lparr>last_hello_error := HelloNone\<rparr>"
  obtain o1 c1 where b: "buildAndOpenSocket L ?c = Some (o1, c1)"
    using assms by (auto simp: reconnectAndHello_def bind_eq_Some_conv)
  note d = buildAndOpenSocket_done [OF b, of S]
  have "evolves L S c ?c" unfolding drop_socket_def by (rule evolves_trans [OF evolves_slot(5) evolves_slot(6)])
  then have e1: "evolves L S c c1" using d evolves_trans by blast
  have "sent c1 = sent c" "session_subscription_id c1 = session_subscription_id c"
    using d by (simp_all add: worker_def drop_socket_def)
  with e1 have s1: "in_session L S info 0 c c1" by (simp add: in_session_def)
  show ?thesis
  proof (cases o1)
    case (Inl e)
    with assms b s1 show ?thesis by (auto simp: reconnectAndHello_def)
  next
    case (Inr u)
    then obtain rep c2 where s: "sendAndWait L (fillHello c1) kRequestTimeout False c1 = Some (rep, c2)"
      using assms b by (auto simp: reconnectAndHello_def bind_eq_Some_conv)
    have s2: "in_session L S info 0 c c2"
      using in_session_trans [OF s1 rpc_in_session [OF sendAndWait_done [OF s]]] by simp
    have "c' = c2 \<or> (\<exists>h. c' = c2\<lparr>last_hello_error := h\<rparr>) \<or> (\<exists>h. c' = c2\<lparr>negotiated_features := h\<rparr>)"
      using assms b Inr s by (auto simp: reconnectAndHello_def parseNegotiatedFeatures_def split: option.splits ServerPayload.splits)
    then have "in_session L S info 0 c2 c'"
      by (elim disjE exE) (simp_all add: in_session_def evolves_def replies_ok_def inbox_ok_def)
    with s2 show ?thesis using in_session_trans by fastforce
  qed
qed

lemma openSessionResume_session:
  assumes "openSessionResume L (inf_subscription_id info) n c = Some (r, c')"
    and "session_subscription_id c = inf_subscription_id info"
  shows "in_session L S info 1 c c'"
proof (cases "has_socket c \<and> \<not> (session_from_selection c \<and> \<not> hasNegotiatedFeature kOpenSelectionFeature c)")
  case False
  with assms have "c' = c" by (auto simp: openSessionResume_def split: if_splits)
  then show ?thesis by simp
next
  case True
  let ?go = "\<lambda>c. c\<lparr>session_active := True, session_subscription_id := inf_subscription_id info, session_inbox := []\<rparr>"
  from True assms(1) obtain c1 k c2 where c1: "sync L c = Some c1" and c2: "read_cancel L (?go c1) = Some (k, c2)"
    by (auto simp: openSessionResume_def bind_eq_Some_conv)
  have "session_subscription_id c1 = inf_subscription_id info"
    using sync_quiet [OF c1] assms(2) by (simp add: quiet_def)
  then have "quiet L S info c1 (?go c1)"
    unfolding quiet_def evolves_def by (simp add: inbox_ok_def, simp add: replies_ok_def)
  then have q2: "quiet L S info c c2" using sync_quiet [OF c1] read_cancel_quiet [OF c2] quiet_trans by blast
  show ?thesis
  proof (cases k)
    case True
    with assms(1) \<open>has_socket c \<and> _\<close> c1 c2 have "c' = finish_session c2" by (auto simp: openSessionResume_def)
    then have "quiet L S info c c'" using quiet_trans [OF q2 quiet_finish] by simp
    then show ?thesis using in_session_trans [OF quiet_in_session, of L S info c c' 1 c'] by simp
  next
    case False
    with assms(1) \<open>has_socket c \<and> _\<close> c1 c2 obtain rep c3
      where s: "sendAndWait L (CmOpenResume (inf_subscription_id info) n) kOpenSessionTimeout True c2 = Some (rep, c3)"
      by (auto simp: openSessionResume_def bind_eq_Some_conv)
    have s3: "in_session L S info 1 c c3"
      using in_session_trans [OF quiet_in_session [OF q2] rpc_in_session [OF sendAndWait_done [OF s]]] by simp
    have "\<exists>c4. quiet L S info c3 c4 \<and> (c' = c4 \<or> c' = finish_session c4)"
      using assms(1) \<open>has_socket c \<and> _\<close> c1 c2 s False
      by (auto simp: openSessionResume_def bind_eq_Some_conv split: option.splits ServerPayload.splits
          intro: quiet_refl read_cancel_quiet)
    then have "quiet L S info c3 c'" using quiet_trans [OF _ quiet_finish] by blast
    with s3 show ?thesis by (rule quiet_session)
  qed
qed

section \<open>The whole download\<close>

definition resume_pos :: "'h ResumeState \<Rightarrow> 'h position" where
  "resume_pos st = (rs_cursor st, rs_handler st, rs_total st)"

definition resume_inv ::
  "Lib \<Rightarrow> string set \<Rightarrow> SessionInfo \<Rightarrow> 'h handler \<Rightarrow> 'h \<Rightarrow> Conn \<Rightarrow> 'h ResumeState \<Rightarrow> bool" where
  "resume_inv L S info f h c st \<longleftrightarrow> in_session L S info (rs_attempts st) c (rs_conn st) \<and>
     rs_attempts st \<le> kMaxResumeAttempts \<and>
     (\<exists>bs. handed_over L S (inf_subscription_id info) f (0, h, no_stats) bs (resume_pos st))"

definition download_ok ::
  "Lib \<Rightarrow> string set \<Rightarrow> SessionInfo \<Rightarrow> 'h handler \<Rightarrow> 'h \<Rightarrow> Conn \<Rightarrow> 'h download \<Rightarrow> bool" where
  "download_ok L S info f h c d \<longleftrightarrow>
     (case d of (s, h', c') \<Rightarrow>
        in_session L S info kMaxResumeAttempts c c' \<and>
        (eos s = EosComplete \<longrightarrow> completed L S (inf_subscription_id info)) \<and>
        (\<exists>bs n. handed_over L S (inf_subscription_id info) f (0, h, no_stats) bs (n, h', s) \<or>
           cut_off L S (inf_subscription_id info) f (0, h, no_stats) bs (n, h', s) \<and> eos s = EosCancelled))"

lemma download_okI:
  "in_session L S info kMaxResumeAttempts c c' \<Longrightarrow>
   (eos s = EosComplete \<longrightarrow> completed L S (inf_subscription_id info)) \<Longrightarrow>
   handed_over L S (inf_subscription_id info) f (0, h, no_stats) bs (n, h', s) \<or>
     cut_off L S (inf_subscription_id info) f (0, h, no_stats) bs (n, h', s) \<and> eos s = EosCancelled \<Longrightarrow>
   download_ok L S info f h c (s, h', c')"
  unfolding download_ok_def by blast

lemma in_session_mono: "in_session L S info j a b \<Longrightarrow> j \<le> k \<Longrightarrow> in_session L S info k a b"
  unfolding in_session_def by (meson order_trans)

lemma handed_over_other [simp]:
  "handed_over L S sub f p bs (n, h, s\<lparr>eos := e\<rparr>) = handed_over L S sub f p bs (n, h, s)"
  "handed_over L S sub f p bs (n, h, s\<lparr>stats_error := err\<rparr>) = handed_over L S sub f p bs (n, h, s)"
  "handed_over L S sub f p bs (n, h, s\<lparr>wire_bytes_received := w\<rparr>) = handed_over L S sub f p bs (n, h, s)"
  "handed_over L S sub f p bs (n, h, s\<lparr>eos_total_messages_sent := m\<rparr>) = handed_over L S sub f p bs (n, h, s)"
  "handed_over L S sub f p bs (n, h, s\<lparr>eos_total_bytes_sent := w\<rparr>) = handed_over L S sub f p bs (n, h, s)"
  "cut_off L S sub f p bs (n, h, s\<lparr>eos := e\<rparr>) = cut_off L S sub f p bs (n, h, s)"
  "cut_off L S sub f p bs (n, h, s\<lparr>stats_error := err\<rparr>) = cut_off L S sub f p bs (n, h, s)"
  "cut_off L S sub f p bs (n, h, s\<lparr>wire_bytes_received := w\<rparr>) = cut_off L S sub f p bs (n, h, s)"
  "cut_off L S sub f p bs (n, h, s\<lparr>eos_total_messages_sent := m\<rparr>) = cut_off L S sub f p bs (n, h, s)"
  "cut_off L S sub f p bs (n, h, s\<lparr>eos_total_bytes_sent := w\<rparr>) = cut_off L S sub f p bs (n, h, s)"
  by (cases p; simp add: handed_over_def cut_off_def)+

lemma finalize_ok:
  assumes "resume_inv L S info f h c st" and "quiet L S info (rs_conn st) c'" and "e \<noteq> EosComplete"
  shows "download_ok L S info f h c (finalize st e err c')"
proof -
  obtain bs where "handed_over L S (inf_subscription_id info) f (0, h, no_stats) bs (rs_cursor st, rs_handler st, rs_total st)"
    using assms(1) unfolding resume_inv_def resume_pos_def by blast
  moreover have "in_session L S info kMaxResumeAttempts c (finish_session c')"
    using assms(1) quiet_session [OF _ quiet_trans [OF assms(2) quiet_finish]] in_session_mono
    unfolding resume_inv_def by blast
  ultimately show ?thesis using assms(3) unfolding download_ok_def finalize_def by (simp, blast)
qed

lemma resume_inv_quiet:
  "resume_inv L S info f h c st \<Longrightarrow> quiet L S info (rs_conn st) c' \<Longrightarrow> resume_inv L S info f h c (st\<lparr>rs_conn := c'\<rparr>)"
  by (auto simp: resume_inv_def resume_pos_def intro: quiet_session)

lemma resume_inv_other [simp]:
  "resume_inv L S info f h c (st\<lparr>rs_reason := e\<rparr>) = resume_inv L S info f h c st"
  "resume_inv L S info f h c (st\<lparr>rs_armed := b\<rparr>) = resume_inv L S info f h c st"
  by (simp_all add: resume_inv_def resume_pos_def)

text \<open>The counters of a leg are added to those of the legs before it.\<close>

lemma add_leg:
  assumes "messages_received t' = messages_received t + messages_received s"
    and "batches_received t' = batches_received t + batches_received s"
  shows "handed_over L S sub f (n, h, no_stats) bs (n', h', s) \<Longrightarrow> handed_over L S sub f (n, h, t) bs (n', h', t')"
    and "cut_off L S sub f (n, h, no_stats) bs (n', h', s) \<Longrightarrow> cut_off L S sub f (n, h, t) bs (n', h', t')"
  using assms by (auto simp: handed_over_def cut_off_def no_stats_def)

definition resumable_ok where
  "resumable_ok L S info f h c x \<longleftrightarrow>
     (case x of Inl d \<Rightarrow> download_ok L S info f h c d | Inr st \<Rightarrow> resume_inv L S info f h c st)"

lemma resumable_ok_simps [simp]:
  "resumable_ok L S info f h c (Inl d) = download_ok L S info f h c d"
  "resumable_ok L S info f h c (Inr st) = resume_inv L S info f h c st"
  by (simp_all add: resumable_ok_def)

lemma session_facts:
  assumes "in_session L S info k c c'" and "session_subscription_id c = inf_subscription_id info"
    and "frames (script c) \<subseteq> S" and "inbox_ok L S c"
  shows "session_subscription_id c' = inf_subscription_id info" "frames (script c') \<subseteq> S" "inbox_ok L S c'"
  using assms by (auto simp: in_session_def evolves_def)

lemma resume_leg_ok:
  assumes "resume_leg L info f st = Some x" and inv: "resume_inv L S info f h c st"
    and start: "session_subscription_id c = inf_subscription_id info" "frames (script c) \<subseteq> S" "inbox_ok L S c"
  shows "resumable_ok L S info f h c x"
proof -
  let ?sub = "inf_subscription_id info" and ?p = "(0, h, no_stats)"
  obtain r where r: "runFrameLoop L info f (rs_cursor st) (rs_attempts st = 0) (rs_handler st) (rs_conn st) = Some r"
    using assms(1) by (auto simp: resume_leg_def bind_eq_Some_conv)
  define t where "t = (rs_total st)\<lparr>messages_received := messages_received (rs_total st) + messages_received (flr_stats r),
    bytes_received := bytes_received (rs_total st) + bytes_received (flr_stats r),
    batches_received := batches_received (rs_total st) + batches_received (flr_stats r)\<rparr>"
  define st1 where "st1 = st\<lparr>rs_cursor := flr_last_seq r, rs_handler := flr_handler r, rs_conn := flr_conn r, rs_total := t\<rparr>"
  have i: "in_session L S info (rs_attempts st) c (rs_conn st)" using inv by (simp add: resume_inv_def)
  note leg = runFrameLoop_ok [OF r session_facts(2,3) [OF i start], unfolded session_facts(1) [OF i start]]
  then have q: "quiet L S info (rs_conn st) (flr_conn r)"
    and fin: "eos (flr_stats r) = EosComplete \<longrightarrow> completed L S ?sub" by (simp_all add: leg_ok_def)
  from leg obtain cs where cs: "handed_over L S ?sub f (resume_pos st) cs (resume_pos st1) \<or>
      cut_off L S ?sub f (resume_pos st) cs (resume_pos st1) \<and> eos (flr_stats r) = EosCancelled \<and> \<not> flr_resumable r"
  proof -
    have pos: "resume_pos st = (rs_cursor st, rs_handler st, rs_total st)" "resume_pos st1 = (flr_last_seq r, flr_handler r, t)"
      by (simp_all add: resume_pos_def st1_def)
    have "messages_received t = messages_received (rs_total st) + messages_received (flr_stats r)"
      "batches_received t = batches_received (rs_total st) + batches_received (flr_stats r)" by (simp_all add: t_def)
    note add = add_leg [OF this, where L = L and S = S and f = f]
    from leg have "\<exists>cs. handed_over L S ?sub f (rs_cursor st, rs_handler st, rs_total st) cs (flr_last_seq r, flr_handler r, t) \<or>
      cut_off L S ?sub f (rs_cursor st, rs_handler st, rs_total st) cs (flr_last_seq r, flr_handler r, t) \<and>
      eos (flr_stats r) = EosCancelled \<and> \<not> flr_resumable r"
      unfolding leg_ok_def result_pos_def using add by blast
    then show thesis using that unfolding pos by blast
  qed
  obtain bs where bs: "handed_over L S ?sub f ?p bs (resume_pos st)" using inv unfolding resume_inv_def by blast
  have got: "handed_over L S ?sub f ?p (bs @ cs) (resume_pos st1) \<or>
      cut_off L S ?sub f ?p (bs @ cs) (resume_pos st1) \<and> eos (flr_stats r) = EosCancelled \<and> \<not> flr_resumable r"
    using cs handed_over_trans [OF bs] handed_over_cut [OF bs] by blast
  have i1: "in_session L S info (rs_attempts st) c (flr_conn r)" by (rule quiet_session [OF i q])
  show ?thesis
  proof (cases "flr_resumable r")
    case False
    then have "x = Inl (t\<lparr>eos := eos (flr_stats r), eos_total_messages_sent := eos_total_messages_sent (flr_stats r),
         eos_total_bytes_sent := eos_total_bytes_sent (flr_stats r), stats_error := stats_error (flr_stats r),
         wire_bytes_received := session_wire_bytes (flr_conn r)\<rparr>, flr_handler r, flr_conn r)" (is "x = Inl (?s, _, _)")
      using assms(1) r by (auto simp: resume_leg_def t_def Let_def)
    moreover have "handed_over L S ?sub f ?p (bs @ cs) (flr_last_seq r, flr_handler r, ?s) \<or>
        cut_off L S ?sub f ?p (bs @ cs) (flr_last_seq r, flr_handler r, ?s) \<and> eos ?s = EosCancelled"
      using got by (auto simp: resume_pos_def st1_def)
    moreover have "in_session L S info kMaxResumeAttempts c (flr_conn r)"
      using in_session_mono [OF i1] inv by (simp add: resume_inv_def)
    ultimately show ?thesis using fin by (simp only: resumable_ok_simps) (rule download_okI, simp_all)
  next
    case True
    then obtain k c1 where c1: "read_cancel L (flr_conn r) = Some (k, c1)"
      and x: "x = (if k \<or> eos (flr_stats r) = EosCancelled then Inl (finalize st1 EosCancelled [] c1)
                   else Inr (st1\<lparr>rs_reason := stats_error (flr_stats r), rs_conn := c1\<rparr>))"
      using assms(1) r unfolding st1_def t_def
      by (auto simp: resume_leg_def Let_def bind_eq_Some_conv simp del: if_split split: if_split_asm)
    have inv1: "resume_inv L S info f h c st1"
      using inv got True i1 unfolding resume_inv_def by (auto simp: st1_def)
    have "quiet L S info (rs_conn st1) c1" using read_cancel_quiet [OF c1] by (simp add: st1_def)
    note q2 = this
    have "resume_inv L S info f h c (st1\<lparr>rs_reason := stats_error (flr_stats r), rs_conn := c1\<rparr>)"
      by (rule resume_inv_quiet) (use inv1 q2 in simp_all)
    with x finalize_ok [OF inv1 q2] show ?thesis by simp
  qed
qed

lemma reconnect_ok:
  assumes "reconnect L info st = Some x"
    and "in_session L S info k c (rs_conn st)" and "k < rs_attempts st" and "rs_attempts st \<le> kMaxResumeAttempts"
    and "\<exists>bs. handed_over L S (inf_subscription_id info) f (0, h, no_stats) bs (resume_pos st)"
    and start: "session_subscription_id c = inf_subscription_id info" "frames (script c) \<subseteq> S" "inbox_ok L S c"
  shows "resumable_ok L S info f h c x"
proof -
  obtain hello c1 e c2 where c1: "reconnectAndHello L (rs_conn st) = Some (hello, c1)"
      and c2: "sessionDeadlineExpired L c1 = Some (e, c2)"
    using assms(1) by (auto simp: reconnect_def bind_eq_Some_conv)
  have s1: "in_session L S info k c c1"
    using in_session_trans [OF assms(2) reconnectAndHello_session [OF c1]] by simp
  have s2: "in_session L S info k c c2" by (rule quiet_session [OF s1 deadline_quiet [OF c2]])
  have inv: "resume_inv L S info f h c (st\<lparr>rs_conn := c'\<rparr>)" if "in_session L S info (Suc k) c c'" for c'
    using in_session_mono [OF that] assms(3-5) by (simp add: resume_inv_def resume_pos_def)
  have stop: "download_ok L S info f h c (finalize st y err c')"
    if "in_session L S info (Suc k) c c'" "y \<noteq> EosComplete" for y err c'
    using finalize_ok [OF inv [OF that(1)] _ that(2), of c' err] by (simp add: finalize_def)
  have retry: "resume_inv L S info f h c (st\<lparr>rs_reason := y, rs_armed := b, rs_conn := c'\<rparr>)"
    "resume_inv L S info f h c (st\<lparr>rs_armed := b, rs_conn := c'\<rparr>)" if "in_session L S info (Suc k) c c'" for y b c'
    using inv [OF that] by (simp_all add: resume_inv_def resume_pos_def)
  have s2': "in_session L S info (Suc k) c c2" by (rule in_session_mono [OF s2]) simp
  show ?thesis
  proof (cases "e \<or> hello \<noteq> Inr ()")
    case True
    with assms(1) c1 c2 consider "x = Inl (finalize st EosCancelled [] c2)"
      | y where "x = Inr (st\<lparr>rs_reason := y, rs_armed := False, rs_conn := c2\<rparr>)"
      by (auto simp: reconnect_def split: if_splits sum.splits)
    then show ?thesis using stop [OF s2'] retry [OF s2'] by cases simp_all
  next
    case False
    with assms(1) c1 c2 obtain res c3
      where c3: "openSessionResume L (inf_subscription_id info) (rs_cursor st) c2 = Some (res, c3)"
        and x: "x = (case res of
                  Inr _ \<Rightarrow> Inr (st\<lparr>rs_armed := True, rs_conn := c3\<rparr>)
                | Inl (e, rejected) \<Rightarrow>
                    if rejected then Inl (finalize st EosError e c3)
                    else Inr (st\<lparr>rs_reason := (if e = [] then ''resume failed'' else e), rs_armed := False, rs_conn := c3\<rparr>))"
      by (auto simp: reconnect_def bind_eq_Some_conv)
    have s3: "in_session L S info (Suc k) c c3"
      using in_session_trans [OF s2 openSessionResume_session [OF c3 session_facts(1) [OF s2 start]]] by simp
    show ?thesis unfolding x using stop [OF s3] retry [OF s3] by (auto split: sum.split)
  qed
qed

lemma resume_retry_ok:
  assumes "resume_retry L info st = Some x" and inv: "resume_inv L S info f h c st"
    and start: "session_subscription_id c = inf_subscription_id info" "frames (script c) \<subseteq> S" "inbox_ok L S c"
  shows "resumable_ok L S info f h c x"
proof (cases "kMaxResumeAttempts \<le> rs_attempts st")
  case True
  with assms(1) finalize_ok [OF inv quiet_refl] show ?thesis by (auto simp: resume_retry_def)
next
  case False
  have stop: "quiet L S info (rs_conn st) c' \<Longrightarrow> download_ok L S info f h c (finalize st EosCancelled [] c')" for c'
    using finalize_ok [OF inv] by simp
  obtain e c1 where c1: "sessionDeadlineExpired L (rs_conn st) = Some (e, c1)"
    using assms(1) False by (auto simp: resume_retry_def bind_eq_Some_conv)
  note q1 = deadline_quiet [OF c1, of S info]
  show ?thesis
  proof (cases e)
    case True
    with assms(1) False c1 q1 show ?thesis by (auto simp: resume_retry_def intro: stop)
  next
    case e: False
    with assms(1) False c1 obtain c2 w c3 k c4 where c2: "sync L c1 = Some c2"
        and c3: "wait_for L (cappedToDeadline c2 (kResumeBackoffMs ! rs_attempts st)) cancel_requested c2 = Some (w, c3)"
        and c4: "read_cancel L c3 = Some (k, c4)"
      by (auto simp: resume_retry_def bind_eq_Some_conv)
    have q4: "quiet L S info (rs_conn st) c4"
      using quiet_trans [OF quiet_trans [OF q1 sync_quiet [OF c2]]]
        quiet_trans [OF waits_quiet [OF conjunct1 [OF wait_for_waits [OF c3]]] read_cancel_quiet [OF c4]] .
    show ?thesis
    proof (cases k)
      case True
      with assms(1) False e c1 c2 c3 c4 q4 show ?thesis by (auto simp: resume_retry_def intro: stop)
    next
      case k: False
      with assms(1) False e c1 c2 c3 c4 obtain e5 c5 where c5: "sessionDeadlineExpired L c4 = Some (e5, c5)"
        by (auto simp: resume_retry_def bind_eq_Some_conv)
      have q5: "quiet L S info (rs_conn st) c5" by (rule quiet_trans [OF q4 deadline_quiet [OF c5]])
      show ?thesis
      proof (cases e5)
        case True
        with assms(1) False e k c1 c2 c3 c4 c5 q5 show ?thesis by (auto simp: resume_retry_def intro: stop)
      next
        case e5: False
        with assms(1) False e k c1 c2 c3 c4 c5 obtain k6 c6 where c6: "read_cancel L c5 = Some (k6, c6)"
          and x: "(if k6 then Some (Inl (finalize (st\<lparr>rs_attempts := Suc (rs_attempts st), rs_conn := c6\<rparr>) EosCancelled [] c6))
             else reconnect L info (st\<lparr>rs_attempts := Suc (rs_attempts st), rs_conn := c6\<rparr>)) = Some x"
          by (auto simp: resume_retry_def bind_eq_Some_conv Let_def)
        have q6: "quiet L S info (rs_conn st) c6" by (rule quiet_trans [OF q5 read_cancel_quiet [OF c6]])
        show ?thesis
        proof (cases k6)
          case True
          with x have "x = Inl (finalize st EosCancelled [] c6)" by (simp add: finalize_def)
          with stop [OF q6] show ?thesis by simp
        next
          case False
          with x have "reconnect L info (st\<lparr>rs_attempts := Suc (rs_attempts st), rs_conn := c6\<rparr>) = Some x" by simp
          then show ?thesis
          proof (rule reconnect_ok [where k = "rs_attempts st"])
            show "in_session L S info (rs_attempts st) c (rs_conn (st\<lparr>rs_attempts := Suc (rs_attempts st), rs_conn := c6\<rparr>))"
              using inv quiet_session [OF _ q6] by (simp add: resume_inv_def)
            show "\<exists>bs. handed_over L S (inf_subscription_id info) f (0, h, no_stats) bs
                (resume_pos (st\<lparr>rs_attempts := Suc (rs_attempts st), rs_conn := c6\<rparr>))"
              using inv by (simp add: resume_inv_def resume_pos_def)
          qed (use start \<open>\<not> kMaxResumeAttempts \<le> rs_attempts st\<close> in simp_all)
        qed
      qed
    qed
  qed
qed

lemma downloadSessionResumable_ok:
  assumes "downloadSessionResumable L info f h c = Some d"
    and start: "session_subscription_id c = inf_subscription_id info" "frames (script c) \<subseteq> S" "inbox_ok L S c"
  shows "download_ok L S info f h c d"
proof (cases "has_socket c")
  case False
  with assms(1) have d: "d = (no_stats\<lparr>stats_error := ''not connected''\<rparr>, h, c)" by (simp add: downloadSessionResumable_def)
  have "handed_over L S (inf_subscription_id info) f (0, h, no_stats) [] (0, h, no_stats\<lparr>stats_error := ''not connected''\<rparr>)"
    by simp
  then show ?thesis unfolding d download_ok_def by (simp add: no_stats_def) blast
next
  case True
  let ?st = "\<lparr>rs_total = no_stats, rs_cursor = 0, rs_attempts = 0, rs_reason = [], rs_armed = True,
         rs_handler = h, rs_conn = c\<rparr>"
  from True assms(1) have "loop (resume_step L info f) ?st = Some d" by (simp add: downloadSessionResumable_def)
  moreover have "resumable_ok L S info f h c x"
    if inv: "resume_inv L S info f h c st" and st: "resume_step L info f st = Some x" for st x
  proof -
    obtain y where y: "(if rs_armed st then resume_leg L info f st else Some (Inr st)) = Some y"
        and x: "(case y of Inl r \<Rightarrow> Some (Inl r) | Inr st \<Rightarrow> resume_retry L info st) = Some x"
      using st by (auto simp: resume_step_def bind_eq_Some_conv)
    have "resumable_ok L S info f h c y"
      using y inv resume_leg_ok [OF _ inv start] by (auto split: if_splits)
    with x resume_retry_ok [OF _ _ start] show ?thesis by (auto split: sum.splits)
  qed
  moreover have "resume_inv L S info f h c ?st"
    unfolding resume_inv_def resume_pos_def by (auto intro: exI [of _ "[]"])
  ultimately show ?thesis
    using loop_invariant [where I = "resume_inv L S info f h c" and step = "resume_step L info f" and s = ?st and r = d
        and Q = "download_ok L S info f h c"] by fastforce
qed

text \<open>
  C1: Whatever the network does, drops and reconnects included, the messages a resumable download
  hands to its handler are those of the batches 1, 2, 3, ... of its subscription, each batch once
  and in order, as the batches decode; the handler has accepted every one of them, unless it has
  refused one, and then that was the last message it saw and the download ends as cancelled. The
  counters say how many batches and messages were handed over, and the download is complete only
  when the server has said so on this subscription.
\<close>

theorem download_gap_free:
  assumes "downloadSessionResumable L info f h c = Some (s, h', c')"
    and "session_subscription_id c = inf_subscription_id info"
    and "frames (script c) \<subseteq> S" and "inbox_ok L S c"
  shows "(\<exists>bs. in_order L S (inf_subscription_id info) 0 bs \<and> batches_received s = of_nat (length bs) \<and>
           (accepts f h (messages_of L bs) \<and> h' = handler_after f h (messages_of L bs) \<and>
              messages_received s = of_nat (length (messages_of L bs)) \<or>
            (\<exists>k. stops_at f h (messages_of L bs) k h' \<and> messages_received s = of_nat k \<and> eos s = EosCancelled))) \<and>
         (eos s = EosComplete \<longrightarrow> completed L S (inf_subscription_id info))"
  using downloadSessionResumable_ok [OF assms]
  by (auto simp: download_ok_def handed_over_def cut_off_def no_stats_def)


section \<open>Runs\<close>

text \<open>
  A download of two batches that loses its socket after the first one: the close event comes with
  the batch, the first backoff passes, the handshake and the resume are answered, and the rest of
  the stream arrives.
\<close>

definition demo_open :: "u64 \<Rightarrow> ServerMessage" where
  "demo_open i = reply_to i (SmOpenSession \<lparr>os_subscription_id = 7, os_range = None, os_chunk_bytes = 0,
     os_messages = 0, os_topics = [], os_schemas = []\<rparr>)"

definition demo_info :: SessionInfo where
  "demo_info = \<lparr>inf_subscription_id = 7, inf_merged_start_ns = 0, inf_merged_end_ns = 0, inf_estimated_chunk_bytes = 0,
     inf_approximate_messages = 0, inf_topics = [], inf_schemas = []\<rparr>"

definition stream_frame :: "u64 \<Rightarrow> ServerPayload \<Rightarrow> ServerMessage" where
  "stream_frame sub p = \<lparr>sm_request_id = 0, sm_subscription_id = sub, sm_payload = p\<rparr>"

definition demo_eos :: "EosReason \<Rightarrow> ServerPayload" where
  "demo_eos r = SmEos \<lparr>eos_reason = r, eos_messages_sent = 2, eos_bytes_sent = 2\<rparr>"

definition demo_stream :: Lib where
  "demo_stream = demo_lib
     [(''b1'', stream_frame 7 (SmBatch (demo_batch 1 [demo_message PAYLOAD_RAW ''x'']))),
      (''b2'', stream_frame 7 (SmBatch (demo_batch 2 [demo_message PAYLOAD_RAW ''y'']))),
      (''eos'', stream_frame 7 (demo_eos EOS_COMPLETE)), (''late'', stream_frame 6 (demo_eos EOS_CANCELLED)),
      (''hello'', reply_to 1 (SmHello demo_hello)), (''open1'', demo_open 1), (''open2'', demo_open 2)]"

definition collect :: "string list handler" where
  "collect xs m = (True, xs @ [dm_payload m])"

definition demo_conn :: "net_event list list \<Rightarrow> Conn" where
  "demo_conn sc = (new_connection ''ws://h'' [] [] False sc)\<lparr>has_socket := True, socket_open := True,
     session_active := True, session_subscription_id := 7\<rparr>"

definition drop_script :: "net_event list list" where
  "drop_script = [[EvFrame ''b1'', EvClose]] @ replicate 15 [] @ [[EvTick 1000], [], [], []] @ demo_start @
     replicate 6 [] @ [[EvFrame ''open2'', EvFrame ''b2'', EvFrame ''eos'']] @ replicate 12 []"

lemma drop_run:
  "map_option (\<lambda>(s, h, c). (eos s, h, map cm_payload (sent c)))
     (downloadSessionResumable demo_stream demo_info collect [] (demo_conn drop_script)) =
   Some (EosComplete, [''x'', ''y''], [CmHello 2 [] [] True, CmOpenResume 7 1, CmAck 7 2])"
  by code_simp

lemma drop_start:
  "session_subscription_id (demo_conn drop_script) = inf_subscription_id demo_info"
  "session_inbox (demo_conn drop_script) = []" "inbox_ok demo_stream UNIV (demo_conn drop_script)"
  "sent (demo_conn drop_script) = []"
  by (simp_all add: demo_conn_def new_connection_def demo_info_def inbox_ok_def)

theorem download_gap_free_witness:
  "\<exists>s c' bs. downloadSessionResumable demo_stream demo_info collect [] (demo_conn drop_script) =
       Some (s, [''x'', ''y''], c') \<and> eos s = EosComplete \<and> in_order demo_stream UNIV 7 0 bs \<and>
     handler_after collect [] (messages_of demo_stream bs) = [''x'', ''y'']"
proof -
  obtain s c' where d: "downloadSessionResumable demo_stream demo_info collect [] (demo_conn drop_script) =
      Some (s, [''x'', ''y''], c')" "eos s = EosComplete"
    using drop_run by auto
  have "inf_subscription_id demo_info = 7" by (simp add: demo_info_def)
  with download_gap_free [OF d(1) drop_start(1) subset_UNIV drop_start(3)] d show ?thesis by auto
qed


text \<open>
  A cancel during the last reconnect is reported as a failure to reconnect: the attempt ends with
  the reason \<open>cancelled\<close>, and the check for the number of attempts comes before the next check of
  the cancel flag.
\<close>

definition attempt :: "nat \<Rightarrow> net_event \<Rightarrow> net_event list list" where
  "attempt t e = replicate 3 [] @ [[EvTick t]] @ replicate 4 [] @ [[e], []]"

definition cancel_script :: "net_event list list" where
  "cancel_script = [[EvClose]] @ replicate 7 [] @ attempt 1000 EvClose @ attempt 4000 EvClose @ attempt 16000 EvCancel"

lemma cancel_in_last_attempt:
  "map_option (\<lambda>(s, h, c). (eos s, stats_error s, cancel_requested c))
     (downloadSessionResumable demo_stream demo_info collect [] (demo_conn cancel_script)) =
   Some (EosUnset, ''reconnect failed after 3 attempts: cancelled'', True)"
  by code_simp

text \<open>
  While the answer to OpenSession is outstanding the subscription is 0 and every session frame is
  taken, one of an earlier subscription too. The end of that stream then ends the new download.
\<close>

definition demo_params :: OpenSessionParams where
  "demo_params = \<lparr>osp_s3_keys = [''k''], osp_selection_id = [], osp_topic_names = [], osp_start_ns = None,
     osp_end_ns = None, osp_include_latched = False\<rparr>"

definition open_and_download :: "net_event list list \<Rightarrow> (string list) download option" where
  "open_and_download sc = do {
     (r, c) \<leftarrow> openSessionFresh demo_stream demo_params ((new_connection ''ws://h'' [] [] False sc)\<lparr>has_socket := True\<rparr>);
     case r of Inl e \<Rightarrow> None | Inr info \<Rightarrow> downloadSessionResumable demo_stream info collect [] c }"

definition late_script :: "net_event list list" where
  "late_script = replicate 4 [] @ [[EvFrame ''late'', EvFrame ''open1'', EvFrame ''b1'']] @ replicate 8 []"

lemma late_frame_ends_download:
  "map_option (\<lambda>(s, h, c). (eos s, h, cancel_requested c)) (open_and_download late_script) =
   Some (EosCancelled, [], False)"
  by code_simp

end
