(* ===== verification/Session_Key.thy ===== *)
theory Session_Key
  imports Prelude
begin

unbundle bit_operations_syntax

text \<open>
  \<open>session_key.hpp\<close>: the normalised identity of a reconstructed session and its 64-bit
  FNV-1a hash. The hash runs over object bytes; the byte order of the host is a parameter of
  no consequence for the results below, and little-endian hosts are modelled.
\<close>

section \<open>The key\<close>

record SessionKey =
  server_uri :: string
  sequence_names :: "string list"
  topics :: "string list"
  start_ns :: int
  end_ns :: int
  include_latched :: bool
  selection_id :: string
  key_hash :: u64

text \<open>\<open>operator==\<close> compares every field but the hash.\<close>

definition key_eq :: "SessionKey \<Rightarrow> SessionKey \<Rightarrow> bool" where
  "key_eq a b \<longleftrightarrow>
     server_uri a = server_uri b \<and> sequence_names a = sequence_names b \<and>
     topics a = topics b \<and> start_ns a = start_ns b \<and> end_ns a = end_ns b \<and>
     include_latched a = include_latched b \<and> selection_id a = selection_id b"

record TimeRangeNs =
  tr_start_ns :: int
  tr_end_ns :: int

section \<open>FNV-1a\<close>

definition kFnvOffset :: u64 where "kFnvOffset = 1469598103934665603"
definition kFnvPrime :: u64 where "kFnvPrime = 1099511628211"

definition fnvBytes :: "u64 \<Rightarrow> u8 list \<Rightarrow> u64" where
  "fnvBytes h p = foldl (\<lambda>h b. (h XOR ucast b) * kFnvPrime) h p"

definition u64_bytes :: "u64 \<Rightarrow> u8 list" where
  "u64_bytes v = map (\<lambda>i. ucast (drop_bit (8 * i) v)) [0..<8]"

definition fnvU64 :: "u64 \<Rightarrow> u64 \<Rightarrow> u64" where
  "fnvU64 h v = fnvBytes h (u64_bytes v)"

definition fnvI64 :: "u64 \<Rightarrow> int \<Rightarrow> u64" where
  "fnvI64 h v = fnvBytes h (u64_bytes (word_of_int v))"

definition fnvStr :: "u64 \<Rightarrow> string \<Rightarrow> u64" where
  "fnvStr h s = fnvBytes (fnvU64 h (word_of_nat (length s))) (str_bytes s)"

section \<open>Building keys\<close>

definition session_hash ::
  "string \<Rightarrow> string list \<Rightarrow> string list \<Rightarrow> TimeRangeNs \<Rightarrow> bool \<Rightarrow> u64" where
  "session_hash uri names tps tr latched =
     (let h = fnvStr kFnvOffset uri;
          h = fnvU64 h (word_of_nat (length names));
          h = foldl fnvStr h names;
          h = fnvU64 h (word_of_nat (length tps));
          h = foldl fnvStr h tps;
          h = fnvI64 h (tr_start_ns tr);
          h = fnvI64 h (tr_end_ns tr)
      in fnvU64 h (if latched then 1 else 0))"

definition computeSessionKey ::
  "string \<Rightarrow> string list \<Rightarrow> string list \<Rightarrow> TimeRangeNs \<Rightarrow> bool \<Rightarrow> SessionKey" where
  "computeSessionKey uri names tps tr latched =
     (let names' = sort_unique names; tps' = sort_unique tps
      in \<lparr>server_uri = uri, sequence_names = names', topics = tps',
          start_ns = tr_start_ns tr, end_ns = tr_end_ns tr,
          include_latched = latched, selection_id = [],
          key_hash = session_hash uri names' tps' tr latched\<rparr>)"

definition computeSelectionSessionKey :: "string \<Rightarrow> string \<Rightarrow> SessionKey" where
  "computeSelectionSessionKey uri sel =
     (let k = computeSessionKey uri [] [] \<lparr>tr_start_ns = 0, tr_end_ns = 0\<rparr> False
      in k\<lparr>selection_id := sel, key_hash := fnvStr (key_hash k) sel\<rparr>)"

section \<open>Normal form and identity\<close>

text \<open>
  The keys the plugin works with: those of a key-addressed session, and those of a
  selection with a non-empty id (an empty id is refused when the descriptor is parsed).
\<close>

inductive session_key :: "SessionKey \<Rightarrow> bool" where
  fresh: "session_key (computeSessionKey uri names tps tr latched)"
| selection: "sel \<noteq> [] \<Longrightarrow> session_key (computeSelectionSessionKey uri sel)"

lemmas key_defs = computeSessionKey_def computeSelectionSessionKey_def Let_def

lemma key_eq_refl [simp]: "key_eq k k"
  by (simp add: key_eq_def)

lemma key_eq_sym: "key_eq a b \<Longrightarrow> key_eq b a"
  by (simp add: key_eq_def)

lemma key_eq_trans: "key_eq a b \<Longrightarrow> key_eq b c \<Longrightarrow> key_eq a c"
  by (simp add: key_eq_def)

lemma TimeRangeNs_eqI:
  "tr_start_ns a = tr_start_ns b \<Longrightarrow> tr_end_ns a = tr_end_ns b \<Longrightarrow> a = (b::TimeRangeNs)"
  by simp

lemma computed_key_eq_iff:
  "key_eq (computeSessionKey u ns ts r l) (computeSessionKey u' ns' ts' r' l') \<longleftrightarrow>
     u = u' \<and> set ns = set ns' \<and> set ts = set ts' \<and> r = r' \<and> l = l'"
  by (auto simp: key_eq_def key_defs sort_unique_eq_iff intro: TimeRangeNs_eqI)

lemma computed_key_cong:
  "set ns = set ns' \<Longrightarrow> set ts = set ts' \<Longrightarrow>
   computeSessionKey u ns ts r l = computeSessionKey u ns' ts' r l"
proof -
  assume "set ns = set ns'" and "set ts = set ts'"
  then have "sort_unique ns = sort_unique ns'" and "sort_unique ts = sort_unique ts'"
    by (simp_all add: sort_unique_eq_iff)
  then show ?thesis by (simp add: key_defs)
qed

lemma key_eq_same_hash:
  assumes "session_key a" and "session_key b" and "key_eq a b"
  shows "a = b"
  using assms
proof (cases rule: session_key.cases)
  case (fresh u ns ts r l)
  from assms(2) show ?thesis
  proof (cases rule: session_key.cases)
    case (fresh u' ns' ts' r' l')
    with \<open>a = _\<close> assms(3) show ?thesis
      by (auto simp: computed_key_eq_iff intro: computed_key_cong)
  next
    case (selection sel uri)
    with \<open>a = _\<close> assms(3) show ?thesis by (simp add: key_eq_def key_defs)
  qed
next
  case (selection sel uri)
  from assms(2) show ?thesis
    by (cases rule: session_key.cases)
      (use selection assms(3) in \<open>auto simp: key_eq_def key_defs\<close>)
qed

lemma key_eq_iff: "session_key a \<Longrightarrow> session_key b \<Longrightarrow> key_eq a b \<longleftrightarrow> a = b"
  using key_eq_same_hash by auto

section \<open>Properties\<close>

text \<open>
  C31: Two key-addressed requests are the same session exactly when they name the same
  server, the same set of recordings, the same set of topics, the same window and the same
  latched flag: order and repetition of the inputs never matter, and nothing else is
  conflated.
\<close>

theorem session_identity:
  "key_eq (computeSessionKey u ns ts r l) (computeSessionKey u' ns' ts' r' l') \<longleftrightarrow>
     u = u' \<and> set ns = set ns' \<and> set ts = set ts' \<and> r = r' \<and> l = l'"
  by (rule computed_key_eq_iff)

text \<open>
  The hash agrees with equality: two keys the plugin builds that compare equal are equal
  in every field, so they fall into the same hash bucket, and a selection-backed key never
  equals a key-addressed one.
\<close>

theorem session_hash_consistent:
  assumes "session_key a" and "session_key b" and "key_eq a b"
  shows "key_hash a = key_hash b \<and> a = b \<and> (selection_id a = [] \<longleftrightarrow> selection_id b = [])"
  using key_eq_same_hash [OF assms] by simp

theorem session_hash_consistent_witness:
  "key_hash (computeSessionKey ''ws://h'' [''b'', ''a'', ''b''] [] \<lparr>tr_start_ns = 0, tr_end_ns = 0\<rparr> True) =
   key_hash (computeSessionKey ''ws://h'' [''a'', ''b''] [] \<lparr>tr_start_ns = 0, tr_end_ns = 0\<rparr> True)"
proof -
  let ?r = "\<lparr>tr_start_ns = 0, tr_end_ns = 0\<rparr>"
  have "key_eq (computeSessionKey ''ws://h'' [''b'', ''a'', ''b''] [] ?r True)
               (computeSessionKey ''ws://h'' [''a'', ''b''] [] ?r True)"
    by (auto simp: computed_key_eq_iff)
  from session_hash_consistent [OF session_key.fresh session_key.fresh this]
  show ?thesis by simp
qed

end
