(* ===== verification/Recency.thy ===== *)
theory Recency
  imports Prelude
begin

text \<open>
  The contract shared by the two bounded most-recently-used lists of the plugin, the session
  cache (\<open>session_cache.hpp\<close>) and the server history (\<open>server_history.cpp\<close>): putting
  a key moves it to the front, keeps the order of the others and drops what exceeds the
  capacity. The lemma of the locale describes the list after any sequence of puts.
\<close>

definition to_front :: "nat \<Rightarrow> 'k \<Rightarrow> 'k list \<Rightarrow> 'k list" where
  "to_front cap k ks = take cap (k # filter (\<lambda>x. x \<noteq> k) ks)"

lemma distinct_to_front: "distinct ks \<Longrightarrow> distinct (to_front cap k ks)"
  by (simp add: to_front_def)

lemma length_to_front: "length (to_front cap k ks) \<le> cap"
  by (simp add: to_front_def)

lemma filter_take_take:
  "take m (filter P (take (Suc m) xs)) = take m (filter P xs)"
  if "length (filter (\<lambda>x. \<not> P x) xs) \<le> 1"
  using that
proof (induction xs arbitrary: m)
  case Nil
  then show ?case by simp
next
  case (Cons x xs)
  show ?case
  proof (cases "P x")
    case True
    with Cons show ?thesis by (cases m) auto
  next
    case False
    then have "filter (\<lambda>x. \<not> P x) xs = []" using Cons.prems by simp
    then have "\<forall>y \<in> set xs. P y" by (simp add: filter_empty_conv)
    then have "filter P xs = xs" and "filter P (take m xs) = take m xs"
      by (simp_all add: filter_id_conv) (meson in_set_takeD)
    with False show ?thesis by simp
  qed
qed

lemma to_front_take:
  assumes "distinct ks" and "0 < cap"
  shows "to_front cap k (take cap ks) = to_front cap k ks"
proof -
  obtain m where cap: "cap = Suc m" using assms(2) by (cases cap) auto
  have "length (filter (\<lambda>x. \<not> x \<noteq> k) ks) \<le> 1"
    using assms(1) by (induction ks) (auto simp: filter_empty_conv)
  from filter_take_take [of "\<lambda>x. x \<noteq> k", OF this, of m] show ?thesis
    by (simp add: to_front_def cap)
qed

lemma remdups_snoc: "remdups (xs @ [x]) = filter (\<lambda>y. y \<noteq> x) (remdups xs) @ [x]"
  by (induction xs) auto

lemma foldl_to_front:
  assumes "0 < cap"
  shows "foldl (\<lambda>ks k. to_front cap k ks) [] ps = take cap (rev (remdups ps))"
proof (induction ps rule: rev_induct)
  case Nil
  then show ?case by simp
next
  case (snoc p ps)
  have "foldl (\<lambda>ks k. to_front cap k ks) [] (ps @ [p]) =
        to_front cap p (take cap (rev (remdups ps)))"
    using snoc by simp
  also have "\<dots> = to_front cap p (rev (remdups ps))"
    using assms by (simp add: to_front_take)
  also have "\<dots> = take cap (rev (remdups (ps @ [p])))"
    by (simp add: to_front_def remdups_snoc rev_filter)
  finally show ?case .
qed

locale mru_list =
  fixes inv :: "'c \<Rightarrow> bool"
    and valid :: "'k \<Rightarrow> bool"
    and keys :: "'c \<Rightarrow> 'k list"
    and cap :: "'c \<Rightarrow> nat"
    and put :: "'c \<Rightarrow> 'k \<times> 'v \<Rightarrow> 'c"
  assumes cap_pos: "inv c \<Longrightarrow> 0 < cap c"
    and put_inv: "inv c \<Longrightarrow> valid k \<Longrightarrow> inv (put c (k, v))"
    and put_cap: "inv c \<Longrightarrow> valid k \<Longrightarrow> cap (put c (k, v)) = cap c"
    and put_keys: "inv c \<Longrightarrow> valid k \<Longrightarrow> keys (put c (k, v)) = to_front (cap c) k (keys c)"
begin

lemma puts_inv:
  "inv c \<Longrightarrow> \<forall>p \<in> set ps. valid (fst p) \<Longrightarrow>
   inv (foldl put c ps) \<and> cap (foldl put c ps) = cap c"
proof (induction ps arbitrary: c)
  case Nil
  then show ?case by simp
next
  case (Cons p ps)
  then show ?case by (cases p) (simp add: put_inv put_cap)
qed

lemma puts_keys:
  "inv c \<Longrightarrow> \<forall>p \<in> set ps. valid (fst p) \<Longrightarrow>
   keys (foldl put c ps) = foldl (\<lambda>ks k. to_front (cap c) k ks) (keys c) (map fst ps)"
proof (induction ps arbitrary: c)
  case Nil
  then show ?case by simp
next
  case (Cons p ps)
  then show ?case by (cases p) (simp add: put_inv put_cap put_keys)
qed

lemma recent_keys:
  assumes "inv c" and "keys c = []" and "\<forall>p \<in> set ps. valid (fst p)"
  shows "keys (foldl put c ps) = take (cap c) (rev (remdups (map fst ps)))"
  using puts_keys [OF assms(1,3)] assms(2) foldl_to_front [OF cap_pos [OF assms(1)]]
  by simp

lemma just_put_is_front:
  assumes "inv c" and "valid k"
  shows "\<exists>ks. keys (put c (k, v)) = k # ks"
  using cap_pos [OF assms(1)] put_keys [OF assms]
  by (cases "cap c") (simp_all add: to_front_def)

end

end
