(* ===== verification/Session_Cache.thy ===== *)
theory Session_Cache
  imports Session_Key Recency
begin

text \<open>
  \<open>session_cache.hpp\<close>: the in-memory cache of completed sessions, least recently used
  entries dropped first. The concrete state keeps what the class keeps: the list of entries
  (front is most recent) whose nodes have stable addresses, and the hash index from
  \<open>SessionKey::hash\<close> to the nodes with that hash. Every public method runs under one
  mutex and is one atomic operation here, except \<open>lookup\<close>, which releases the mutex while
  the existence predicate runs and is modelled as its two locked phases.
\<close>

section \<open>State\<close>

datatype TeeOutcome = TeeNone | TeeFinalized | TeeExistingValid | TeeFailed | TeeAborted

datatype MemoryHitCase = HitNone | ServedValidDisk | RefetchedDiskMiss

datatype PromotionState = PromoNone | PromoPending | Promoted | EagerOnly

record CachedSession =
  display_name :: string
  cs_server_uri :: string
  counts_by_topic :: "(string \<times> u64) list"
  total_messages :: u64
  dataset_id :: u32
  cache_identity :: string
  tee_outcome :: TeeOutcome
  last_hit_case :: MemoryHitCase
  promotion_state :: PromotionState
  generation :: u64

record Entry =
  e_key :: SessionKey
  e_value :: CachedSession

type_synonym node = nat

record SessionCache =
  max_entries :: nat
  next_generation :: u64
  entries :: "(node \<times> Entry) list"
  index :: "u64 \<rightharpoonup> node list"
  next_node :: node

definition new_cache :: "nat \<Rightarrow> SessionCache" where
  "new_cache n = \<lparr>max_entries = (if n \<noteq> 0 then n else 1), next_generation = 0,
                 entries = [], index = Map.empty, next_node = 0\<rparr>"

definition kDefaultMaxEntries :: nat where "kDefaultMaxEntries = 8"

section \<open>Locked helpers\<close>

text \<open>Scan a bucket; a dangling node would be undefined behaviour and ends the scan.\<close>

fun scan_bucket :: "(node \<times> Entry) list \<Rightarrow> SessionKey \<Rightarrow> node list \<Rightarrow> node option" where
  "scan_bucket es k [] = None"
| "scan_bucket es k (n # ns) =
     (case map_of es n of
        None \<Rightarrow> None
      | Some e \<Rightarrow> if key_eq (e_key e) k then Some n else scan_bucket es k ns)"

definition findLocked :: "SessionCache \<Rightarrow> SessionKey \<Rightarrow> node option" where
  "findLocked c k =
     (case index c (key_hash k) of
        None \<Rightarrow> None
      | Some bucket \<Rightarrow> scan_bucket (entries c) k bucket)"

definition promoteLocked :: "SessionCache \<Rightarrow> node \<Rightarrow> SessionCache" where
  "promoteLocked c n =
     (case entries c of
        [] \<Rightarrow> c
      | p # _ \<Rightarrow>
          if fst p = n then c
          else (case map_of (entries c) n of
                  None \<Rightarrow> c
                | Some e \<Rightarrow> c\<lparr>entries := (n, e) # del_key n (entries c)\<rparr>))"

definition eraseLocked :: "SessionCache \<Rightarrow> node \<Rightarrow> u64 \<Rightarrow> SessionCache" where
  "eraseLocked c n h =
     (let bucket = remove1 n (case index c h of None \<Rightarrow> [] | Some b \<Rightarrow> b)
      in c\<lparr>index := (if bucket = [] then (index c)(h := None) else (index c)(h \<mapsto> bucket)),
           entries := del_key n (entries c)\<rparr>)"

definition evictLruLocked :: "SessionCache \<Rightarrow> SessionCache" where
  "evictLruLocked c =
     (if entries c = [] then c
      else let (n, e) = last (entries c)
           in case index c (key_hash (e_key e)) of
                Some _ \<Rightarrow> eraseLocked c n (key_hash (e_key e))
              | None \<Rightarrow> c\<lparr>entries := del_key n (entries c)\<rparr>)"

definition set_value :: "SessionCache \<Rightarrow> node \<Rightarrow> (CachedSession \<Rightarrow> CachedSession) \<Rightarrow> SessionCache" where
  "set_value c n f =
     c\<lparr>entries := map (\<lambda>(m, e). (m, if m = n then e\<lparr>e_value := f (e_value e)\<rparr> else e)) (entries c)\<rparr>"

section \<open>Public operations\<close>

definition store :: "SessionCache \<Rightarrow> SessionKey \<Rightarrow> CachedSession \<Rightarrow> SessionCache" where
  "store c k v =
     (let g = next_generation c + 1;
          c = c\<lparr>next_generation := g\<rparr>;
          v = v\<lparr>generation := g\<rparr>
      in case findLocked c k of
           Some n \<Rightarrow> promoteLocked (set_value c n (\<lambda>_. v)) n
         | None \<Rightarrow>
             (let n = next_node c;
                  b = (case index c (key_hash k) of None \<Rightarrow> [] | Some b \<Rightarrow> b);
                  c = c\<lparr>entries := (n, \<lparr>e_key = k, e_value = v\<rparr>) # entries c,
                        index := (index c)(key_hash k \<mapsto> b @ [n]),
                        next_node := Suc n\<rparr>
              in if max_entries c < length (entries c) then evictLruLocked c else c))"

definition evict :: "SessionCache \<Rightarrow> SessionKey \<Rightarrow> SessionCache" where
  "evict c k = (case findLocked c k of None \<Rightarrow> c | Some n \<Rightarrow> eraseLocked c n (key_hash k))"

text \<open>
  Phase 1 of \<open>lookup\<close>: copy the matching entry out. Phase 3: act on the verdict of the
  predicate against the state at that time. A null predicate is \<^const>\<open>None\<close>.
\<close>

definition value_at :: "SessionCache \<Rightarrow> node \<Rightarrow> CachedSession option" where
  "value_at c n = map_option e_value (map_of (entries c) n)"

definition lookup_candidate :: "SessionCache \<Rightarrow> SessionKey \<Rightarrow> CachedSession option" where
  "lookup_candidate c k = Option.bind (findLocked c k) (value_at c)"

definition lookup_commit ::
  "SessionCache \<Rightarrow> SessionKey \<Rightarrow> (CachedSession \<Rightarrow> bool) option \<Rightarrow> CachedSession
     \<Rightarrow> SessionCache \<times> CachedSession option" where
  "lookup_commit c k ex cand =
     (let present = (case ex of None \<Rightarrow> False | Some p \<Rightarrow> p cand)
      in case findLocked c k of
           None \<Rightarrow> (c, None)
         | Some n \<Rightarrow>
             if \<not> present then
               (case value_at c n of
                  Some cur \<Rightarrow>
                    if ex \<noteq> None \<and> dataset_id cur = dataset_id cand \<and> display_name cur = display_name cand
                    then (eraseLocked c n (key_hash k), None) else (c, None)
                | None \<Rightarrow> (c, None))
             else (let c = promoteLocked c n
                   in (c, case entries c of [] \<Rightarrow> None | p # _ \<Rightarrow> Some (e_value (snd p)))))"

definition lookup ::
  "SessionCache \<Rightarrow> SessionKey \<Rightarrow> (CachedSession \<Rightarrow> bool) option \<Rightarrow> SessionCache \<times> CachedSession option" where
  "lookup c k ex =
     (case lookup_candidate c k of
        None \<Rightarrow> (c, None)
      | Some cand \<Rightarrow> lookup_commit c k ex cand)"

datatype PromotionBegin = BeginNoEntry | BeginAlreadyPending | BeginDatasetMismatch | Begun

definition beginPromotion ::
  "SessionCache \<Rightarrow> SessionKey \<Rightarrow> u32 \<Rightarrow> SessionCache \<times> PromotionBegin \<times> u64 option" where
  "beginPromotion c k ds =
     (case findLocked c k of
        None \<Rightarrow> (c, BeginNoEntry, None)
      | Some n \<Rightarrow>
          (case value_at c n of
             None \<Rightarrow> (c, BeginNoEntry, None)
           | Some v \<Rightarrow>
               if dataset_id v \<noteq> ds then (c, BeginDatasetMismatch, None)
               else if promotion_state v = PromoPending then (c, BeginAlreadyPending, None)
               else (set_value c n (\<lambda>v. v\<lparr>promotion_state := PromoPending\<rparr>), Begun,
                     Some (generation v))))"

definition settlePromotion ::
  "SessionCache \<Rightarrow> SessionKey \<Rightarrow> u32 \<Rightarrow> u64 \<Rightarrow> PromotionState \<Rightarrow> SessionCache" where
  "settlePromotion c k ds g st =
     (case findLocked c k of
        None \<Rightarrow> c
      | Some n \<Rightarrow>
          (case value_at c n of
             None \<Rightarrow> c
           | Some v \<Rightarrow>
               if dataset_id v \<noteq> ds \<or> generation v \<noteq> g \<or> promotion_state v \<noteq> PromoPending then c
               else set_value c n (\<lambda>v. v\<lparr>promotion_state := st\<rparr>)))"

definition updatePromotionState :: "SessionCache \<Rightarrow> SessionKey \<Rightarrow> PromotionState \<Rightarrow> SessionCache" where
  "updatePromotionState c k st =
     (case findLocked c k of
        None \<Rightarrow> c
      | Some n \<Rightarrow> set_value c n (\<lambda>v. v\<lparr>promotion_state := st\<rparr>))"

definition recordHitCase :: "SessionCache \<Rightarrow> SessionKey \<Rightarrow> MemoryHitCase \<Rightarrow> SessionCache" where
  "recordHitCase c k hc =
     (case findLocked c k of
        None \<Rightarrow> c
      | Some n \<Rightarrow> set_value c n (\<lambda>v. v\<lparr>last_hit_case := hc\<rparr>))"

definition cache_size :: "SessionCache \<Rightarrow> nat" where
  "cache_size c = length (entries c)"

section \<open>Invariant and abstraction\<close>

definition nodes_with :: "(node \<times> Entry) list \<Rightarrow> u64 \<Rightarrow> node set" where
  "nodes_with es h = {n. \<exists>e. (n, e) \<in> set es \<and> key_hash (e_key e) = h}"

lemma nodes_with_alt:
  "nodes_with es h = {n. (n, h) \<in> (\<lambda>p. (fst p, key_hash (e_key (snd p)))) ` set es}"
  by (force simp: nodes_with_def)

definition index_ok :: "(node \<times> Entry) list \<Rightarrow> (u64 \<rightharpoonup> node list) \<Rightarrow> bool" where
  "index_ok es ix \<longleftrightarrow>
     (\<forall>h. case ix h of
            None \<Rightarrow> nodes_with es h = {}
          | Some b \<Rightarrow> b \<noteq> [] \<and> distinct b \<and> set b = nodes_with es h)"

definition nodes_ok :: "(node \<times> Entry) list \<Rightarrow> node \<Rightarrow> bool" where
  "nodes_ok es nn \<longleftrightarrow>
     distinct (map fst es) \<and> (\<forall>p \<in> set es. fst p < nn) \<and>
     distinct (map (e_key \<circ> snd) es) \<and> (\<forall>p \<in> set es. session_key (e_key (snd p)))"

definition cache_ok :: "SessionCache \<Rightarrow> bool" where
  "cache_ok c \<longleftrightarrow> nodes_ok (entries c) (next_node c) \<and> index_ok (entries c) (index c)"

definition cache_inv :: "SessionCache \<Rightarrow> bool" where
  "cache_inv c \<longleftrightarrow> cache_ok c \<and> 0 < max_entries c \<and> length (entries c) \<le> max_entries c"

text \<open>What a client sees: keys and values, most recently used first.\<close>

definition cache_abs :: "SessionCache \<Rightarrow> (SessionKey \<times> CachedSession) list" where
  "cache_abs c = map (\<lambda>(n, e). (e_key e, e_value e)) (entries c)"

section \<open>The list of nodes\<close>

abbreviation view :: "node \<times> Entry \<Rightarrow> SessionKey \<times> CachedSession" where
  "view \<equiv> \<lambda>(n, e). (e_key e, e_value e)"

lemma nodes_okD:
  assumes "nodes_ok es nn"
  shows "distinct (map fst es)" "\<And>p. p \<in> set es \<Longrightarrow> fst p < nn"
    "distinct (map (e_key \<circ> snd) es)" "\<And>n e. (n, e) \<in> set es \<Longrightarrow> session_key (e_key e)"
  using assms by (auto simp: nodes_ok_def)

lemma nodes_unique_key:
  assumes "nodes_ok es nn" "(n, e) \<in> set es" "(m, e') \<in> set es" "e_key e = e_key e'"
  shows "n = m \<and> e = e'"
proof -
  have "inj_on (e_key \<circ> snd) (set es)"
    using nodes_okD(3) [OF assms(1)] by (simp add: distinct_map)
  from inj_onD [OF this _ assms(2,3)] assms(4) have "(n, e) = (m, e')" by simp
  then show ?thesis by simp
qed

lemma nodes_map_of: "nodes_ok es nn \<Longrightarrow> map_of es n = Some e \<longleftrightarrow> (n, e) \<in> set es"
  by (simp add: nodes_okD(1))

lemma nodes_ok_del: "nodes_ok es nn \<Longrightarrow> nodes_ok (del_key n es) nn"
  by (simp add: nodes_ok_def del_key_def distinct_map_filter)

lemma mset_splice:
  assumes "distinct (map fst es)" "(n, e) \<in> set es"
  shows "mset ((n, e) # del_key n es) = mset es"
  using assms
proof (induction es)
  case Nil
  then show ?case by simp
next
  case (Cons p es)
  show ?case
  proof (cases "fst p = n")
    case True
    with Cons.prems have "p = (n, e)" and "n \<notin> fst ` set es"
      by (auto simp: image_iff)
    then show ?thesis by (simp add: del_key_id)
  next
    case False
    with Cons show ?thesis by auto
  qed
qed

lemma nodes_ok_splice:
  "nodes_ok es nn \<Longrightarrow> (n, e) \<in> set es \<Longrightarrow> nodes_ok ((n, e) # del_key n es) nn"
proof -
  assume ok: "nodes_ok es nn" and e: "(n, e) \<in> set es"
  then have m: "mset ((n, e) # del_key n es) = mset es"
    by (intro mset_splice) (simp_all add: nodes_okD(1))
  have "mset (map f ((n, e) # del_key n es)) = mset (map f es)" for f :: "node \<times> Entry \<Rightarrow> 'a"
    using arg_cong [OF m, of "image_mset f"] by simp
  then have "distinct (map f ((n, e) # del_key n es)) \<longleftrightarrow> distinct (map f es)"
    for f :: "node \<times> Entry \<Rightarrow> 'a"
    by (rule mset_eq_imp_distinct_iff)
  with ok m show ?thesis unfolding nodes_ok_def by (metis set_mset_mset)
qed

lemma set_splice:
  "nodes_ok es nn \<Longrightarrow> (n, e) \<in> set es \<Longrightarrow> set ((n, e) # del_key n es) = set es"
  by (metis mset_splice nodes_okD(1) set_mset_mset)

lemma view_del:
  assumes "nodes_ok es nn" "(n, e) \<in> set es"
  shows "map view (del_key n es) = del_key (e_key e) (map view es)"
proof -
  have "filter (\<lambda>p. fst p \<noteq> n) es = filter (\<lambda>p. e_key (snd p) \<noteq> e_key e) es"
  proof (rule filter_cong [OF refl])
    fix p assume p: "p \<in> set es"
    have "distinct (map fst es)" by (rule nodes_okD(1) [OF assms(1)])
    with p assms(2) have "fst p = n \<Longrightarrow> p = (n, e)"
      by (metis eq_key_imp_eq_value prod.collapse)
    moreover have "e_key (snd p) = e_key e \<Longrightarrow> n = fst p"
      using nodes_unique_key [OF assms(1) assms(2), of "fst p" "snd p"] p by simp
    ultimately show "(fst p \<noteq> n) = (e_key (snd p) \<noteq> e_key e)" by (metis snd_conv)
  qed
  then show ?thesis
    by (simp add: del_key_def filter_map o_def case_prod_beta)
qed

lemma nodes_with_cong: "set es = set es' \<Longrightarrow> nodes_with es = nodes_with es'"
  by (simp add: nodes_with_def fun_eq_iff)

lemma index_okD:
  assumes "index_ok es ix"
  shows "ix h = None \<Longrightarrow> nodes_with es h = {}"
    "ix h = Some b \<Longrightarrow> b \<noteq> [] \<and> distinct b \<and> set b = nodes_with es h"
  using assms [unfolded index_ok_def, rule_format, of h] by simp_all

lemma index_okI:
  assumes "\<And>h. ix h = None \<Longrightarrow> nodes_with es h = {}"
    and "\<And>h b. ix h = Some b \<Longrightarrow> b \<noteq> [] \<and> distinct b \<and> set b = nodes_with es h"
  shows "index_ok es ix"
  using assms unfolding index_ok_def by (auto split: option.split)

lemma index_ok_push:
  assumes "index_ok es ix" and "n \<notin> fst ` set es"
  shows "index_ok ((n, e) # es)
           (ix(key_hash (e_key e) \<mapsto>
              (case ix (key_hash (e_key e)) of None \<Rightarrow> [] | Some b \<Rightarrow> b) @ [n]))"
proof -
  let ?h = "key_hash (e_key e)"
  have wh: "nodes_with ((n, e) # es) h = nodes_with es h \<union> (if h = ?h then {n} else {})" for h
    by (auto simp: nodes_with_def)
  have new: "n \<notin> nodes_with es h" for h
    using assms(2) by (force simp: nodes_with_def)
  show ?thesis
  proof (rule index_okI)
    fix h assume "(ix(?h \<mapsto> (case ix ?h of None \<Rightarrow> [] | Some b \<Rightarrow> b) @ [n])) h = None"
    then show "nodes_with ((n, e) # es) h = {}"
      using index_okD(1) [OF assms(1)] by (simp add: wh split: if_splits)
  next
    fix h b assume "(ix(?h \<mapsto> (case ix ?h of None \<Rightarrow> [] | Some b \<Rightarrow> b) @ [n])) h = Some b"
    note b = this
    show "b \<noteq> [] \<and> distinct b \<and> set b = nodes_with ((n, e) # es) h"
    proof (cases "ix h")
      case None
      with b have "h = ?h" "b = [n]" by (auto split: if_splits)
      with index_okD(1) [OF assms(1) None] show ?thesis by (simp add: wh)
    next
      case (Some b')
      note b' = index_okD(2) [OF assms(1) Some]
      show ?thesis
      proof (cases "h = ?h")
        case True
        with b Some have "b = b' @ [n]" by simp
        with b' True new [of h] show ?thesis by (simp add: wh)
      next
        case False
        with b Some have "b = b'" by simp
        with b' False show ?thesis by (simp add: wh)
      qed
    qed
  qed
qed

lemma index_ok_erase:
  assumes "index_ok es ix" and ok: "nodes_ok es nn" and "(n, e) \<in> set es"
    and "key_hash (e_key e) = h"
  shows "index_ok (del_key n es)
           (let b = remove1 n (case ix h of None \<Rightarrow> [] | Some b \<Rightarrow> b)
            in if b = [] then ix(h := None) else ix(h \<mapsto> b))"
proof -
  have n_h: "n \<in> nodes_with es h"
    using assms(3,4) by (auto simp: nodes_with_def)
  then obtain b where b: "ix h = Some b" "distinct b" "set b = nodes_with es h"
    using index_okD [OF assms(1)] by (cases "ix h") auto
  have only: "n \<in> nodes_with es h' \<Longrightarrow> h' = h" for h'
    using ok assms(3,4) by (auto simp: nodes_with_def nodes_map_of [symmetric])
  have wh: "nodes_with (del_key n es) h' = nodes_with es h' - {n}" for h'
    by (auto simp: nodes_with_def set_del_key)
  have other: "h' \<noteq> h \<Longrightarrow> nodes_with (del_key n es) h' = nodes_with es h'" for h'
    using only wh by blast
  have bucket: "set (remove1 n b) = nodes_with (del_key n es) h" "distinct (remove1 n b)"
    using b by (simp_all add: wh)
  have empty: "remove1 n b = [] \<longleftrightarrow> nodes_with (del_key n es) h = {}"
    using bucket(1) by auto
  show ?thesis
    unfolding index_ok_def Let_def
  proof (intro allI)
    fix h'
    show "case (if remove1 n (case ix h of None \<Rightarrow> [] | Some b \<Rightarrow> b) = [] then ix(h := None)
                else ix(h \<mapsto> remove1 n (case ix h of None \<Rightarrow> [] | Some b \<Rightarrow> b))) h' of
            None \<Rightarrow> nodes_with (del_key n es) h' = {}
          | Some b \<Rightarrow> b \<noteq> [] \<and> distinct b \<and> set b = nodes_with (del_key n es) h'"
      using b(1) bucket empty other [of h'] index_okD [OF assms(1), of h']
      by (cases "h' = h") (auto split: option.splits)
  qed
qed

section \<open>Finding entries\<close>

lemma scan_bucket_iff:
  assumes ok: "nodes_ok es nn" and "session_key k" and "set b \<subseteq> fst ` set es"
  shows "scan_bucket es k b = Some n \<longleftrightarrow> n \<in> set b \<and> (\<exists>e. (n, e) \<in> set es \<and> e_key e = k)"
  using assms(3)
proof (induction b)
  case Nil
  then show ?case by simp
next
  case (Cons m ms)
  from Cons.prems obtain e where e: "(m, e) \<in> set es" by auto
  then have m: "map_of es m = Some e" using ok by (simp add: nodes_map_of)
  have eq: "key_eq (e_key e) k \<longleftrightarrow> e_key e = k"
    using nodes_okD(4) [OF ok e] assms(2) by (rule key_eq_iff)
  show ?case
  proof (cases "e_key e = k")
    case True
    have "m' = m" if "(m', e') \<in> set es" "e_key e' = k" for m' e'
      using nodes_unique_key [OF ok that(1) e] True that(2) by simp
    then have "(\<exists>e'. (n, e') \<in> set es \<and> e_key e' = k) \<longleftrightarrow> n = m"
      using e True by blast
    moreover have "scan_bucket es k (m # ms) = Some m" using m eq True by simp
    ultimately show ?thesis by auto
  next
    case False
    have "(m, e') \<in> set es \<Longrightarrow> e' = e" for e'
      using ok e by (metis nodes_map_of option.inject)
    with False m eq Cons show ?thesis by auto
  qed
qed

lemma findLocked_iff:
  assumes "cache_ok c" and "session_key k"
  shows "findLocked c k = Some n \<longleftrightarrow> (\<exists>e. (n, e) \<in> set (entries c) \<and> e_key e = k)"
proof -
  have ok: "nodes_ok (entries c) (next_node c)" and ix: "index_ok (entries c) (index c)"
    using assms(1) by (simp_all add: cache_ok_def)
  show ?thesis
  proof (cases "index c (key_hash k)")
    case None
    then have "nodes_with (entries c) (key_hash k) = {}"
      using index_okD(1) [OF ix] by blast
    with None show ?thesis by (auto simp: findLocked_def nodes_with_def)
  next
    case (Some b)
    then have b: "set b = nodes_with (entries c) (key_hash k)"
      using index_okD(2) [OF ix] by blast
    then have "set b \<subseteq> fst ` set (entries c)"
      by (force simp: nodes_with_def)
    with Some b show ?thesis
      by (auto simp: findLocked_def scan_bucket_iff [OF ok assms(2)] nodes_with_def)
  qed
qed

lemma map_of_view:
  assumes "nodes_ok es nn" and "(n, e) \<in> set es"
  shows "map_of (map view es) (e_key e) = Some (e_value e)"
proof -
  have "distinct (map fst (map view es))"
    using nodes_okD(3) [OF assms(1)] by (simp add: o_def case_prod_beta)
  moreover have "(e_key e, e_value e) \<in> set (map view es)"
    using assms(2) by force
  ultimately show ?thesis by simp
qed

text \<open>The two outcomes of a search, in terms of what a client sees.\<close>

lemma find_cases:
  assumes "cache_ok c" and "session_key k"
  obtains (absent) "findLocked c k = None" "map_of (cache_abs c) k = None"
    | (found) n e where "findLocked c k = Some n" "(n, e) \<in> set (entries c)" "e_key e = k"
        "value_at c n = Some (e_value e)" "map_of (cache_abs c) k = Some (e_value e)"
proof (cases "findLocked c k")
  case None
  then have "\<nexists>n e. (n, e) \<in> set (entries c) \<and> e_key e = k"
    using findLocked_iff [OF assms] by (metis option.distinct(1))
  then have "k \<notin> fst ` set (cache_abs c)" by (force simp: cache_abs_def)
  then have "map_of (cache_abs c) k = None" by (simp add: map_of_eq_None_iff)
  with None that(1) show ?thesis by blast
next
  case (Some n)
  have ok: "nodes_ok (entries c) (next_node c)" using assms(1) by (simp add: cache_ok_def)
  from Some obtain e where e: "(n, e) \<in> set (entries c)" "e_key e = k"
    using findLocked_iff [OF assms] by blast
  moreover have "value_at c n = Some (e_value e)"
    using nodes_map_of [OF ok, of n e] e(1) by (simp add: value_at_def)
  moreover have "map_of (cache_abs c) k = Some (e_value e)"
    using map_of_view [OF ok e(1)] e(2) by (simp add: cache_abs_def)
  ultimately show ?thesis using that(2) Some by blast
qed

section \<open>Effect of the locked helpers\<close>

definition upd_val :: "'k \<Rightarrow> ('v \<Rightarrow> 'v) \<Rightarrow> ('k \<times> 'v) list \<Rightarrow> ('k \<times> 'v) list" where
  "upd_val k f m = map (\<lambda>(k', v). (k', if k' = k then f v else v)) m"

lemma map_of_upd_val: "map_of (upd_val k f m) = (map_of m)(k := map_option f (map_of m k))"
  by (induction m) (auto simp: upd_val_def fun_eq_iff)

lemma fst_upd_val [simp]: "map fst (upd_val k f m) = map fst m"
  by (simp add: upd_val_def o_def case_prod_beta)

lemma length_upd_val [simp]: "length (upd_val k f m) = length m"
  by (simp add: upd_val_def)

lemma length_abs: "length (cache_abs c) = length (entries c)"
  by (simp add: cache_abs_def)

lemma distinct_abs: "cache_ok c \<Longrightarrow> distinct (map fst (cache_abs c))"
  by (simp add: cache_ok_def nodes_ok_def cache_abs_def o_def case_prod_beta)

lemma index_ok_same: "nodes_with es' = nodes_with es \<Longrightarrow> index_ok es m \<Longrightarrow> index_ok es' m"
  unfolding index_ok_def by metis

lemma promote_eq:
  assumes "cache_ok c" and "(n, e) \<in> set (entries c)"
  shows "promoteLocked c n = c\<lparr>entries := (n, e) # del_key n (entries c)\<rparr>"
proof -
  have ok: "nodes_ok (entries c) (next_node c)" using assms(1) by (simp add: cache_ok_def)
  then have m: "map_of (entries c) n = Some e" using assms(2) by (simp add: nodes_map_of)
  obtain p es where es: "entries c = p # es" using assms(2) by (cases "entries c") auto
  show ?thesis
  proof (cases "fst p = n")
    case True
    then have "p = (n, e)" using m es by (cases p) simp
    moreover have "n \<notin> fst ` set es" using nodes_okD(1) [OF ok] es True by simp
    ultimately have "c = c\<lparr>entries := (n, e) # del_key n (entries c)\<rparr>"
      by (simp add: es del_key_id)
    with True es show ?thesis by (simp add: promoteLocked_def)
  next
    case False
    with m es show ?thesis by (simp add: promoteLocked_def)
  qed
qed

lemma promote_ok:
  assumes "cache_ok c" and "(n, e) \<in> set (entries c)"
  shows "cache_ok (promoteLocked c n)"
    and "cache_abs (promoteLocked c n) = (e_key e, e_value e) # del_key (e_key e) (cache_abs c)"
proof -
  have ok: "nodes_ok (entries c) (next_node c)" and ix: "index_ok (entries c) (index c)"
    using assms(1) by (simp_all add: cache_ok_def)
  have "nodes_with ((n, e) # del_key n (entries c)) = nodes_with (entries c)"
    by (rule nodes_with_cong) (rule set_splice [OF ok assms(2)])
  then have "index_ok ((n, e) # del_key n (entries c)) (index c)"
    using ix by (rule index_ok_same)
  then show "cache_ok (promoteLocked c n)"
    using nodes_ok_splice [OF ok assms(2)] by (simp add: promote_eq [OF assms] cache_ok_def)
  show "cache_abs (promoteLocked c n) = (e_key e, e_value e) # del_key (e_key e) (cache_abs c)"
    using view_del [OF ok assms(2)] by (simp add: promote_eq [OF assms] cache_abs_def)
qed

lemma erase_ok:
  assumes "cache_ok c" and "(n, e) \<in> set (entries c)"
  shows "cache_ok (eraseLocked c n (key_hash (e_key e)))"
    and "cache_abs (eraseLocked c n (key_hash (e_key e))) = del_key (e_key e) (cache_abs c)"
proof -
  have ok: "nodes_ok (entries c) (next_node c)" and ix: "index_ok (entries c) (index c)"
    using assms(1) by (simp_all add: cache_ok_def)
  show "cache_ok (eraseLocked c n (key_hash (e_key e)))"
    using index_ok_erase [OF ix ok assms(2) refl] nodes_ok_del [OF ok]
    by (simp add: eraseLocked_def cache_ok_def Let_def)
  show "cache_abs (eraseLocked c n (key_hash (e_key e))) = del_key (e_key e) (cache_abs c)"
    using view_del [OF ok assms(2)] by (simp add: eraseLocked_def cache_abs_def Let_def)
qed

lemma set_value_ok:
  assumes "cache_ok c" and "(n, e) \<in> set (entries c)"
  shows "cache_ok (set_value c n f)"
    and "cache_abs (set_value c n f) = upd_val (e_key e) f (cache_abs c)"
    and "(n, e\<lparr>e_value := f (e_value e)\<rparr>) \<in> set (entries (set_value c n f))"
proof -
  have ok: "nodes_ok (entries c) (next_node c)" and ix: "index_ok (entries c) (index c)"
    using assms(1) by (simp_all add: cache_ok_def)
  let ?g = "\<lambda>(m, e). (m, if m = n then e\<lparr>e_value := f (e_value e)\<rparr> else e)"
  have g: "fst (?g p) = fst p" "e_key (snd (?g p)) = e_key (snd p)" for p
    by (cases p; simp)+
  have "nodes_ok (map ?g (entries c)) (next_node c)"
    using ok unfolding nodes_ok_def by (simp add: o_def g)
  moreover have "nodes_with (map ?g (entries c)) = nodes_with (entries c)"
    by (simp add: nodes_with_alt image_image g fun_eq_iff flip: image_Collect)
  ultimately show "cache_ok (set_value c n f)"
    using index_ok_same [OF _ ix] by (simp add: set_value_def cache_ok_def)
  show "(n, e\<lparr>e_value := f (e_value e)\<rparr>) \<in> set (entries (set_value c n f))"
    using assms(2) by (force simp: set_value_def)
  show "cache_abs (set_value c n f) = upd_val (e_key e) f (cache_abs c)"
  proof -
    have "view (?g p) = (\<lambda>(k', v). (k', if k' = e_key e then f v else v)) (view p)"
      if "p \<in> set (entries c)" for p
    proof -
      obtain m d where p: "p = (m, d)" by (cases p)
      show ?thesis
      proof (cases "m = n")
        case True
        then have "d = e" using that assms(2) ok p by (metis nodes_map_of option.inject)
        with True p show ?thesis by simp
      next
        case False
        then have "e_key d \<noteq> e_key e"
          using nodes_unique_key [OF ok _ assms(2)] that p by blast
        with False p show ?thesis by simp
      qed
    qed
    then show ?thesis by (simp add: set_value_def cache_abs_def upd_val_def)
  qed
qed

lemma del_key_last:
  assumes "distinct (map fst xs)" and "xs \<noteq> []"
  shows "del_key (fst (last xs)) xs = butlast xs"
proof -
  obtain ys y where xs: "xs = ys @ [y]" using assms(2) by (metis rev_exhaust)
  then have "fst y \<notin> fst ` set ys" using assms(1) by auto
  then have "filter (\<lambda>p. fst p \<noteq> fst y) ys = ys" using del_key_id [of "fst y" ys]
    by (simp add: del_key_def)
  with xs show ?thesis by (simp add: del_key_def)
qed

lemma evict_lru_ok:
  assumes "cache_ok c" and "entries c \<noteq> []"
  shows "cache_ok (evictLruLocked c)" and "cache_abs (evictLruLocked c) = butlast (cache_abs c)"
proof -
  have ok: "nodes_ok (entries c) (next_node c)" and ix: "index_ok (entries c) (index c)"
    using assms(1) by (simp_all add: cache_ok_def)
  obtain n e where le: "last (entries c) = (n, e)" by (cases "last (entries c)")
  then have mem: "(n, e) \<in> set (entries c)" using assms(2) by (metis last_in_set)
  then have "n \<in> nodes_with (entries c) (key_hash (e_key e))" by (auto simp: nodes_with_def)
  then have "index c (key_hash (e_key e)) \<noteq> None" using index_okD(1) [OF ix] by blast
  then have ev: "evictLruLocked c = eraseLocked c n (key_hash (e_key e))"
    using assms(2) le by (auto simp: evictLruLocked_def)
  show "cache_ok (evictLruLocked c)" unfolding ev by (rule erase_ok(1) [OF assms(1) mem])
  have "e_key e = fst (last (cache_abs c))"
    using le assms(2) by (simp add: cache_abs_def last_map)
  then show "cache_abs (evictLruLocked c) = butlast (cache_abs c)"
    unfolding ev erase_ok(2) [OF assms(1) mem]
    using del_key_last [OF distinct_abs [OF assms(1)]] assms(2) by (simp add: cache_abs_def)
qed

section \<open>Refinement of the least-recently-used list\<close>

text \<open>
  The atomic steps of the cache (\<open>OpCommit\<close> is phase 3 of \<open>lookup\<close>, with the copy
  taken in phase 1) and what each does to the plain list of keys and values.
\<close>

datatype cache_op =
    OpStore SessionKey CachedSession
  | OpEvict SessionKey
  | OpCommit SessionKey "(CachedSession \<Rightarrow> bool) option" CachedSession
  | OpBegin SessionKey u32
  | OpSettle SessionKey u32 u64 PromotionState
  | OpUpdate SessionKey PromotionState
  | OpRecord SessionKey MemoryHitCase

fun op_key :: "cache_op \<Rightarrow> SessionKey" where
  "op_key (OpStore k _) = k"
| "op_key (OpEvict k) = k"
| "op_key (OpCommit k _ _) = k"
| "op_key (OpBegin k _) = k"
| "op_key (OpSettle k _ _ _) = k"
| "op_key (OpUpdate k _) = k"
| "op_key (OpRecord k _) = k"

fun run_op :: "SessionCache \<Rightarrow> cache_op \<Rightarrow> SessionCache" where
  "run_op c (OpStore k v) = store c k v"
| "run_op c (OpEvict k) = evict c k"
| "run_op c (OpCommit k ex cand) = fst (lookup_commit c k ex cand)"
| "run_op c (OpBegin k ds) = fst (beginPromotion c k ds)"
| "run_op c (OpSettle k ds g st) = settlePromotion c k ds g st"
| "run_op c (OpUpdate k st) = updatePromotionState c k st"
| "run_op c (OpRecord k hc) = recordHitCase c k hc"

type_synonym lru = "(SessionKey \<times> CachedSession) list \<times> u64"

definition settles :: "u32 \<Rightarrow> u64 \<Rightarrow> CachedSession \<Rightarrow> bool" where
  "settles ds g v \<longleftrightarrow> dataset_id v = ds \<and> generation v = g \<and> promotion_state v = PromoPending"

fun lru_op :: "nat \<Rightarrow> lru \<Rightarrow> cache_op \<Rightarrow> lru" where
  "lru_op cap (m, g) (OpStore k v) =
     (take cap ((k, v\<lparr>generation := g + 1\<rparr>) # del_key k m), g + 1)"
| "lru_op cap (m, g) (OpEvict k) = (del_key k m, g)"
| "lru_op cap (m, g) (OpCommit k ex cand) =
     (case map_of m k of
        None \<Rightarrow> (m, g)
      | Some cur \<Rightarrow>
          (case ex of
             None \<Rightarrow> (m, g)
           | Some p \<Rightarrow>
               if p cand then ((k, cur) # del_key k m, g)
               else if dataset_id cur = dataset_id cand \<and> display_name cur = display_name cand
                    then (del_key k m, g) else (m, g)))"
| "lru_op cap (m, g) (OpBegin k ds) =
     (upd_val k (\<lambda>v. if dataset_id v = ds then v\<lparr>promotion_state := PromoPending\<rparr> else v) m, g)"
| "lru_op cap (m, g) (OpSettle k ds g' st) =
     (upd_val k (\<lambda>v. if settles ds g' v then v\<lparr>promotion_state := st\<rparr> else v) m, g)"
| "lru_op cap (m, g) (OpUpdate k st) = (upd_val k (\<lambda>v. v\<lparr>promotion_state := st\<rparr>) m, g)"
| "lru_op cap (m, g) (OpRecord k hc) = (upd_val k (\<lambda>v. v\<lparr>last_hit_case := hc\<rparr>) m, g)"

definition cache_lru :: "SessionCache \<Rightarrow> lru" where
  "cache_lru c = (cache_abs c, next_generation c)"

lemma promote_frame [simp]:
  "max_entries (promoteLocked c n) = max_entries c"
  "next_generation (promoteLocked c n) = next_generation c"
  by (simp_all add: promoteLocked_def split: list.split option.split)

lemma erase_frame [simp]:
  "max_entries (eraseLocked c n h) = max_entries c"
  "next_generation (eraseLocked c n h) = next_generation c"
  by (simp_all add: eraseLocked_def Let_def)

lemma evict_lru_frame [simp]:
  "max_entries (evictLruLocked c) = max_entries c"
  "next_generation (evictLruLocked c) = next_generation c"
  by (simp_all add: evictLruLocked_def split: prod.split option.split)

lemma set_value_frame [simp]:
  "max_entries (set_value c n f) = max_entries c"
  "next_generation (set_value c n f) = next_generation c"
  by (simp_all add: set_value_def)

lemma upd_val_absent: "map_of m k = None \<Longrightarrow> upd_val k f m = m"
  by (induction m) (auto simp: upd_val_def split: if_splits)

lemma upd_val_cong:
  assumes "distinct (map fst m)" and "map_of m k = Some v" and "f v = f' v"
  shows "upd_val k f m = upd_val k f' m"
proof -
  have "v' = v" if "(k, v') \<in> set m" for v' using assms(1,2) that by (metis map_of_is_SomeI option.inject)
  then show ?thesis using assms(3) by (auto simp: upd_val_def)
qed

lemma upd_val_id: "upd_val k (\<lambda>v. v) m = m"
  by (induction m) (auto simp: upd_val_def)

lemma upd_val_same:
  "distinct (map fst m) \<Longrightarrow> map_of m k = Some v \<Longrightarrow> f v = v \<Longrightarrow> upd_val k f m = m"
  using upd_val_cong [of m k v f "\<lambda>v. v"] by (simp add: upd_val_id)

lemma del_upd_val: "del_key k (upd_val k f m) = del_key k m"
  by (induction m) (auto simp: upd_val_def del_key_def)

lemma length_del_present:
  assumes "distinct (map fst m)" and "map_of m k = Some v"
  shows "Suc (length (del_key k m)) = length m"
  using assms
proof (induction m)
  case Nil
  then show ?case by simp
next
  case (Cons p m)
  show ?case
  proof (cases "fst p = k")
    case True
    with Cons.prems have "del_key k m = m" by (intro del_key_id) auto
    with True show ?thesis by (simp add: del_key_def)
  next
    case False
    with Cons show ?thesis by (cases p) (simp add: del_key_def)
  qed
qed

definition simulates :: "SessionCache \<Rightarrow> cache_op \<Rightarrow> SessionCache \<Rightarrow> bool" where
  "simulates c op c' \<longleftrightarrow>
     cache_inv c' \<and> max_entries c' = max_entries c \<and>
     cache_lru c' = lru_op (max_entries c) (cache_lru c) op"

lemma cache_invI:
  "cache_ok c \<Longrightarrow> 0 < max_entries c \<Longrightarrow> length (cache_abs c) \<le> max_entries c \<Longrightarrow> cache_inv c"
  by (simp add: cache_inv_def length_abs)

lemma simulatesI:
  assumes "cache_inv c" and "cache_ok c'" and "max_entries c' = max_entries c"
    and "cache_abs c' = fst (lru_op (max_entries c) (cache_lru c) op)"
    and "next_generation c' = snd (lru_op (max_entries c) (cache_lru c) op)"
    and "length (cache_abs c') \<le> max_entries c"
  shows "simulates c op c'"
proof -
  have "cache_inv c'" using assms(1,2,3,6) by (intro cache_invI) (simp_all add: cache_inv_def)
  with assms show ?thesis by (simp add: simulates_def cache_lru_def prod_eq_iff)
qed

lemma abs_le: "cache_inv c \<Longrightarrow> length (cache_abs c) \<le> max_entries c"
  by (simp add: cache_inv_def length_abs)

lemma inv_ok: "cache_inv c \<Longrightarrow> cache_ok c"
  by (simp add: cache_inv_def)

lemma sim_set_value:
  assumes "cache_inv c" and "(n, e) \<in> set (entries c)"
    and "lru_op (max_entries c) (cache_lru c) op = (upd_val (e_key e) f (cache_abs c), next_generation c)"
  shows "simulates c op (set_value c n f)"
  using set_value_ok [OF inv_ok [OF assms(1)] assms(2), of f] assms(3) abs_le [OF assms(1)]
  by (intro simulatesI [OF assms(1)]) simp_all

lemma sim_same:
  "cache_inv c \<Longrightarrow> lru_op (max_entries c) (cache_lru c) op = cache_lru c \<Longrightarrow> simulates c op c"
  by (simp add: simulates_def)

lemma store_new_ok:
  fixes v :: CachedSession
  assumes "cache_ok c" and "findLocked c k = None" and "session_key k"
  defines "n \<equiv> next_node c"
  defines "c' \<equiv> c\<lparr>entries := (n, \<lparr>e_key = k, e_value = v\<rparr>) # entries c,
                index := (index c)(key_hash k \<mapsto> (case index c (key_hash k) of None \<Rightarrow> [] | Some b \<Rightarrow> b) @ [n]),
                next_node := Suc n\<rparr>"
  shows "cache_ok c'" and "cache_abs c' = (k, v) # cache_abs c"
proof -
  have ok: "nodes_ok (entries c) (next_node c)" and ix: "index_ok (entries c) (index c)"
    using assms(1) by (simp_all add: cache_ok_def)
  have fresh: "n \<notin> fst ` set (entries c)" using nodes_okD(2) [OF ok] by (fastforce simp: n_def)
  have "k \<notin> (e_key \<circ> snd) ` set (entries c)"
    using findLocked_iff [OF assms(1,3)] assms(2) by force
  then have "nodes_ok ((n, \<lparr>e_key = k, e_value = v\<rparr>) # entries c) (Suc n)"
    using ok fresh assms(3) by (auto simp: nodes_ok_def n_def less_SucI)
  then show "cache_ok c'"
    using index_ok_push [OF ix fresh, of "\<lparr>e_key = k, e_value = v\<rparr>"]
    by (simp add: cache_ok_def c'_def)
  show "cache_abs c' = (k, v) # cache_abs c" by (simp add: cache_abs_def c'_def)
qed

lemma next_gen_indep [simp]:
  "findLocked (c\<lparr>next_generation := g\<rparr>) k = findLocked c k"
  "cache_ok (c\<lparr>next_generation := g\<rparr>) = cache_ok c"
  "cache_abs (c\<lparr>next_generation := g\<rparr>) = cache_abs c"
  by (simp_all add: findLocked_def cache_ok_def cache_abs_def split: option.split)

lemma store_sim:
  assumes "cache_inv c" and "session_key k"
  shows "simulates c (OpStore k v) (store c k v)"
proof -
  define g where "g = next_generation c + 1"
  define w where "w = v\<lparr>generation := g\<rparr>"
  define d where "d = c\<lparr>next_generation := g\<rparr>"
  have ok: "cache_ok d" and abs: "cache_abs d = cache_abs c" and f: "findLocked d k = findLocked c k"
    and mx: "max_entries d = max_entries c"
    using assms(1) by (simp_all add: d_def cache_inv_def)
  from ok assms(2) show ?thesis
  proof (cases rule: find_cases)
    case (found n e)
    let ?c = "set_value d n (\<lambda>_. w)"
    have st: "store c k v = promoteLocked ?c n"
      using found(1) by (simp add: store_def d_def w_def g_def Let_def)
    have sv: "cache_ok ?c" "cache_abs ?c = upd_val k (\<lambda>_. w) (cache_abs c)"
      "(n, e\<lparr>e_value := w\<rparr>) \<in> set (entries ?c)"
      using set_value_ok [OF ok found(2), of "\<lambda>_. w"] found(3) abs by simp_all
    have res: "cache_ok (store c k v)" "cache_abs (store c k v) = (k, w) # del_key k (cache_abs c)"
      using promote_ok [OF sv(1,3)] found(3) by (simp_all add: st sv(2) del_upd_val)
    moreover have "Suc (length (del_key k (cache_abs c))) \<le> max_entries c"
      using length_del_present [OF distinct_abs [OF ok] found(5)] abs abs_le [OF assms(1)] by simp
    moreover have "max_entries (store c k v) = max_entries c" "next_generation (store c k v) = g"
      by (simp_all add: st d_def)
    ultimately show ?thesis
      by (intro simulatesI [OF assms(1)]) (simp_all add: cache_lru_def w_def g_def)
  next
    case absent
    let ?c = "d\<lparr>entries := (next_node d, \<lparr>e_key = k, e_value = w\<rparr>) # entries d,
                index := (index d)(key_hash k \<mapsto>
                   (case index d (key_hash k) of None \<Rightarrow> [] | Some b \<Rightarrow> b) @ [next_node d]),
                next_node := Suc (next_node d)\<rparr>"
    have st: "store c k v = (if max_entries c < length (entries ?c) then evictLruLocked ?c else ?c)"
      using absent(1) by (simp add: store_def d_def w_def g_def Let_def)
    have nw: "cache_ok ?c" "cache_abs ?c = (k, w) # cache_abs c"
      using store_new_ok [OF ok absent(1) assms(2), of w] abs by simp_all
    have dk: "del_key k (cache_abs c) = cache_abs c"
      using absent(2) abs by (simp add: del_key_id map_of_eq_None_iff)
    have len: "length (entries ?c) = Suc (length (cache_abs c))" using nw(2) length_abs [of ?c] by simp
    have ev: "cache_ok (evictLruLocked ?c)" "cache_abs (evictLruLocked ?c) = butlast ((k, w) # cache_abs c)"
      using evict_lru_ok [OF nw(1)] nw(2) by simp_all
    have "cache_ok (store c k v)" using nw ev by (simp add: st)
    moreover have "cache_abs (store c k v) = take (max_entries c) ((k, w) # del_key k (cache_abs c))"
    proof (cases "max_entries c < length (entries ?c)")
      case True
      then have "length (cache_abs c) = max_entries c" using len abs_le [OF assms(1)] by simp
      with True ev(2) show ?thesis by (simp add: st dk butlast_conv_take)
    next
      case False
      with len nw(2) show ?thesis by (simp add: st dk)
    qed
    moreover have "max_entries (store c k v) = max_entries c" "next_generation (store c k v) = g"
      by (simp_all add: st d_def)
    ultimately show ?thesis
      by (intro simulatesI [OF assms(1)]) (simp_all add: cache_lru_def w_def g_def)
  qed
qed

lemma evict_sim:
  assumes "cache_inv c" and "session_key k"
  shows "simulates c (OpEvict k) (evict c k)"
  using inv_ok [OF assms(1)] assms(2)
proof (cases rule: find_cases)
  case absent
  then have "del_key k (cache_abs c) = cache_abs c" by (simp add: del_key_id map_of_eq_None_iff)
  with absent(1) sim_same [OF assms(1)] show ?thesis by (simp add: evict_def cache_lru_def)
next
  case (found n e)
  then show ?thesis
    using erase_ok [OF inv_ok [OF assms(1)] found(2)] abs_le [OF assms(1)]
      length_del_present [OF distinct_abs [OF inv_ok [OF assms(1)]] found(5)]
    by (intro simulatesI [OF assms(1)]) (simp_all add: evict_def cache_lru_def)
qed

lemma commit_sim:
  assumes "cache_inv c" and "session_key k"
  shows "simulates c (OpCommit k ex cand) (fst (lookup_commit c k ex cand))"
  using inv_ok [OF assms(1)] assms(2)
proof (cases rule: find_cases)
  case absent
  with sim_same [OF assms(1)] show ?thesis by (simp add: lookup_commit_def cache_lru_def)
next
  case (found n e)
  note eras = erase_ok [OF inv_ok [OF assms(1)] found(2)]
    and prom = promote_ok [OF inv_ok [OF assms(1)] found(2)]
    and len = length_del_present [OF distinct_abs [OF inv_ok [OF assms(1)]] found(5)] abs_le [OF assms(1)]
      inv_ok [OF assms(1)]
  show ?thesis
  proof (cases ex)
    case None
    with found sim_same [OF assms(1)] show ?thesis by (simp add: lookup_commit_def cache_lru_def)
  next
    case (Some p)
    then show ?thesis
      using found eras prom len
      by (intro simulatesI [OF assms(1)]) (simp_all add: lookup_commit_def cache_lru_def Let_def)
  qed
qed

lemma begin_sim:
  assumes "cache_inv c" and "session_key k"
  shows "simulates c (OpBegin k ds) (fst (beginPromotion c k ds))"
  using inv_ok [OF assms(1)] assms(2)
proof (cases rule: find_cases)
  case absent
  with sim_same [OF assms(1)] show ?thesis
    by (simp add: beginPromotion_def cache_lru_def upd_val_absent)
next
  case (found n e)
  note dist = distinct_abs [OF inv_ok [OF assms(1)]]
  let ?f = "\<lambda>v. if dataset_id v = ds then v\<lparr>promotion_state := PromoPending\<rparr> else v"
  show ?thesis
  proof (cases "dataset_id (e_value e) = ds \<and> promotion_state (e_value e) \<noteq> PromoPending")
    case True
    then have "upd_val k ?f (cache_abs c) = upd_val k (\<lambda>v. v\<lparr>promotion_state := PromoPending\<rparr>) (cache_abs c)"
      by (intro upd_val_cong [OF dist found(5)]) simp
    with True found show ?thesis
      by (simp add: beginPromotion_def) (rule sim_set_value [OF assms(1) found(2)], simp add: cache_lru_def)
  next
    case False
    then have "upd_val k ?f (cache_abs c) = cache_abs c"
      by (intro upd_val_same [OF dist found(5)]) auto
    with False found sim_same [OF assms(1)] show ?thesis
      by (auto simp: beginPromotion_def cache_lru_def)
  qed
qed

lemma settle_sim:
  assumes "cache_inv c" and "session_key k"
  shows "simulates c (OpSettle k ds g st) (settlePromotion c k ds g st)"
  using inv_ok [OF assms(1)] assms(2)
proof (cases rule: find_cases)
  case absent
  with sim_same [OF assms(1)] show ?thesis
    by (simp add: settlePromotion_def cache_lru_def upd_val_absent)
next
  case (found n e)
  note dist = distinct_abs [OF inv_ok [OF assms(1)]]
  let ?f = "\<lambda>v. if settles ds g v then v\<lparr>promotion_state := st\<rparr> else v"
  show ?thesis
  proof (cases "settles ds g (e_value e)")
    case True
    then have "upd_val k ?f (cache_abs c) = upd_val k (\<lambda>v. v\<lparr>promotion_state := st\<rparr>) (cache_abs c)"
      by (intro upd_val_cong [OF dist found(5)]) simp
    with True found show ?thesis
      by (simp add: settlePromotion_def settles_def)
        (rule sim_set_value [OF assms(1) found(2)], simp add: cache_lru_def settles_def)
  next
    case False
    then have "upd_val k ?f (cache_abs c) = cache_abs c"
      by (intro upd_val_same [OF dist found(5)]) auto
    with False found sim_same [OF assms(1)] show ?thesis
      by (auto simp: settlePromotion_def cache_lru_def settles_def)
  qed
qed

lemma update_sim:
  assumes "cache_inv c" and "session_key k"
  shows "simulates c (OpUpdate k st) (updatePromotionState c k st)"
    and "simulates c (OpRecord k hc) (recordHitCase c k hc)"
  by (rule find_cases [OF inv_ok [OF assms(1)] assms(2)];
      use sim_same [OF assms(1)] in \<open>auto simp: updatePromotionState_def cache_lru_def upd_val_absent
        intro!: sim_set_value [OF assms(1)]\<close>)
    (rule find_cases [OF inv_ok [OF assms(1)] assms(2)];
      use sim_same [OF assms(1)] in \<open>auto simp: recordHitCase_def cache_lru_def upd_val_absent
        intro!: sim_set_value [OF assms(1)]\<close>)

lemma op_sim:
  "cache_inv c \<Longrightarrow> session_key (op_key op) \<Longrightarrow> simulates c op (run_op c op)"
  by (cases op) (simp_all add: store_sim evict_sim commit_sim begin_sim settle_sim update_sim)

abbreviation run_ops :: "SessionCache \<Rightarrow> cache_op list \<Rightarrow> SessionCache" where
  "run_ops \<equiv> foldl run_op"

lemma ops_sim:
  "cache_inv c \<Longrightarrow> \<forall>op \<in> set ops. session_key (op_key op) \<Longrightarrow>
   cache_inv (run_ops c ops) \<and> max_entries (run_ops c ops) = max_entries c \<and>
   cache_lru (run_ops c ops) = foldl (lru_op (max_entries c)) (cache_lru c) ops"
proof (induction ops arbitrary: c)
  case Nil
  then show ?case by simp
next
  case (Cons op ops)
  then have "simulates c op (run_op c op)" by (simp add: op_sim)
  then show ?case using Cons by (simp add: simulates_def)
qed

lemma ops_abs:
  "cache_inv c \<Longrightarrow> \<forall>op \<in> set ops. session_key (op_key op) \<Longrightarrow>
   cache_abs (run_ops c ops) = fst (foldl (lru_op (max_entries c)) (cache_lru c) ops)"
  using ops_sim [of c ops] by (metis cache_lru_def fst_conv)

section \<open>Generation tokens\<close>

fun is_store :: "cache_op \<Rightarrow> bool" where
  "is_store (OpStore _ _) = True"
| "is_store _ = False"

fun resets_promotion :: "cache_op \<Rightarrow> bool" where
  "resets_promotion (OpStore _ _) = True"
| "resets_promotion (OpSettle _ _ _ _) = True"
| "resets_promotion (OpUpdate _ _) = True"
| "resets_promotion _ = False"

abbreviation stores :: "cache_op list \<Rightarrow> nat" where
  "stores ops \<equiv> length (filter is_store ops)"

text \<open>Every entry of \<open>k\<close> satisfies \<open>P\<close>.\<close>

definition at_key :: "SessionKey \<Rightarrow> (CachedSession \<Rightarrow> bool) \<Rightarrow> (SessionKey \<times> CachedSession) list \<Rightarrow> bool" where
  "at_key k P m \<longleftrightarrow> (\<forall>v. map_of m k = Some v \<longrightarrow> P v)"

lemma map_of_take: "map_of (take n xs) k = Some v \<Longrightarrow> map_of xs k = Some v"
  by (metis map_add_Some_iff map_of_append append_take_drop_id map_add_find_right map_of_append)

lemma at_key_take: "at_key k P m \<Longrightarrow> at_key k P (take n m)"
  by (auto simp: at_key_def dest: map_of_take)

lemma at_key_del: "at_key k P m \<Longrightarrow> at_key k P (del_key k' m)"
  by (simp add: at_key_def map_of_del_key)

lemma at_key_upd:
  "at_key k P m \<Longrightarrow> (\<And>v. k' = k \<Longrightarrow> P v \<Longrightarrow> P (f v)) \<Longrightarrow> at_key k P (upd_val k' f m)"
  by (auto simp: at_key_def map_of_upd_val)

lemma at_key_cons: "(k' = k \<Longrightarrow> P v) \<Longrightarrow> at_key k P m \<Longrightarrow> at_key k P ((k', v) # m)"
  by (auto simp: at_key_def)

lemmas at_key_intros = at_key_take at_key_del at_key_upd at_key_cons

text \<open>
  A predicate on the entry of one key survives a step when the step's own update of that key
  keeps it.
\<close>

fun step_keeps :: "(CachedSession \<Rightarrow> bool) \<Rightarrow> u64 \<Rightarrow> cache_op \<Rightarrow> bool" where
  "step_keeps P g (OpStore k v) \<longleftrightarrow> P (v\<lparr>generation := g + 1\<rparr>)"
| "step_keeps P g (OpBegin k ds) \<longleftrightarrow> (\<forall>v. P v \<longrightarrow> P (v\<lparr>promotion_state := PromoPending\<rparr>))"
| "step_keeps P g (OpSettle k ds g' st) \<longleftrightarrow>
     (\<forall>v. P v \<and> settles ds g' v \<longrightarrow> P (v\<lparr>promotion_state := st\<rparr>))"
| "step_keeps P g (OpUpdate k st) \<longleftrightarrow> (\<forall>v. P v \<longrightarrow> P (v\<lparr>promotion_state := st\<rparr>))"
| "step_keeps P g (OpRecord k hc) \<longleftrightarrow> (\<forall>v. P v \<longrightarrow> P (v\<lparr>last_hit_case := hc\<rparr>))"
| "step_keeps P g _ \<longleftrightarrow> True"

lemma at_key_step:
  assumes "at_key k P m" and "op_key op = k \<Longrightarrow> step_keeps P g op"
  shows "at_key k P (fst (lru_op cap (m, g) op))"
proof (cases op)
  case (OpCommit k' ex cand)
  have "at_key k P ((k', cur) # del_key k' m)" if "map_of m k' = Some cur" for cur
    using assms(1) that by (intro at_key_intros) (auto simp: at_key_def)
  then show ?thesis
    using assms(1) OpCommit by (auto simp: at_key_del split: option.split)
qed (use assms in \<open>auto intro!: at_key_intros simp del: take_Suc_Cons\<close>)

lemma gen_step: "snd (lru_op cap (m, g) op) = (if is_store op then g + 1 else g)"
  by (cases op) (auto split: option.split)

lemma unat_step:
  "unat (g::u64) + 1 < 2 ^ 64 \<Longrightarrow> unat (g + 1) = unat g + 1"
  by (subst unat_add_lem [THEN iffD1]) simp_all

text \<open>No entry carries a token that was not handed out yet.\<close>

definition issued :: "lru \<Rightarrow> bool" where
  "issued s \<longleftrightarrow> (\<forall>k. at_key k (\<lambda>v. unat (generation v) \<le> unat (snd s)) (fst s))"

lemma keeps_generation:
  "\<not> is_store op \<Longrightarrow> (\<And>v w. generation w = generation v \<Longrightarrow> P v \<Longrightarrow> P w) \<Longrightarrow> step_keeps P g op"
  by (cases op) auto

lemma issued_step:
  assumes "issued (m, g)" and "is_store op \<Longrightarrow> unat g + 1 < 2 ^ 64"
  shows "issued (lru_op cap (m, g) op)"
proof -
  let ?g = "snd (lru_op cap (m, g) op)"
  have le: "unat g \<le> unat ?g" using assms(2) by (auto simp: gen_step unat_step)
  have "at_key k (\<lambda>v. unat (generation v) \<le> unat ?g) (fst (lru_op cap (m, g) op))" for k
  proof (rule at_key_step)
    show "at_key k (\<lambda>v. unat (generation v) \<le> unat ?g) m"
      using assms(1) le by (fastforce simp: issued_def at_key_def)
    show "step_keeps (\<lambda>v. unat (generation v) \<le> unat ?g) g op"
      by (cases "is_store op") (cases op, auto simp: gen_step intro!: keeps_generation)
  qed
  then show ?thesis by (simp add: issued_def)
qed

lemma gen_run_step:
  assumes "unat (snd s) + stores (op # ops) < 2 ^ 64"
  shows "unat (snd (lru_op cap s op)) + stores ops = unat (snd s) + stores (op # ops)"
    and "is_store op \<Longrightarrow> unat (snd s) + 1 < 2 ^ 64"
proof -
  show st: "unat (snd s) + 1 < 2 ^ 64" if "is_store op" using assms that by simp
  then show "unat (snd (lru_op cap s op)) + stores ops = unat (snd s) + stores (op # ops)"
    by (cases s) (simp add: gen_step unat_step)
qed

lemma gen_run:
  "unat (snd s) + stores ops < 2 ^ 64 \<Longrightarrow>
   unat (snd (foldl (lru_op cap) s ops)) = unat (snd s) + stores ops"
proof (induction ops arbitrary: s)
  case (Cons op ops)
  note st = gen_run_step(1) [OF Cons.prems, of cap]
  with Cons.IH [of "lru_op cap s op"] Cons.prems show ?case by (simp del: filter.simps)
qed simp

lemma issued_run:
  "issued s \<Longrightarrow> unat (snd s) + stores ops < 2 ^ 64 \<Longrightarrow> issued (foldl (lru_op cap) s ops)"
proof (induction ops arbitrary: s)
  case (Cons op ops)
  have "issued (lru_op cap s op)"
    using Cons.prems(1) gen_run_step(2) [OF Cons.prems(2)] by (cases s) (simp add: issued_step)
  with Cons.IH [of "lru_op cap s op"] Cons.prems gen_run_step(1) [OF Cons.prems(2), of cap]
  show ?case by (simp del: filter.simps)
qed simp

lemma newer_step:
  assumes "at_key k (\<lambda>v. G < unat (generation v)) m" and "G \<le> unat g"
    and "is_store op \<Longrightarrow> unat g + 1 < 2 ^ 64"
  shows "at_key k (\<lambda>v. G < unat (generation v)) (fst (lru_op cap (m, g) op))"
  using assms
  by (intro at_key_step) (cases "is_store op"; cases op; auto simp: unat_step)+

lemma newer_run:
  assumes "at_key k (\<lambda>v. G < unat (generation v)) (fst s)" and "G \<le> unat (snd s)"
    and "unat (snd s) + stores ops < 2 ^ 64"
  shows "at_key k (\<lambda>v. G < unat (generation v)) (fst (foldl (lru_op cap) s ops))"
  using assms
proof (induction ops arbitrary: s)
  case (Cons op ops)
  note st = gen_run_step [OF Cons.prems(3)]
  have "at_key k (\<lambda>v. G < unat (generation v)) (fst (lru_op cap s op))"
    using Cons.prems(1,2) st(2) by (cases s) (simp add: newer_step)
  moreover have "G \<le> unat (snd (lru_op cap s op))"
    using Cons.prems(2) st(2) by (cases s) (auto simp: gen_step unat_step)
  ultimately show ?case
    using Cons.IH [of "lru_op cap s op"] Cons.prems(3) st(1) [of cap] by (simp del: filter.simps)
qed simp

lemma restored_newer:
  assumes "G \<le> unat (snd s)" and "unat (snd s) + stores ops < 2 ^ 64" and "OpStore k v \<in> set ops"
  shows "at_key k (\<lambda>v. G < unat (generation v)) (fst (foldl (lru_op cap) s ops))"
proof -
  obtain xs ys where ops: "ops = xs @ OpStore k v # ys" using assms(3) by (meson split_list)
  obtain m g where s: "foldl (lru_op cap) s xs = (m, g)" by fastforce
  have "unat g = unat (snd s) + stores xs"
    using gen_run [of s xs cap] assms(2) by (simp add: ops s)
  with assms(1,2) have g: "G \<le> unat g" "unat g + 1 + stores ys < 2 ^ 64" by (simp_all add: ops)
  let ?s = "lru_op cap (m, g) (OpStore k v)"
  have "at_key k (\<lambda>v. G < unat (generation v)) (fst ?s)"
    using g by (auto simp: unat_step at_key_def map_of_del_key simp del: take_Suc_Cons dest!: map_of_take)
  from newer_run [OF this, of ys cap] g show ?thesis
    by (simp add: ops s unat_step)
qed

lemma new_cache_inv: "cache_inv (new_cache n)"
  by (simp add: new_cache_def cache_inv_def cache_ok_def nodes_ok_def index_ok_def nodes_with_def)

lemma new_cache_lru [simp]:
  "cache_lru (new_cache n) = ([], 0)" "cache_abs (new_cache n) = []"
  "max_entries (new_cache n) = (if n \<noteq> 0 then n else 1)" "next_generation (new_cache n) = 0"
  by (simp_all add: new_cache_def cache_lru_def cache_abs_def)

lemma reachable_ops:
  assumes "\<forall>op \<in> set ops. session_key (op_key op)"
  shows "cache_inv (run_ops (new_cache n) ops)"
    and "cache_lru (run_ops (new_cache n) ops) =
         foldl (lru_op (max_entries (new_cache n))) ([], 0) ops"
  using ops_sim [OF new_cache_inv assms, of n] by simp_all

text \<open>The cache keeps the contract of a bounded most-recently-used list.\<close>

lemma store_keys:
  assumes "cache_inv c" and "session_key k"
  shows "map fst (cache_abs (store c k v)) = to_front (max_entries c) k (map fst (cache_abs c))"
proof -
  have "cache_abs (store c k v) =
        take (max_entries c) ((k, v\<lparr>generation := next_generation c + 1\<rparr>) # del_key k (cache_abs c))"
    using store_sim [OF assms, of v] by (simp add: simulates_def cache_lru_def)
  then show ?thesis by (simp add: to_front_def map_fst_del_key flip: take_map)
qed

interpretation lru: mru_list cache_inv session_key "\<lambda>c. map fst (cache_abs c)" max_entries
  "\<lambda>c (k, v). store c k v"
proof
  show "0 < max_entries c" if "cache_inv c" for c using that by (simp add: cache_inv_def)
next
  fix c k and v :: CachedSession
  assume "cache_inv c" and "session_key k"
  then show "cache_inv (case (k, v) of (k, v) \<Rightarrow> store c k v)"
    and "max_entries (case (k, v) of (k, v) \<Rightarrow> store c k v) = max_entries c"
    and "map fst (cache_abs (case (k, v) of (k, v) \<Rightarrow> store c k v)) =
         to_front (max_entries c) k (map fst (cache_abs c))"
    using store_sim [of c k v] by (simp_all add: store_keys simulates_def)
qed

lemma commit_result:
  assumes "cache_inv c" and "session_key k"
  shows "snd (lookup_commit c k ex cand) =
         (case map_of (cache_abs c) k of
            None \<Rightarrow> None
          | Some cur \<Rightarrow> (case ex of None \<Rightarrow> None | Some p \<Rightarrow> if p cand then Some cur else None))"
  using inv_ok [OF assms(1)] assms(2)
proof (cases rule: find_cases)
  case absent
  then show ?thesis by (simp add: lookup_commit_def)
next
  case (found n e)
  have "entries (promoteLocked c n) = (n, e) # del_key n (entries c)"
    by (simp add: promote_eq [OF inv_ok [OF assms(1)] found(2)])
  with found show ?thesis by (simp add: lookup_commit_def Let_def split: option.split)
qed

lemma candidate_abs:
  assumes "cache_inv c" and "session_key k"
  shows "lookup_candidate c k = map_of (cache_abs c) k"
  using inv_ok [OF assms(1)] assms(2)
  by (cases rule: find_cases) (simp_all add: lookup_candidate_def)

lemma settle_noop:
  assumes "cache_inv c" and "session_key k"
    and "at_key k (\<lambda>v. generation v \<noteq> g) (cache_abs c)"
  shows "settlePromotion c k ds g st = c"
  using inv_ok [OF assms(1)] assms(2)
  by (cases rule: find_cases) (use assms(3) in \<open>simp_all add: settlePromotion_def at_key_def\<close>)

lemma begun_iff:
  assumes "cache_inv c" and "session_key k"
  shows "beginPromotion c k ds = (c', Begun, g) \<longleftrightarrow>
         (\<exists>v. map_of (cache_abs c) k = Some v \<and> dataset_id v = ds \<and> promotion_state v \<noteq> PromoPending \<and>
              g = Some (generation v) \<and> c' = fst (beginPromotion c k ds))"
  using inv_ok [OF assms(1)] assms(2)
  by (cases rule: find_cases) (auto simp: beginPromotion_def)

section \<open>Properties\<close>

text \<open>
  C8: Refinement. Whatever atomic steps run, in whatever order, on a fresh cache, the
  hash-indexed cache holds exactly what the plain least-recently-used list of the
  specification holds, its index stays consistent with its list and it never exceeds its
  budget (a budget of 0 counts as 1).
\<close>

theorem cache_refines_lru:
  assumes "\<forall>op \<in> set ops. session_key (op_key op)"
  shows "cache_inv (run_ops (new_cache n) ops) \<and>
         cache_lru (run_ops (new_cache n) ops) = foldl (lru_op (max n 1)) ([], 0) ops \<and>
         cache_size (run_ops (new_cache n) ops) \<le> max n 1"
proof -
  have "max_entries (new_cache n) = max n 1" by simp
  with reachable_ops [OF assms, of n] ops_sim [OF new_cache_inv assms, of n] show ?thesis
    by (simp add: cache_inv_def cache_size_def)
qed

definition demo_key :: "string \<Rightarrow> SessionKey" where
  "demo_key u = computeSessionKey u [''run.mcap''] [] \<lparr>tr_start_ns = 0, tr_end_ns = 0\<rparr> True"

definition demo_session :: "u32 \<Rightarrow> CachedSession" where
  "demo_session ds = \<lparr>display_name = ''run'', cs_server_uri = ''ws://h'', counts_by_topic = [],
     total_messages = 0, dataset_id = ds, cache_identity = [], tee_outcome = TeeNone,
     last_hit_case = HitNone, promotion_state = PromoNone, generation = 0\<rparr>"

lemma demo_session_simps [simp]:
  "dataset_id (demo_session ds) = ds" "promotion_state (demo_session ds) = PromoNone"
  by (simp_all add: demo_session_def)

lemma demo_key_valid: "session_key (demo_key u)"
  unfolding demo_key_def by (rule session_key.fresh)

lemma demo_key_inject: "demo_key u = demo_key u' \<longleftrightarrow> u = u'"
proof
  assume "demo_key u = demo_key u'"
  then have "server_uri (demo_key u) = server_uri (demo_key u')" by simp
  then show "u = u'" by (simp add: demo_key_def key_defs)
qed simp

theorem cache_refines_lru_witness:
  "cache_size (run_ops (new_cache 2)
     [OpStore (demo_key ''a'') (demo_session 1), OpStore (demo_key ''b'') (demo_session 2),
      OpStore (demo_key ''c'') (demo_session 3)]) \<le> 2"
proof -
  let ?ops = "[OpStore (demo_key ''a'') (demo_session 1), OpStore (demo_key ''b'') (demo_session 2),
      OpStore (demo_key ''c'') (demo_session 3)]"
  have "\<forall>op \<in> set ?ops. session_key (op_key op)" by (simp add: demo_key_valid)
  from cache_refines_lru [OF this, of 2] show ?thesis by simp
qed

text \<open>
  Recency. After storing sessions into a fresh cache, the keys it holds are the most
  recently stored ones, newest first, each once, as many as the budget allows.
\<close>

theorem cache_keeps_most_recent:
  assumes "\<forall>p \<in> set ps. session_key (fst p)"
  shows "map fst (cache_abs (foldl (\<lambda>c (k, v). store c k v) (new_cache n) ps)) =
         take (max n 1) (rev (remdups (map fst ps)))"
proof -
  have "max_entries (new_cache n) = max n 1" by simp
  with lru.recent_keys [OF new_cache_inv _ assms, of n] show ?thesis by simp
qed

theorem cache_keeps_most_recent_witness:
  "map fst (cache_abs (foldl (\<lambda>c (k, v). store c k v) (new_cache 2)
     [(demo_key ''a'', demo_session 1), (demo_key ''b'', demo_session 2),
      (demo_key ''a'', demo_session 3), (demo_key ''c'', demo_session 4)])) =
   [demo_key ''c'', demo_key ''a'']"
  using cache_keeps_most_recent [of "[(demo_key ''a'', demo_session 1), (demo_key ''b'', demo_session 2),
      (demo_key ''a'', demo_session 3), (demo_key ''c'', demo_session 4)]" 2]
  by (simp add: demo_key_valid demo_key_inject)

text \<open>
  Lookup. Undisturbed, a lookup returns the stored value and moves it to the front when
  the existence predicate accepts that value, drops the entry and misses when the predicate
  rejects it, and misses without touching the cache when there is no entry or no predicate.
\<close>

theorem lookup_behaviour:
  assumes "cache_inv c" and "session_key k" and "lookup c k ex = (c', r)"
  shows "cache_inv c' \<and>
         (case (map_of (cache_abs c) k, ex) of
            (Some v, Some p) \<Rightarrow>
              if p v then r = Some v \<and> cache_abs c' = (k, v) # del_key k (cache_abs c)
              else r = None \<and> cache_abs c' = del_key k (cache_abs c)
          | _ \<Rightarrow> r = None \<and> cache_abs c' = cache_abs c)"
proof (cases "map_of (cache_abs c) k")
  case None
  with assms candidate_abs [OF assms(1,2)] show ?thesis by (simp add: lookup_def)
next
  case (Some v)
  then have l: "lookup_commit c k ex v = (c', r)"
    using assms candidate_abs [OF assms(1,2)] by (simp add: lookup_def)
  have "simulates c (OpCommit k ex v) c'" and "r = snd (lookup_commit c k ex v)"
    using commit_sim [OF assms(1,2), of ex v] l by simp_all
  then show ?thesis
    using Some commit_result [OF assms(1,2), of ex v]
    by (cases ex) (auto simp: simulates_def cache_lru_def)
qed

theorem lookup_behaviour_witness:
  "snd (lookup (store (new_cache 8) (demo_key ''a'') (demo_session 7)) (demo_key ''a'')
          (Some (\<lambda>v. dataset_id v = 7))) = Some ((demo_session 7)\<lparr>generation := 1\<rparr>)"
proof -
  let ?c = "store (new_cache 8) (demo_key ''a'') (demo_session 7)"
  have s: "simulates (new_cache 8) (OpStore (demo_key ''a'') (demo_session 7)) ?c"
    by (rule store_sim [OF new_cache_inv demo_key_valid])
  then have i: "cache_inv ?c" and a: "cache_abs ?c = [(demo_key ''a'', (demo_session 7)\<lparr>generation := 1\<rparr>)]"
    by (simp_all add: simulates_def cache_lru_def)
  obtain c' r where l: "lookup ?c (demo_key ''a'') (Some (\<lambda>v. dataset_id v = 7)) = (c', r)" by fastforce
  from lookup_behaviour [OF i demo_key_valid l] show ?thesis
    using a l by (simp add: demo_session_def)
qed

text \<open>
  C14: A late promotion result never touches a replacement. If a promotion was begun on an
  entry and the key was stored again at any point of what followed, settling with the old
  token changes nothing, whatever else ran in between (as long as the 64-bit token counter
  has not wrapped).
\<close>

theorem stale_settle_ignored:
  assumes "\<forall>op \<in> set before. session_key (op_key op)" and "\<forall>op \<in> set after. session_key (op_key op)"
    and "session_key k" and "beginPromotion (run_ops (new_cache n) before) k ds = (c, Begun, Some g)"
    and "OpStore k v \<in> set after" and "stores before + stores after < 2 ^ 64"
  shows "settlePromotion (run_ops c after) k ds g st = run_ops c after"
proof -
  let ?c0 = "run_ops (new_cache n) before"
  let ?cap = "max_entries (new_cache n)"
  note r0 = reachable_ops [OF assms(1), of n]
  have c: "c = run_op ?c0 (OpBegin k ds)" using assms(4) by simp
  have sim: "simulates ?c0 (OpBegin k ds) c"
    unfolding c by (rule op_sim [OF r0(1)]) (simp add: assms(3))
  then have ng: "next_generation c = next_generation ?c0" and inv: "cache_inv c"
    by (simp_all add: simulates_def cache_lru_def)
  have iss: "issued (cache_lru ?c0)"
    unfolding r0(2) using assms(6) by (intro issued_run) (simp_all add: issued_def at_key_def)
  have cnt: "unat (snd (cache_lru ?c0)) = stores before"
    unfolding r0(2) using gen_run [of "([], 0)" before ?cap] assms(6) by simp
  have "unat g \<le> unat (snd (cache_lru c))"
    using assms(4) iss begun_iff [OF r0(1) assms(3)] ng
    by (auto simp: issued_def at_key_def cache_lru_def)
  then have "at_key k (\<lambda>v. unat g < unat (generation v)) (cache_abs (run_ops c after))"
    using restored_newer [of "unat g" "cache_lru c" after k v "max_entries c"] assms(5,6) ng cnt
    by (simp add: ops_abs [OF inv assms(2)] cache_lru_def)
  then have "at_key k (\<lambda>v. generation v \<noteq> g) (cache_abs (run_ops c after))"
    by (auto simp: at_key_def)
  then show ?thesis using settle_noop ops_sim [OF inv assms(2)] assms(3) by blast
qed

lemma demo_store:
  "cache_inv (store (new_cache 8) (demo_key u) (demo_session ds))"
  "cache_abs (store (new_cache 8) (demo_key u) (demo_session ds)) =
     [(demo_key u, (demo_session ds)\<lparr>generation := 1\<rparr>)]"
  using store_sim [OF new_cache_inv demo_key_valid, of 8 u "demo_session ds"]
  by (simp_all add: simulates_def cache_lru_def)

lemma demo_begun:
  "\<exists>c. beginPromotion (store (new_cache 8) (demo_key u) (demo_session ds)) (demo_key u) ds = (c, Begun, Some 1)"
  by (rule exI, subst begun_iff [OF demo_store(1) demo_key_valid]) (simp add: demo_store(2))

theorem stale_settle_ignored_witness:
  "\<exists>c. beginPromotion (store (new_cache 8) (demo_key ''a'') (demo_session 7)) (demo_key ''a'') 7 =
         (c, Begun, Some 1) \<and>
       settlePromotion (run_ops c [OpEvict (demo_key ''a''), OpStore (demo_key ''a'') (demo_session 7)])
         (demo_key ''a'') 7 1 Promoted =
       run_ops c [OpEvict (demo_key ''a''), OpStore (demo_key ''a'') (demo_session 7)]"
proof -
  let ?k = "demo_key ''a''"
  obtain c where c: "beginPromotion (run_ops (new_cache 8) [OpStore ?k (demo_session 7)]) ?k 7 = (c, Begun, Some 1)"
    using demo_begun by auto
  have "settlePromotion (run_ops c [OpEvict ?k, OpStore ?k (demo_session 7)]) ?k 7 1 Promoted =
        run_ops c [OpEvict ?k, OpStore ?k (demo_session 7)]"
    by (rule stale_settle_ignored [OF _ _ demo_key_valid c]) (simp_all add: demo_key_valid)
  with c show ?thesis by auto
qed

text \<open>
  C30: A promotion fires once. After a promotion of an entry has begun, no second one begins
  for that key until it is settled, updated or stored again, whatever happens to other keys
  and however often the entry is looked up, evicted, recorded or begun in between.
\<close>

theorem promotion_begins_once:
  assumes "cache_inv c" and "session_key k" and "beginPromotion c k ds = (c', Begun, g)"
    and "\<forall>op \<in> set ops. session_key (op_key op)"
    and "\<forall>op \<in> set ops. op_key op = k \<longrightarrow> \<not> resets_promotion op"
  shows "fst (snd (beginPromotion (run_ops c' ops) k ds')) \<noteq> Begun"
proof -
  let ?P = "\<lambda>v. promotion_state v = PromoPending"
  obtain v where "map_of (cache_abs c) k = Some v" "dataset_id v = ds"
    using assms(3) begun_iff [OF assms(1,2)] by blast
  then have "at_key k ?P (fst (lru_op (max_entries c) (cache_lru c) (OpBegin k ds)))"
    by (simp add: cache_lru_def at_key_def map_of_upd_val)
  moreover have sim: "simulates c (OpBegin k ds) c'" using begin_sim [OF assms(1,2), of ds] assms(3) by simp
  ultimately have init: "at_key k ?P (fst (cache_lru c'))" by (simp add: simulates_def)
  have "at_key k ?P (fst (foldl (lru_op cap) s ops))" if "at_key k ?P (fst s)" for s cap
    using that assms(5)
  proof (induction ops arbitrary: s)
    case (Cons op ops)
    have "at_key k ?P (fst (lru_op cap (fst s, snd s) op))"
      by (rule at_key_step [OF Cons.prems(1)]) (use Cons.prems(2) in \<open>cases op; simp\<close>)
    with Cons show ?case by simp
  qed simp
  moreover have "cache_inv c'" using sim by (simp add: simulates_def)
  ultimately have fin: "at_key k ?P (cache_abs (run_ops c' ops))" "cache_inv (run_ops c' ops)"
    using init ops_sim [OF _ assms(4), of c'] ops_abs [OF _ assms(4), of c'] by simp_all
  show ?thesis
  proof
    assume "fst (snd (beginPromotion (run_ops c' ops) k ds')) = Begun"
    then obtain d h where "beginPromotion (run_ops c' ops) k ds' = (d, Begun, h)"
      by (metis prod.collapse)
    with begun_iff [OF fin(2) assms(2)] fin(1) show False by (auto simp: at_key_def)
  qed
qed

theorem promotion_begins_once_witness:
  "\<exists>c. beginPromotion (store (new_cache 8) (demo_key ''a'') (demo_session 7)) (demo_key ''a'') 7 =
         (c, Begun, Some 1) \<and>
       fst (snd (beginPromotion (run_ops c [OpStore (demo_key ''b'') (demo_session 9)]) (demo_key ''a'') 7)) \<noteq> Begun"
proof -
  obtain c where c: "beginPromotion (store (new_cache 8) (demo_key ''a'') (demo_session 7)) (demo_key ''a'') 7 =
      (c, Begun, Some 1)"
    using demo_begun by auto
  have "fst (snd (beginPromotion (run_ops c [OpStore (demo_key ''b'') (demo_session 9)]) (demo_key ''a'') 7)) \<noteq> Begun"
    by (rule promotion_begins_once [OF demo_store(1) demo_key_valid c]) (simp_all add: demo_key_valid demo_key_inject)
  with c show ?thesis by auto
qed

text \<open>
  The verdict of phase 2 is about the copy taken in phase 1: when the key is stored again in
  between, phase 3 hands out the new value although the predicate was never asked about it
  (and would reject it).
\<close>

theorem lookup_returns_unvalidated:
  fixes ds1 ds2 :: u32
  defines "p \<equiv> \<lambda>v. dataset_id v = ds1"
  assumes "cache_inv c" and "session_key k" and "ds1 \<noteq> ds2" and "map_of (cache_abs c) k = Some v1"
    and "dataset_id v1 = ds1" and "dataset_id v2 = ds2"
  shows "lookup_candidate c k = Some v1 \<and>
         (\<exists>v. snd (lookup_commit (store c k v2) k (Some p) v1) = Some v \<and> \<not> p v)"
proof -
  have s: "simulates c (OpStore k v2) (store c k v2)" by (rule store_sim [OF assms(2,3)])
  then have "cache_inv (store c k v2)" by (simp add: simulates_def)
  moreover have "map_of (cache_abs (store c k v2)) k = Some (v2\<lparr>generation := next_generation c + 1\<rparr>)"
    using s assms(2) by (cases "max_entries c") (simp_all add: simulates_def cache_lru_def cache_inv_def)
  ultimately show ?thesis
    using commit_result [of "store c k v2" k "Some p" v1] candidate_abs [OF assms(2,3)] assms
    by (simp add: p_def)
qed

end
