(* ===== verification/Origin_Match.thy ===== *)
theory Origin_Match
  imports Prelude
begin

text \<open>
  \<open>origin_match.cpp\<close>: strict parsing of a \<open>ws\<close>/\<open>wss\<close> URI into the origin (scheme, host,
  effective port) on which credentials are released, and the serialised form of an origin
  that \<open>trusted_origins.cpp\<close> stores. A view of a missing part is \<^const>\<open>None\<close>.
\<close>

section \<open>Definitions\<close>

record Origin =
  scheme :: string
  host :: string
  port :: u16

definition toLower :: "string \<Rightarrow> string" where
  "toLower s = map to_lower s"

fun port_loop :: "string \<Rightarrow> u32 \<Rightarrow> u32 option" where
  "port_loop [] v = Some v"
| "port_loop (c # cs) v = (if is_digit c then port_loop cs (v * 10 + of_nat (digit_val c)) else None)"

definition parsePort :: "string \<Rightarrow> u16 option" where
  "parsePort s =
     (if s = [] \<or> 5 < length s then None
      else case port_loop s 0 of
             None \<Rightarrow> None
           | Some v \<Rightarrow> if 65535 < v then None else Some (ucast v))"

text \<open>The split of \<open>host[:port]\<close>, with the brackets of an IPv6 host kept.\<close>

definition split_authority :: "string \<Rightarrow> (string \<times> string option) option" where
  "split_authority a =
     (if hd a = CHR ''['' then
        (case find_char (CHR '']'') a of
           None \<Rightarrow> None
         | Some close \<Rightarrow>
             (let after = drop (close + 1) a
              in if after = [] then Some (take (close + 1) a, None)
                 else if hd after \<noteq> CHR '':'' then None
                 else Some (take (close + 1) a, Some (tl after))))
      else
        (case find_char (CHR '':'') a of
           None \<Rightarrow> Some (a, None)
         | Some colon \<Rightarrow>
             (let p = drop (colon + 1) a
              in if find_char (CHR '':'') p \<noteq> None then None else Some (take colon a, Some p))))"

definition parseWsOrigin :: "string \<Rightarrow> Origin option" where
  "parseWsOrigin uri =
     (if find_char (CHR ''?'') uri \<noteq> None \<or> find_char (CHR ''#'') uri \<noteq> None then None
      else case find_sub ''://'' uri of
        None \<Rightarrow> None
      | Some scheme_end \<Rightarrow>
          (let sch = toLower (take scheme_end uri)
           in if sch \<noteq> ''ws'' \<and> sch \<noteq> ''wss'' then None
              else let authority = up_to (CHR ''/'') (drop (scheme_end + 3) uri)
              in if authority = [] \<or> find_char (CHR ''@'') authority \<noteq> None then None
              else case split_authority authority of
                None \<Rightarrow> None
              | Some (h, port_str) \<Rightarrow>
                  if h = [] then None
                  else (case port_str of
                          Some ps \<Rightarrow>
                            (case parsePort ps of
                               None \<Rightarrow> None
                             | Some p \<Rightarrow> Some \<lparr>scheme = sch, host = toLower h, port = p\<rparr>)
                        | None \<Rightarrow>
                            Some \<lparr>scheme = sch, host = toLower h,
                                  port = (if sch = ''wss'' then 443 else 80)\<rparr>)))"

definition sameWsOrigin :: "string \<Rightarrow> string \<Rightarrow> bool" where
  "sameWsOrigin a b =
     (case (parseWsOrigin a, parseWsOrigin b) of
        (Some oa, Some ob) \<Rightarrow> scheme oa = scheme ob \<and> host oa = host ob \<and> port oa = port ob
      | _ \<Rightarrow> False)"

definition serializeOrigin :: "Origin \<Rightarrow> string" where
  "serializeOrigin og = scheme og @ ''://'' @ host og @ '':'' @ nat_str (unat (port og))"

definition trustedOriginKey :: "string \<Rightarrow> string option" where
  "trustedOriginKey uri = map_option serializeOrigin (parseWsOrigin uri)"

section \<open>Ports\<close>

lemma port_loop_digits:
  "list_all is_digit s \<Longrightarrow> port_loop s v = Some (of_nat (digits_val (unat v) s))"
proof (induction s arbitrary: v)
  case (Cons c cs)
  have "of_nat (unat (v * 10 + of_nat (digit_val c))) = (of_nat (unat v * 10 + digit_val c) :: u32)"
    by simp
  have cong: "(of_nat (digits_val a cs) :: u32) = of_nat (digits_val b cs)"
    if "(of_nat a :: u32) = of_nat b" for a b
    using that
  proof (induction cs arbitrary: a b)
    case (Cons x xs)
    show ?case by (simp, rule Cons.IH) (simp add: Cons.prems)
  qed simp
  show ?case using Cons by (simp) (rule cong, simp)
qed simp

lemma port_loop_None: "\<not> list_all is_digit s \<Longrightarrow> port_loop s v = None"
  by (induction s arbitrary: v) auto

text \<open>The 32-bit accumulator never wraps: five digits stay below 100000.\<close>

lemma parsePort_eq:
  "parsePort s =
     (if s \<noteq> [] \<and> length s \<le> 5 \<and> list_all is_digit s \<and> digits_val 0 s \<le> 65535
      then Some (of_nat (digits_val 0 s)) else None)"
proof (cases "s \<noteq> [] \<and> length s \<le> 5 \<and> list_all is_digit s")
  case True
  then have "(10::nat) ^ length s \<le> 10 ^ 5" by (intro power_increasing) auto
  then have "digits_val 0 s < 100000" using digits_val_bound [of s 0] True by simp
  then have u: "unat (of_nat (digits_val 0 s) :: u32) = digits_val 0 s"
    by (simp add: unat_of_nat)
  have "(65535 :: u32) < of_nat (digits_val 0 s) \<longleftrightarrow> 65535 < digits_val 0 s"
    by (simp add: word_less_nat_alt u)
  moreover have "ucast (of_nat (digits_val 0 s) :: u32) = (of_nat (digits_val 0 s) :: u16)"
    using \<open>digits_val 0 s < 100000\<close> by (simp add: unsigned_of_nat take_bit_nat_eq_self)
  ultimately show ?thesis using True port_loop_digits [of s 0] by (simp add: parsePort_def)
next
  case False
  then show ?thesis using port_loop_None [of s 0] by (auto simp: parsePort_def)
qed

lemma parsePort_nat_str: "parsePort (nat_str (unat p)) = Some p"
proof -
  have "unat p < 2 ^ 16" using unsigned_less [of p] by simp
  then have "unat p \<le> 65535" "length (nat_str (unat p)) \<le> 5"
    using nat_str_length [of "unat p" 5] by auto
  then show ?thesis
    by (auto simp: parsePort_eq digits_val_nat_str list_all_iff dest: nat_str_digits)
qed

section \<open>Round trip\<close>

text \<open>The origins the parser produces.\<close>

definition plain_host :: "string \<Rightarrow> bool" where
  "plain_host h \<longleftrightarrow> h \<noteq> [] \<and> CHR '':'' \<notin> set h \<and> hd h \<noteq> CHR ''[''"

definition bracket_host :: "string \<Rightarrow> bool" where
  "bracket_host h \<longleftrightarrow> hd h = CHR ''['' \<and> h \<noteq> [] \<and> CHR '']'' \<notin> set (butlast h) \<and> last h = CHR '']''"

definition wf_origin :: "Origin \<Rightarrow> bool" where
  "wf_origin og \<longleftrightarrow>
     scheme og \<in> {''ws'', ''wss''} \<and> map to_lower (host og) = host og \<and>
     set (host og) \<inter> set ''?#/@'' = {} \<and> (plain_host (host og) \<or> bracket_host (host og))"

lemma to_lower_eq_iff:
  "\<not> is_upper d \<Longrightarrow> \<not> is_lower d \<Longrightarrow> to_lower c = d \<longleftrightarrow> c = d"
  by (auto simp: to_lower_def is_upper_def is_lower_def)

lemma in_set_toLower:
  "\<not> is_upper d \<Longrightarrow> \<not> is_lower d \<Longrightarrow> d \<in> set (map to_lower s) \<longleftrightarrow> d \<in> set s"
  by (induction s) (auto simp: to_lower_eq_iff eq_commute [of d])

lemma special_lower: "d \<in> set ''?#/@'' \<Longrightarrow> d \<in> set (map to_lower s) \<longleftrightarrow> d \<in> set s"
  by (rule in_set_toLower) (auto simp: is_upper_def is_lower_def char_val_def)

lemma lower_plain_host: "plain_host h \<Longrightarrow> plain_host (map to_lower h)"
  by (auto simp: plain_host_def in_set_toLower [unfolded set_map] hd_map to_lower_eq_iff
      is_upper_def is_lower_def char_val_def)

lemma lower_bracket_host: "bracket_host h \<Longrightarrow> bracket_host (map to_lower h)"
  by (auto simp: bracket_host_def hd_map last_map to_lower_eq_iff in_set_toLower [unfolded set_map]
      is_upper_def is_lower_def char_val_def simp flip: map_butlast)

lemma split_authority_host:
  assumes "split_authority a = Some (h, p)" and "a \<noteq> []" and "h \<noteq> []"
  shows "plain_host h \<or> bracket_host h" and "set h \<subseteq> set a"
proof -
  show "set h \<subseteq> set a"
    using assms(1) by (auto simp: split_authority_def Let_def split: if_splits option.splits dest: in_set_takeD)
  show "plain_host h \<or> bracket_host h"
  proof (cases "hd a = CHR ''[''")
    case True
    with assms(1) obtain i where i: "find_char (CHR '']'') a = Some i" and h: "h = take (Suc i) a"
      by (auto simp: split_authority_def Let_def split: if_splits option.splits)
    from find_char_Some [OF i] have "h = take i a @ [CHR '']'']" and "CHR '']'' \<notin> set (take i a)"
      by (simp_all add: h take_Suc_conv_app_nth)
    moreover have "hd h = CHR ''[''" using True assms(2) h by (cases a) simp_all
    ultimately show ?thesis by (simp add: bracket_host_def)
  next
    case False
    then have "h = up_to (CHR '':'') a"
      using assms(1) by (cases "find_char (CHR '':'') a")
        (simp_all add: split_authority_def Let_def up_to_def up_to_id [unfolded up_to_def] split: if_splits)
    moreover from this assms(3) have "hd h = hd a" by (simp add: hd_up_to)
    ultimately have "h = up_to (CHR '':'') a" "hd h = hd a" by simp_all
    with False assms(3) show ?thesis by (simp add: plain_host_def up_to_free)
  qed
qed

lemma split_authority_join:
  assumes "plain_host h \<or> bracket_host h" and "CHR '':'' \<notin> set p"
  shows "split_authority (h @ CHR '':'' # p) = Some (h, Some p)"
  using assms(1)
proof
  assume h: "plain_host h"
  then have "hd (h @ CHR '':'' # p) \<noteq> CHR ''[''" by (auto simp: plain_host_def)
  moreover have "find_char (CHR '':'') (h @ CHR '':'' # p) = Some (length h)"
    using h by (intro find_char_append) (simp add: plain_host_def)
  ultimately show ?thesis using assms(2) by (simp add: split_authority_def)
next
  assume h: "bracket_host h"
  then have eq: "h = butlast h @ [CHR '']'']" by (metis append_butlast_last_id bracket_host_def)
  have "hd (h @ CHR '':'' # p) = CHR ''[''" using h by (auto simp: bracket_host_def)
  moreover have "find_char (CHR '']'') (butlast h @ CHR '']'' # CHR '':'' # p) = Some (length (butlast h))"
    using h by (intro find_char_append) (simp add: bracket_host_def)
  then have "find_char (CHR '']'') (h @ CHR '':'' # p) = Some (length h - 1)"
    by (subst eq) simp
  moreover have "0 < length h" using h by (simp add: bracket_host_def)
  ultimately show ?thesis by (simp add: split_authority_def)
qed

lemma parse_wf: "parseWsOrigin uri = Some og \<Longrightarrow> wf_origin og"
proof -
  assume "parseWsOrigin uri = Some og"
  then obtain i h p where q: "CHR ''?'' \<notin> set uri" "CHR ''#'' \<notin> set uri"
    and a: "up_to (CHR ''/'') (drop (i + 3) uri) \<noteq> []" "CHR ''@'' \<notin> set (up_to (CHR ''/'') (drop (i + 3) uri))"
    and sp: "split_authority (up_to (CHR ''/'') (drop (i + 3) uri)) = Some (h, p)" "h \<noteq> []"
    and og: "scheme og \<in> {''ws'', ''wss''}" "host og = map to_lower h"
    by (auto simp: parseWsOrigin_def Let_def toLower_def split: if_splits option.splits)
  note h = split_authority_host [OF sp(1) a(1) sp(2)]
  have "set h \<subseteq> set uri" "CHR ''/'' \<notin> set h" "CHR ''@'' \<notin> set h"
    using h(2) up_to_subset [of "CHR ''/''" "drop (i + 3) uri"] up_to_free [of "CHR ''/''" "drop (i + 3) uri"] a(2)
    by (auto dest: in_set_dropD)
  then have "set h \<inter> set ''?#/@'' = {}" using q by auto
  then have "set (map to_lower h) \<inter> set ''?#/@'' = {}"
    using special_lower by blast
  with h(1) og show ?thesis
    by (auto simp: wf_origin_def dest: lower_plain_host lower_bracket_host)
qed

lemma scheme_split:
  "s \<in> {''ws'', ''wss''} \<Longrightarrow> find_sub ''://'' (s @ ''://'' @ r) = Some (length s)"
  by (auto simp: starts_with_def)

lemma serialize_parse:
  assumes "wf_origin og"
  shows "parseWsOrigin (serializeOrigin og) = Some og"
proof -
  let ?p = "nat_str (unat (port og))"
  let ?a = "host og @ CHR '':'' # ?p"
  have dig: "set ?p \<inter> set ''?#/@:'' = {}"
    by (auto dest!: nat_str_digits simp: is_digit_def char_val_def)
  have sch: "scheme og \<in> {''ws'', ''wss''}" and low: "map to_lower (host og) = host og"
    and h: "set (host og) \<inter> set ''?#/@'' = {}" "plain_host (host og) \<or> bracket_host (host og)"
    using assms by (simp_all add: wf_origin_def)
  have free: "CHR ''?'' \<notin> set (serializeOrigin og)" "CHR ''#'' \<notin> set (serializeOrigin og)"
    using sch h(1) dig by (auto simp: serializeOrigin_def)
  have auth: "up_to (CHR ''/'') ?a = ?a" "CHR ''@'' \<notin> set ?a" "?a \<noteq> []"
    using h(1) dig by (auto intro!: up_to_id)
  have "split_authority ?a = Some (host og, Some ?p)"
    using split_authority_join [OF h(2)] dig by auto
  moreover have "find_sub ''://'' (serializeOrigin og) = Some (length (scheme og))"
    using scheme_split [OF sch] by (simp add: serializeOrigin_def)
  moreover have "toLower (scheme og) = scheme og"
    using sch by (auto simp: toLower_def to_lower_def is_upper_def char_val_def)
  moreover have "host og \<noteq> []" using h(2) by (auto simp: plain_host_def bracket_host_def)
  ultimately show ?thesis
    using free auth sch low parsePort_nat_str [of "port og"]
    by (simp add: parseWsOrigin_def serializeOrigin_def toLower_def Let_def)
qed

section \<open>Properties\<close>

text \<open>
  The canonical trust key of a URI is itself an accepted URI of the same origin, so
  canonicalising twice changes nothing.
\<close>

theorem trusted_key_canonical:
  assumes "trustedOriginKey uri = Some k"
  shows "trustedOriginKey k = Some k \<and> sameWsOrigin uri k"
proof -
  obtain og where og: "parseWsOrigin uri = Some og" "k = serializeOrigin og"
    using assms by (auto simp: trustedOriginKey_def)
  with serialize_parse [OF parse_wf [OF og(1)]] show ?thesis
    by (simp add: trustedOriginKey_def sameWsOrigin_def)
qed

theorem trusted_key_canonical_witness:
  "trustedOriginKey ''wss://[::1]:443'' = Some ''wss://[::1]:443''"
proof -
  have "trustedOriginKey ''WSS://[::1]/path'' = Some ''wss://[::1]:443''" by code_simp
  from trusted_key_canonical [OF this] show ?thesis by simp
qed

text \<open>
  C25: Two URIs have the same origin exactly when they have the same trust key, so the ledger,
  which compares serialised keys, releases credentials on origin equality; a URI the parser
  rejects matches nothing, not even itself.
\<close>

theorem same_origin_iff_key:
  "sameWsOrigin a b \<longleftrightarrow> trustedOriginKey a = trustedOriginKey b \<and> trustedOriginKey a \<noteq> None"
proof (cases "parseWsOrigin a"; cases "parseWsOrigin b")
  fix oa ob
  assume p: "parseWsOrigin a = Some oa" "parseWsOrigin b = Some ob"
  have "serializeOrigin oa = serializeOrigin ob \<longleftrightarrow> oa = ob"
    by (metis p parse_wf serialize_parse option.inject)
  with p show ?thesis by (auto simp: sameWsOrigin_def trustedOriginKey_def)
qed (simp_all add: sameWsOrigin_def trustedOriginKey_def)

end
