(* ===== verification/Json.thy ===== *)
theory Json
  imports Prelude
begin

text \<open>
  JSON values as \<open>nlohmann::json\<close> holds them. The library's text reader and writer are not
  part of the repository: they are parameters \<open>parse\<close> (\<^const>\<open>None\<close> for a discarded value)
  and \<open>dump\<close> (\<^const>\<open>None\<close> for the exception on strings that are not UTF-8) of the definitions
  that use them, with the laws \<open>json_library\<close>: reading back what was written gives the
  value again, and only storable values are read. The last section gives a codec for which
  the laws hold.
\<close>

datatype json =
    JNull
  | JBool bool
  | JInt int
  | JFloat u64
  | JString string
  | JArray "json list"
  | JObject "(string \<times> json) list"

text \<open>
  A value the library stores: integers fit 64 bits and the keys of an object are in order
  and distinct.
\<close>

lemma size_member [simp]: "x \<in> snd ` set kvs \<Longrightarrow> size x < Suc (size_list (size_prod (\<lambda>_. 0) size) kvs)"
  by (induction kvs) (force simp: less_Suc_eq_le)+

function (sequential) json_ok :: "json \<Rightarrow> bool" where
  "json_ok (JInt i) \<longleftrightarrow> - (2 ^ 63) \<le> i \<and> i < 2 ^ 64"
| "json_ok (JArray xs) \<longleftrightarrow> list_all json_ok xs"
| "json_ok (JObject kvs) \<longleftrightarrow> sorted_wrt (<) (map fst kvs) \<and> list_all json_ok (map snd kvs)"
| "json_ok _ \<longleftrightarrow> True"
  by pat_completeness auto
termination
  by (relation "measure size") (auto simp: size_list_estimation' less_Suc_eq_le)

definition json_library :: "(string \<Rightarrow> json option) \<Rightarrow> (json \<Rightarrow> string option) \<Rightarrow> bool" where
  "json_library parse dump \<longleftrightarrow>
     (\<forall>j s. json_ok j \<longrightarrow> dump j = Some s \<longrightarrow> parse s = Some j) \<and>
     (\<forall>s j. parse s = Some j \<longrightarrow> json_ok j)"

lemma json_parse_dump:
  "json_library parse dump \<Longrightarrow> json_ok j \<Longrightarrow> dump j = Some s \<Longrightarrow> parse s = Some j"
  unfolding json_library_def by blast

lemma json_parse_ok: "json_library parse dump \<Longrightarrow> parse s = Some j \<Longrightarrow> json_ok j"
  unfolding json_library_def by blast

lemma json_dump_inject:
  "json_library parse dump \<Longrightarrow> json_ok j \<Longrightarrow> json_ok j' \<Longrightarrow> dump j = Some s \<Longrightarrow> dump j' = Some s \<Longrightarrow> j = j'"
  by (metis json_parse_dump option.inject)

section \<open>Access\<close>

fun jfind :: "json \<Rightarrow> string \<Rightarrow> json option" where
  "jfind (JObject kvs) k = map_of kvs k"
| "jfind _ k = None"

fun is_object :: "json \<Rightarrow> bool" where
  "is_object (JObject _) = True"
| "is_object _ = False"

lemma json_ok_map_put:
  assumes "json_ok (JObject kvs)" and "json_ok v"
  shows "json_ok (JObject (map_put k v kvs))"
proof -
  have "\<forall>x \<in> snd ` set (map_put k v kvs). json_ok x"
    using assms snd_map_put [of k v kvs] by (fastforce simp: list_all_iff)
  then show ?thesis using assms(1) by (simp add: sorted_map_put list_all_iff)
qed

lemma json_ok_del: "json_ok (JObject kvs) \<Longrightarrow> json_ok (JObject (del_key k kvs))"
  by (auto simp: list_all_iff del_key_def strict_sorted_iff sorted_filter distinct_map_filter)

lemma json_ok_strings: "json_ok (JArray (map JString ss))"
  by (simp add: list_all_iff)

section \<open>A codec with the round trip\<close>

text \<open>A tagged prefix code, with strings escaped character by character.\<close>

definition enc_str :: "string \<Rightarrow> string" where
  "enc_str s = concat (map (\<lambda>c. [CHR ''c'', c]) s) @ ''.''"

fun dec_str :: "string \<Rightarrow> (string \<times> string) option" where
  "dec_str [] = None"
| "dec_str (x # r) =
     (if x = CHR ''.'' then Some ([], r)
      else case r of [] \<Rightarrow> None | c # r' \<Rightarrow> map_option (apfst (Cons c)) (dec_str r'))"

fun dec_unary :: "string \<Rightarrow> nat \<times> string" where
  "dec_unary [] = (0, [])"
| "dec_unary (x # r) = (if x = CHR ''x'' then apfst Suc (dec_unary r) else (0, x # r))"

function (sequential) enc :: "json \<Rightarrow> string" where
  "enc JNull = ''n''"
| "enc (JBool b) = (if b then ''t'' else ''f'')"
| "enc (JInt i) = (if i < 0 then ''-'' else ''+'') @ replicate (nat \<bar>i\<bar>) (CHR ''x'') @ ''.''"
| "enc (JFloat w) = ''d'' @ replicate (unat w) (CHR ''x'') @ ''.''"
| "enc (JString s) = ''s'' @ enc_str s"
| "enc (JArray xs) = ''['' @ concat (map (\<lambda>x. '','' @ enc x) xs) @ '']''"
| "enc (JObject kvs) = ''{'' @ concat (map2 (\<lambda>k e. '','' @ enc_str k @ e) (map fst kvs) (map enc (map snd kvs))) @ ''}''"
  by pat_completeness auto
termination
  by (relation "measure size") (auto simp: size_list_estimation' less_Suc_eq_le)

fun dec :: "nat \<Rightarrow> string \<Rightarrow> (json \<times> string) option"
  and dec_items :: "nat \<Rightarrow> string \<Rightarrow> (json list \<times> string) option"
  and dec_members :: "nat \<Rightarrow> string \<Rightarrow> ((string \<times> json) list \<times> string) option" where
  "dec (Suc n) (t # r) =
     (if t = CHR ''n'' then Some (JNull, r)
      else if t = CHR ''t'' then Some (JBool True, r)
      else if t = CHR ''f'' then Some (JBool False, r)
      else if t = CHR ''+'' then (case dec_unary r of (m, r') \<Rightarrow> Some (JInt (int m), tl r'))
      else if t = CHR ''-'' then (case dec_unary r of (m, r') \<Rightarrow> Some (JInt (- int m), tl r'))
      else if t = CHR ''d'' then (case dec_unary r of (m, r') \<Rightarrow> Some (JFloat (of_nat m), tl r'))
      else if t = CHR ''s'' then map_option (apfst JString) (dec_str r)
      else if t = CHR ''['' then map_option (apfst JArray) (dec_items n r)
      else map_option (apfst JObject) (dec_members n r))"
| "dec n s = None"
| "dec_items (Suc n) (t # r) =
     (if t = CHR '']'' then Some ([], r)
      else case dec n r of
             None \<Rightarrow> None
           | Some (x, r') \<Rightarrow> map_option (apfst (Cons x)) (dec_items n r'))"
| "dec_items n s = None"
| "dec_members (Suc n) (t # r) =
     (if t = CHR ''}'' then Some ([], r)
      else case dec_str r of
             None \<Rightarrow> None
           | Some (k, r') \<Rightarrow>
               (case dec n r' of
                  None \<Rightarrow> None
                | Some (x, r'') \<Rightarrow> map_option (apfst (Cons (k, x))) (dec_members n r'')))"
| "dec_members n s = None"

definition codec_dump :: "json \<Rightarrow> string option" where
  "codec_dump j = Some (enc j)"

definition codec_parse :: "string \<Rightarrow> json option" where
  "codec_parse s = (case dec (length s) s of Some (j, []) \<Rightarrow> if json_ok j then Some j else None | _ \<Rightarrow> None)"

lemma dec_enc_str: "dec_str (enc_str s @ r) = Some (s, r)"
  by (induction s) (simp_all add: enc_str_def)

lemma dec_unary_replicate: "dec_unary (replicate m (CHR ''x'') @ CHR ''.'' # r) = (m, CHR ''.'' # r)"
  by (induction m) simp_all

lemma dec_enc_items:
  assumes "\<And>x n r. x \<in> set xs \<Longrightarrow> length (enc x) \<le> n \<Longrightarrow> dec n (enc x @ r) = Some (x, r)"
    and "Suc (length (concat (map (\<lambda>x. '','' @ enc x) xs))) \<le> n"
  shows "dec_items n (concat (map (\<lambda>x. '','' @ enc x) xs) @ CHR '']'' # r) = Some (xs, r)"
  using assms
proof (induction xs arbitrary: n)
  case Nil
  then show ?case by (cases n) simp_all
next
  case (Cons x xs)
  then obtain m where m: "n = Suc m" by (cases n) simp_all
  have "dec m (enc x @ concat (map (\<lambda>x. '','' @ enc x) xs) @ CHR '']'' # r) =
        Some (x, concat (map (\<lambda>x. '','' @ enc x) xs) @ CHR '']'' # r)"
    using Cons.prems m by (intro Cons.prems(1)) auto
  moreover have "dec_items m (concat (map (\<lambda>x. '','' @ enc x) xs) @ CHR '']'' # r) = Some (xs, r)"
    using Cons.prems m by (intro Cons.IH) auto
  ultimately show ?case by (simp add: m)
qed

abbreviation enc_members :: "(string \<times> json) list \<Rightarrow> string" where
  "enc_members kvs \<equiv> concat (map2 (\<lambda>k e. '','' @ enc_str k @ e) (map fst kvs) (map enc (map snd kvs)))"

lemma dec_enc_members:
  assumes "\<And>x n r. x \<in> snd ` set kvs \<Longrightarrow> length (enc x) \<le> n \<Longrightarrow> dec n (enc x @ r) = Some (x, r)"
    and "Suc (length (enc_members kvs)) \<le> n"
  shows "dec_members n (enc_members kvs @ CHR ''}'' # r) = Some (kvs, r)"
  using assms
proof (induction kvs arbitrary: n)
  case Nil
  then show ?case by (cases n) simp_all
next
  case (Cons p kvs)
  then obtain m where m: "n = Suc m" by (cases n) simp_all
  have "dec m (enc (snd p) @ enc_members kvs @ CHR ''}'' # r) = Some (snd p, enc_members kvs @ CHR ''}'' # r)"
    using Cons.prems m by (intro Cons.prems(1)) auto
  moreover have "dec_members m (enc_members kvs @ CHR ''}'' # r) = Some (kvs, r)"
    using Cons.prems m by (intro Cons.IH) auto
  ultimately show ?case by (simp add: m dec_enc_str)
qed

lemma dec_enc: "length (enc j) \<le> n \<Longrightarrow> dec n (enc j @ r) = Some (j, r)"
proof (induction j arbitrary: n r)
  case (JArray xs)
  then obtain m where m: "n = Suc m" by (cases n) simp_all
  with JArray dec_enc_items [of xs m] show ?case by simp
next
  case (JObject kvs)
  then obtain m where m: "n = Suc m" by (cases n) simp_all
  have "dec n (enc x @ r) = Some (x, r)" if "x \<in> snd ` set kvs" "length (enc x) \<le> n" for x n r
    using that JObject.IH by force
  from dec_enc_members [OF this, of kvs m r] JObject.prems m show ?case by simp
next
  case (JBool b)
  then show ?case by (cases n; cases b) simp_all
next
  case (JInt i)
  then show ?case by (cases n) (auto simp: dec_unary_replicate)
next
  case (JFloat w)
  then show ?case by (cases n) (auto simp: dec_unary_replicate)
next
  case (JString s)
  then show ?case by (cases n) (auto simp: dec_enc_str)
next
  case JNull
  then show ?case by (cases n) simp_all
qed

lemma codec_library: "json_library codec_parse codec_dump"
  unfolding json_library_def
proof (intro conjI allI impI)
  fix j s
  assume "json_ok j" and "codec_dump j = Some s"
  then show "codec_parse s = Some j"
    using dec_enc [of j "length (enc j)" "[]"] by (simp add: codec_parse_def codec_dump_def)
next
  fix s j
  assume "codec_parse s = Some j"
  then show "json_ok j"
    by (auto simp: codec_parse_def split: option.splits list.splits if_splits)
qed

end
