(* ===== verification/Trusted_Origins.thy ===== *)
theory Trusted_Origins
  imports Origin_Match Json
begin

text \<open>
  \<open>trusted_origins.cpp\<close>: the ledger of origins that completed a Hello. The disk is the
  content of the ledger file and of the temporary beside it (\<^const>\<open>None\<close> when there is no
  readable regular file); each system call of the durable write may fail, as the record
  \<open>WriteEnv\<close> says. Permission bits are not modelled. The lock attempts of one call are the
  list of (granted, deadline passed) pairs its retry loop observes.
\<close>

section \<open>Definitions\<close>

record LedgerDisk =
  ledger :: "string option"
  ledger_tmp :: "string option"

record WriteEnv =
  tmp_opens :: bool
  flush_ok :: bool
  file_syncs :: bool
  rename_ok :: bool
  dir_syncs :: bool

datatype write_result = WrOk | WrFail | WrThrow

definition loadOrigins :: "(string \<Rightarrow> json option) \<Rightarrow> LedgerDisk \<Rightarrow> json list" where
  "loadOrigins parse d =
     (case ledger d of
        None \<Rightarrow> []
      | Some s \<Rightarrow>
          (case parse s of
             Some (JObject kvs) \<Rightarrow>
               (case map_of kvs ''origins'' of Some (JArray xs) \<Rightarrow> xs | _ \<Rightarrow> [])
           | _ \<Rightarrow> []))"

definition ledger_json :: "json list \<Rightarrow> json" where
  "ledger_json origins = JObject [(''origins'', JArray origins), (''v'', JInt 1)]"

definition writeOrigins ::
  "(json \<Rightarrow> string option) \<Rightarrow> WriteEnv \<Rightarrow> LedgerDisk \<Rightarrow> json list \<Rightarrow> write_result \<times> LedgerDisk" where
  "writeOrigins dump e d origins =
     (if \<not> tmp_opens e then (WrFail, d)
      else case dump (ledger_json origins) of
        None \<Rightarrow> (WrThrow, d\<lparr>ledger_tmp := Some []\<rparr>)
      | Some s \<Rightarrow>
          if \<not> flush_ok e then (WrFail, d\<lparr>ledger_tmp := None\<rparr>)
          else if \<not> file_syncs e then (WrFail, d\<lparr>ledger_tmp := None\<rparr>)
          else if \<not> rename_ok e then (WrFail, d\<lparr>ledger_tmp := None\<rparr>)
          else (let d = d\<lparr>ledger := Some s, ledger_tmp := None\<rparr>
                in if \<not> dir_syncs e then (WrFail, d) else (WrOk, d)))"

fun acquire :: "(bool \<times> bool) list \<Rightarrow> bool" where
  "acquire [] = False"
| "acquire ((granted, late) # as) = (if granted then True else if late then False else acquire as)"

definition recordSuccessfulHello ::
  "(string \<Rightarrow> json option) \<Rightarrow> (json \<Rightarrow> string option) \<Rightarrow> (bool \<times> bool) list \<Rightarrow> WriteEnv \<Rightarrow> LedgerDisk
     \<Rightarrow> string \<Rightarrow> write_result \<times> LedgerDisk" where
  "recordSuccessfulHello parse dump attempts e d uri =
     (case parseWsOrigin uri of
        None \<Rightarrow> (WrFail, d)
      | Some og \<Rightarrow>
          if \<not> acquire attempts then (WrFail, d)
          else let entry = serializeOrigin og; origins = loadOrigins parse d
               in if JString entry \<in> set origins then (WrOk, d)
                  else writeOrigins dump e d (origins @ [JString entry]))"

definition allOrigins :: "(string \<Rightarrow> json option) \<Rightarrow> LedgerDisk \<Rightarrow> string list" where
  "allOrigins parse d = [s. JString s \<leftarrow> loadOrigins parse d]"

definition isTrusted :: "(string \<Rightarrow> json option) \<Rightarrow> LedgerDisk \<Rightarrow> string \<Rightarrow> bool" where
  "isTrusted parse d uri =
     (case parseWsOrigin uri of
        None \<Rightarrow> False
      | Some og \<Rightarrow> JString (serializeOrigin og) \<in> set (loadOrigins parse d))"

section \<open>Lemmas\<close>

lemma serialize_inject:
  assumes "parseWsOrigin a = Some oa" and "parseWsOrigin b = Some ob"
  shows "serializeOrigin oa = serializeOrigin ob \<longleftrightarrow> sameWsOrigin a b"
proof -
  have "parseWsOrigin (serializeOrigin oa) = Some oa" "parseWsOrigin (serializeOrigin ob) = Some ob"
    by (rule serialize_parse, rule parse_wf, fact)+
  then have "serializeOrigin oa = serializeOrigin ob \<longleftrightarrow> oa = ob" by (metis option.inject)
  also have "\<dots> \<longleftrightarrow> sameWsOrigin a b" using assms by (auto simp: sameWsOrigin_def)
  finally show ?thesis .
qed

lemma ledger_json_ok: "list_all json_ok origins \<Longrightarrow> json_ok (ledger_json origins)"
  by (simp add: ledger_json_def less_char_def)

lemma load_ok:
  assumes "json_library parse dump"
  shows "list_all json_ok (loadOrigins parse d)"
proof -
  have "list_all json_ok xs" if "parse s = Some (JObject kvs)" "map_of kvs ''origins'' = Some (JArray xs)" for s kvs xs
  proof -
    have "json_ok (JObject kvs)" using json_parse_ok [OF assms that(1)] .
    moreover have "JArray xs \<in> snd ` set kvs" using map_of_SomeD [OF that(2)] by force
    ultimately have "json_ok (JArray xs)" by (auto simp: list_all_iff simp del: json_ok.simps(2))
    then show ?thesis by simp
  qed
  then show ?thesis by (auto simp: loadOrigins_def split: option.split json.split)
qed

lemma load_written:
  assumes "json_library parse dump" and "list_all json_ok xs" and "dump (ledger_json xs) = Some s"
    and "ledger d = Some s"
  shows "loadOrigins parse d = xs"
  using json_parse_dump [OF assms(1) ledger_json_ok [OF assms(2)] assms(3)] assms(4)
  by (simp add: loadOrigins_def ledger_json_def)

lemma trusted_iff:
  assumes "set (loadOrigins parse d') = insert (JString (serializeOrigin og)) (set (loadOrigins parse d))"
    and "parseWsOrigin uri = Some og"
  shows "isTrusted parse d' u \<longleftrightarrow> isTrusted parse d u \<or> sameWsOrigin u uri"
proof (cases "parseWsOrigin u")
  case None
  then show ?thesis by (simp add: isTrusted_def sameWsOrigin_def)
next
  case (Some ou)
  with serialize_inject [OF Some assms(2)] assms(1) show ?thesis
    by (auto simp: isTrusted_def)
qed

lemma trusted_same: "ledger d' = ledger d \<Longrightarrow> isTrusted parse d' u = isTrusted parse d u"
proof -
  assume "ledger d' = ledger d"
  then have "loadOrigins parse d' = loadOrigins parse d" unfolding loadOrigins_def by simp
  then show ?thesis by (simp add: isTrusted_def split: option.split)
qed

text \<open>What one call does to the recorded origins.\<close>

lemma record_cases:
  assumes "json_library parse dump" and "recordSuccessfulHello parse dump as e d uri = (r, d')"
  shows "r = WrOk \<Longrightarrow> isTrusted parse d' u \<longleftrightarrow> isTrusted parse d u \<or> sameWsOrigin u uri"
    and "r \<noteq> WrOk \<Longrightarrow> dir_syncs e \<Longrightarrow> ledger d' = ledger d"
    and "r \<noteq> WrOk \<Longrightarrow> isTrusted parse d u \<Longrightarrow> isTrusted parse d' u"
proof -
  have load: "list_all json_ok (loadOrigins parse d @ [JString k])" for k
    using load_ok [OF assms(1), of d] by simp
  have new: "isTrusted parse d' u \<longleftrightarrow> isTrusted parse d u \<or> sameWsOrigin u uri"
    if "parseWsOrigin uri = Some og" "ledger d' = Some s"
      "dump (ledger_json (loadOrigins parse d @ [JString (serializeOrigin og)])) = Some s" for og s
    by (rule trusted_iff [OF _ that(1)]) (simp add: load_written [OF assms(1) load that(3,2)])
  show "isTrusted parse d' u \<longleftrightarrow> isTrusted parse d u \<or> sameWsOrigin u uri" if "r = WrOk"
  proof (cases "parseWsOrigin uri")
    case None
    then show ?thesis using assms(2) that by (simp add: recordSuccessfulHello_def)
  next
    case (Some og)
    show ?thesis
    proof (cases "JString (serializeOrigin og) \<in> set (loadOrigins parse d)")
      case True
      then have "d' = d" using assms(2) Some that
        by (auto simp: recordSuccessfulHello_def Let_def split: if_splits)
      with True show ?thesis by (intro trusted_iff [OF _ Some]) auto
    next
      case False
      with assms(2) Some that new show ?thesis
        by (auto simp: recordSuccessfulHello_def writeOrigins_def Let_def split: if_splits option.splits)
    qed
  qed
  show "ledger d' = ledger d" if "r \<noteq> WrOk" "dir_syncs e"
    using assms(2) that
    by (auto simp: recordSuccessfulHello_def writeOrigins_def Let_def split: if_splits option.splits)
  show "isTrusted parse d' u" if "r \<noteq> WrOk" "isTrusted parse d u"
  proof (cases "ledger d' = ledger d")
    case True
    then show ?thesis using trusted_same that by blast
  next
    case False
    then obtain og s where "parseWsOrigin uri = Some og" "ledger d' = Some s"
      "dump (ledger_json (loadOrigins parse d @ [JString (serializeOrigin og)])) = Some s"
      using assms(2)
      by (auto simp: recordSuccessfulHello_def writeOrigins_def Let_def split: if_splits option.splits)
    with new that(2) show ?thesis by blast
  qed
qed

section \<open>Properties\<close>

text \<open>Hello calls of any number of processes, one after the other as the ledger lock orders them.\<close>

type_synonym hello = "string \<times> (bool \<times> bool) list \<times> WriteEnv"

fun hello_run ::
  "(string \<Rightarrow> json option) \<Rightarrow> (json \<Rightarrow> string option) \<Rightarrow> LedgerDisk \<Rightarrow> hello list \<Rightarrow> LedgerDisk \<times> string list" where
  "hello_run parse dump d [] = (d, [])"
| "hello_run parse dump d ((uri, as, e) # hs) =
     (case recordSuccessfulHello parse dump as e d uri of
        (r, d') \<Rightarrow> (case hello_run parse dump d' hs of
                     (d'', us) \<Rightarrow> (d'', if r = WrOk then uri # us else us)))"

text \<open>
  C26: No Hello is lost and none is invented. After any sequence of ledger writes by any
  processes, an origin is trusted exactly when it was trusted before or one of the writes
  that reported success was for that origin (with the directory syncs succeeding).
\<close>

theorem ledger_exact:
  assumes "json_library parse dump" and "\<forall>(uri, as, e) \<in> set hs. dir_syncs e"
    and "hello_run parse dump d hs = (d', us)"
  shows "isTrusted parse d' u \<longleftrightarrow> isTrusted parse d u \<or> (\<exists>uri \<in> set us. sameWsOrigin u uri)"
  using assms(2,3)
proof (induction hs arbitrary: d us)
  case Nil
  then show ?case by simp
next
  case (Cons h hs)
  obtain uri as e where h: "h = (uri, as, e)" by (cases h)
  obtain r d1 where r: "recordSuccessfulHello parse dump as e d uri = (r, d1)" by fastforce
  obtain us' where us: "hello_run parse dump d1 hs = (d', us')" "us = (if r = WrOk then uri # us' else us')"
    using Cons.prems(2) by (auto simp: h r split: prod.splits)
  have "isTrusted parse d1 u \<longleftrightarrow> isTrusted parse d u \<or> (r = WrOk \<and> sameWsOrigin u uri)"
  proof (cases "r = WrOk")
    case True
    then show ?thesis using record_cases(1) [OF assms(1) r] by simp
  next
    case False
    then have "ledger d1 = ledger d" using record_cases(2) [OF assms(1) r] Cons.prems(1) h by auto
    then show ?thesis using False trusted_same by blast
  qed
  with Cons.IH [OF _ us(1)] Cons.prems(1) us(2) show ?case by auto
qed

theorem ledger_exact_witness:
  "\<exists>d'. hello_run codec_parse codec_dump \<lparr>ledger = None, ledger_tmp = None\<rparr>
          [(''wss://Robot.example'', [(False, False), (True, False)],
            \<lparr>tmp_opens = True, flush_ok = True, file_syncs = True, rename_ok = True, dir_syncs = True\<rparr>)] =
        (d', [''wss://Robot.example'']) \<and>
      isTrusted codec_parse d' ''WSS://robot.example:443/x'' \<and>
      \<not> isTrusted codec_parse d' ''ws://robot.example:443''"
proof -
  let ?d = "\<lparr>ledger = None, ledger_tmp = None\<rparr>"
  let ?e = "\<lparr>tmp_opens = True, flush_ok = True, file_syncs = True, rename_ok = True, dir_syncs = True\<rparr>"
  let ?hs = "[(''wss://Robot.example'', [(False, False), (True, False)], ?e)]"
  obtain d' where r: "hello_run codec_parse codec_dump ?d ?hs = (d', [''wss://Robot.example''])"
  proof -
    have "snd (hello_run codec_parse codec_dump ?d ?hs) = [''wss://Robot.example'']" by code_simp
    then show ?thesis using that by (metis prod.collapse)
  qed
  have *: "isTrusted codec_parse d' u \<longleftrightarrow> isTrusted codec_parse ?d u \<or> sameWsOrigin u ''wss://Robot.example''" for u
    using ledger_exact [OF codec_library _ r, of u] by simp
  have "sameWsOrigin ''WSS://robot.example:443/x'' ''wss://Robot.example''"
    and "\<not> sameWsOrigin ''ws://robot.example:443'' ''wss://Robot.example''" by code_simp+
  moreover have "\<not> isTrusted codec_parse ?d ''ws://robot.example:443''"
    by (simp add: isTrusted_def loadOrigins_def split: option.split)
  ultimately show ?thesis using r * by blast
qed

text \<open>
  A failing directory sync is reported as a failure although the renamed ledger already
  lists the origin.
\<close>

lemma failed_sync_still_trusts:
  assumes "json_library parse dump" and "parseWsOrigin uri = Some og" and "acquire as"
    and "tmp_opens e" "flush_ok e" "file_syncs e" "rename_ok e" "\<not> dir_syncs e"
    and "\<not> isTrusted parse d uri"
    and "dump (ledger_json (loadOrigins parse d @ [JString (serializeOrigin og)])) = Some s"
  shows "\<exists>d'. recordSuccessfulHello parse dump as e d uri = (WrFail, d') \<and> isTrusted parse d' uri"
proof -
  have "JString (serializeOrigin og) \<notin> set (loadOrigins parse d)"
    using assms(2,9) by (simp add: isTrusted_def)
  then have r: "recordSuccessfulHello parse dump as e d uri = (WrFail, d\<lparr>ledger := Some s, ledger_tmp := None\<rparr>)"
    using assms by (simp add: recordSuccessfulHello_def writeOrigins_def Let_def)
  have "loadOrigins parse (d\<lparr>ledger := Some s, ledger_tmp := None\<rparr>) =
        loadOrigins parse d @ [JString (serializeOrigin og)]"
    using load_ok [OF assms(1), of d] by (intro load_written [OF assms(1) _ assms(10)]) simp_all
  then have "isTrusted parse (d\<lparr>ledger := Some s, ledger_tmp := None\<rparr>) uri"
    using assms(2) by (simp add: isTrusted_def)
  with r show ?thesis by blast
qed

end
