(* ===== verification/Server_History.thy ===== *)
theory Server_History
  imports Prelude Recency
begin

text \<open>
  \<open>server_history.cpp\<close>: the storage key of a server URI and the bounded list of recent
  servers. A history together with the capacity it is kept under is a pair.
\<close>

section \<open>Definitions\<close>

fun startsWithCaseInsensitive :: "string \<Rightarrow> string \<Rightarrow> bool" where
  "startsWithCaseInsensitive v [] = True"
| "startsWithCaseInsensitive [] (p # ps) = False"
| "startsWithCaseInsensitive (c # cs) (p # ps) =
     (to_lower c = to_lower p \<and> startsWithCaseInsensitive cs ps)"

definition trimmed :: "string \<Rightarrow> string" where
  "trimmed v = rev (dropWhile is_space (rev (dropWhile is_space v)))"

definition toLowerAscii :: "string \<Rightarrow> string" where
  "toLowerAscii v = map to_lower v"

text \<open>The scheme to keep and what is left of the URI.\<close>

definition split_scheme :: "string \<Rightarrow> string \<times> string" where
  "split_scheme s =
     (if starts_with s ''grpc+tls://'' then ([], drop 11 s)
      else if starts_with s ''grpc://'' then ([], drop 7 s)
      else if startsWithCaseInsensitive s ''wss://'' then (''wss://'', drop 6 s)
      else if startsWithCaseInsensitive s ''ws://'' then (''ws://'', drop 5 s)
      else ([], s))"

definition drop_slash :: "string \<Rightarrow> string" where
  "drop_slash s = (if s \<noteq> [] \<and> last s = CHR ''/'' then butlast s else s)"

definition lower_host :: "string \<Rightarrow> string" where
  "lower_host s =
     (case find_char (CHR '':'') s of
        None \<Rightarrow> toLowerAscii s
      | Some colon \<Rightarrow> toLowerAscii (take colon s) @ drop colon s)"

definition normalizeServerKey :: "string \<Rightarrow> string" where
  "normalizeServerKey uri =
     (let s = trimmed uri
      in if s = [] then []
         else let (schemePrefix, s) = split_scheme s; s = drop_slash s
              in if s = [] then [] else schemePrefix @ lower_host s)"

fun promote_loop :: "nat \<Rightarrow> string \<Rightarrow> string list \<Rightarrow> string list \<Rightarrow> string list" where
  "promote_loop cap key [] out = out"
| "promote_loop cap key (entry # es) out =
     (if entry = key then promote_loop cap key es out
      else if cap \<le> length out then out
      else promote_loop cap key es (out @ [entry]))"

definition promoteToHead :: "string list \<Rightarrow> string \<Rightarrow> int \<Rightarrow> string list" where
  "promoteToHead history key cap =
     (if key = [] then history
      else if cap \<le> 0 then []
      else promote_loop (nat cap) key history [key])"

section \<open>The history as a most-recently-used list\<close>

lemma promote_loop_eq:
  "length out \<le> cap \<Longrightarrow>
   promote_loop cap key es out = take cap (out @ filter (\<lambda>x. x \<noteq> key) es)"
proof (induction es arbitrary: out)
  case (Cons e es)
  show ?case
  proof (cases "e \<noteq> key \<and> length out < cap")
    case True
    then obtain n where "cap - length out = Suc n" by (cases "cap - length out") auto
    moreover from this have "cap - Suc (length out) = n" by simp
    ultimately show ?thesis using True Cons by simp
  next
    case False
    with Cons show ?thesis by auto
  qed
qed simp

lemma promote_front:
  "key \<noteq> [] \<Longrightarrow> 0 < cap \<Longrightarrow> promoteToHead history key cap = to_front (nat cap) key history"
  by (simp add: promoteToHead_def promote_loop_eq to_front_def)

definition history_put :: "int \<times> string list \<Rightarrow> string \<times> unit \<Rightarrow> int \<times> string list" where
  "history_put h p = (fst h, promoteToHead (snd h) (fst p) (fst h))"

interpretation history: mru_list "\<lambda>h. 0 < fst h" "\<lambda>k. k \<noteq> []" snd "\<lambda>h. nat (fst h)" history_put
  by unfold_locales (simp_all add: history_put_def promote_front)

lemma history_foldl:
  "foldl history_put (cap, h) (map (\<lambda>k. (k, ())) ks) =
     (cap, foldl (\<lambda>h k. promoteToHead h k cap) h ks)"
  by (induction ks arbitrary: h) (simp_all add: history_put_def)

section \<open>Properties\<close>

text \<open>
  C32: After connecting to a sequence of servers, the history lists the most recent ones,
  newest first, each once, never more than its capacity.
\<close>

theorem history_most_recent:
  assumes "0 < cap" and "[] \<notin> set ks"
  shows "foldl (\<lambda>h k. promoteToHead h k cap) [] ks = take (nat cap) (rev (remdups ks))"
proof -
  have "\<forall>p \<in> set (map (\<lambda>k. (k, ())) ks). fst p \<noteq> []" using assms(2) by auto
  from history.recent_keys [OF _ _ this, of "(cap, [])"] assms(1) show ?thesis
    by (simp add: history_foldl o_def)
qed

theorem history_most_recent_witness:
  "foldl (\<lambda>h k. promoteToHead h k 2) [] [''a'', ''b'', ''a'', ''c''] = [''c'', ''a'']"
  using history_most_recent [of 2 "[''a'', ''b'', ''a'', ''c'']"] by simp

lemma startsWith_lower:
  "startsWithCaseInsensitive v p \<longleftrightarrow> map to_lower (take (length p) v) = map to_lower p"
  by (induction v p rule: startsWithCaseInsensitive.induct) auto

lemma trimmed_no_space:
  assumes "s \<noteq> []" and "\<not> is_space (hd s)" and "\<not> is_space (last s)"
  shows "trimmed s = s"
proof -
  have "dropWhile is_space s = s" using assms(2) by (simp add: dropWhile_eq_self_iff)
  moreover have "dropWhile is_space (rev s) = rev s"
    using assms(1,3) by (simp add: dropWhile_eq_self_iff hd_rev)
  ultimately show ?thesis by (simp add: trimmed_def)
qed

lemma key_of_parts:
  assumes "trimmed s = s" and "s \<noteq> []" and "split_scheme s = (pre, r)"
  shows "normalizeServerKey s = (if drop_slash r = [] then [] else pre @ lower_host (drop_slash r))"
  using assms by (simp add: normalizeServerKey_def)

lemma key_of_uri:
  assumes "h \<noteq> []" and "\<not> is_space (last h)" and "p \<noteq> []" and "\<not> is_space (hd p)"
    and "split_scheme (p @ h) = (pre, h)"
  shows "normalizeServerKey (p @ h) = (if drop_slash h = [] then [] else pre @ lower_host (drop_slash h))"
  using assms by (intro key_of_parts trimmed_no_space) simp_all

lemma scheme_of:
  "split_scheme (''grpc+tls://'' @ h) = ([], h)" "split_scheme (''grpc://'' @ h) = ([], h)"
  "split_scheme (''wss://'' @ h) = (''wss://'', h)" "split_scheme (''ws://'' @ h) = (''ws://'', h)"
  by (simp_all add: split_scheme_def starts_with_def to_lower_def is_upper_def char_val_def)

text \<open>
  One bucket per server: the two grpc schemes share the key of a host, while a ws and a
  wss server never share a (non-empty) one.
\<close>

theorem server_key_schemes:
  assumes "h \<noteq> []" and "\<not> is_space (last h)" and "h' \<noteq> []" and "\<not> is_space (last h')"
  shows "normalizeServerKey (''grpc+tls://'' @ h) = normalizeServerKey (''grpc://'' @ h) \<and>
         (normalizeServerKey (''wss://'' @ h) = normalizeServerKey (''ws://'' @ h') \<longrightarrow>
            normalizeServerKey (''wss://'' @ h) = [])"
proof -
  have sp: "\<not> is_space (CHR ''g'')" "\<not> is_space (CHR ''w'')" by (simp_all add: is_space_def char_val_def)
  note k = key_of_uri [OF assms(1,2) _ _ scheme_of(1)] key_of_uri [OF assms(1,2) _ _ scheme_of(2)]
    key_of_uri [OF assms(1,2) _ _ scheme_of(3)] key_of_uri [OF assms(3,4) _ _ scheme_of(4)]
  show ?thesis using k sp by simp
qed

theorem server_key_schemes_witness:
  "normalizeServerKey (''grpc+tls://'' @ ''Host:80/'') = normalizeServerKey (''grpc://'' @ ''Host:80/'') \<and>
   normalizeServerKey (''wss://'' @ ''Host:80/'') \<noteq> normalizeServerKey (''ws://'' @ ''Host:80/'')"
proof -
  have "normalizeServerKey (''wss://'' @ ''Host:80/'') = ''wss://host:80''" by code_simp
  with server_key_schemes [of "''Host:80/''" "''Host:80/''"] show ?thesis
    by (auto simp: is_space_def char_val_def)
qed

end
