(* ===== verification/Credentials.thy ===== *)
theory Credentials
  imports Server_History Origin_Match Json
begin

text \<open>
  Credentials of a server: \<open>credential_store.cpp\<close> (the token file), \<open>settings_store.cpp\<close>
  and \<open>credential_resolve.cpp\<close> (what a connection uses) and the command line's
  \<open>tools/cli_url_resolve.hpp\<close>. The host's settings view belongs to the SDK: its reads
  and writes are parameters. Environment variables are passed as values.
\<close>

section \<open>The token object\<close>

text \<open>
  The methods of \<open>FileCredentialStore\<close> work on the JSON object of the file, keyed by
  \<open>normalizeServerKey\<close>; an empty key is never stored.
\<close>

type_synonym token_object = "(string \<times> json) list"

definition obj_get :: "token_object \<Rightarrow> string \<Rightarrow> string option" where
  "obj_get kvs url =
     (let key = normalizeServerKey url
      in if key = [] then None
         else case map_of kvs key of Some (JString t) \<Rightarrow> Some t | _ \<Rightarrow> None)"

definition obj_set :: "token_object \<Rightarrow> string \<Rightarrow> string \<Rightarrow> token_object" where
  "obj_set kvs url token =
     (let key = normalizeServerKey url
      in if key = [] then kvs else map_put key (JString token) kvs)"

definition obj_erase :: "token_object \<Rightarrow> string \<Rightarrow> token_object" where
  "obj_erase kvs url =
     (let key = normalizeServerKey url
      in if key = [] then kvs else if map_of kvs key \<noteq> None then del_key key kvs else kvs)"

section \<open>The file\<close>

record CredEnv =
  ce_tmp_opens :: bool
  ce_short :: "nat option"
  ce_renames :: bool
  ce_direct_opens :: bool

text \<open>The bytes that reach the disk: the stream is not checked after the write.\<close>

definition flushed :: "CredEnv \<Rightarrow> string \<Rightarrow> string" where
  "flushed e s = (case ce_short e of None \<Rightarrow> s | Some n \<Rightarrow> take n s)"

definition loadObject :: "(string \<Rightarrow> json option) \<Rightarrow> string option \<Rightarrow> token_object" where
  "loadObject parse content =
     (case content of
        None \<Rightarrow> []
      | Some s \<Rightarrow> (case parse s of Some (JObject kvs) \<Rightarrow> kvs | _ \<Rightarrow> []))"

text \<open>\<^const>\<open>None\<close> is the exception of the JSON writer.\<close>

definition writeObject ::
  "(json \<Rightarrow> string option) \<Rightarrow> CredEnv \<Rightarrow> string option \<Rightarrow> token_object \<Rightarrow> string option option" where
  "writeObject dump e content kvs =
     (if \<not> ce_tmp_opens e then Some content
      else case dump (JObject kvs) of
        None \<Rightarrow> None
      | Some s \<Rightarrow>
          if ce_renames e then Some (Some (flushed e s))
          else if ce_direct_opens e then Some (Some (flushed e s))
          else Some content)"

definition store_get :: "(string \<Rightarrow> json option) \<Rightarrow> string option \<Rightarrow> string \<Rightarrow> string option" where
  "store_get parse content url = obj_get (loadObject parse content) url"

definition store_set ::
  "(string \<Rightarrow> json option) \<Rightarrow> (json \<Rightarrow> string option) \<Rightarrow> CredEnv \<Rightarrow> string option \<Rightarrow> string \<Rightarrow> string
     \<Rightarrow> string option option" where
  "store_set parse dump e content url token =
     (if normalizeServerKey url = [] then Some content
      else writeObject dump e content (obj_set (loadObject parse content) url token))"

definition store_erase ::
  "(string \<Rightarrow> json option) \<Rightarrow> (json \<Rightarrow> string option) \<Rightarrow> CredEnv \<Rightarrow> string option \<Rightarrow> string
     \<Rightarrow> string option option" where
  "store_erase parse dump e content url =
     (if normalizeServerKey url = [] then Some content
      else let kvs = loadObject parse content
           in if map_of kvs (normalizeServerKey url) \<noteq> None
              then writeObject dump e content (obj_erase kvs url) else Some content)"

section \<open>Resolution\<close>

definition resolveStoredToken :: "string option \<Rightarrow> string option \<Rightarrow> string" where
  "resolveStoredToken env stored =
     (case env of
        Some t \<Rightarrow> if t \<noteq> [] then t else (case stored of Some s \<Rightarrow> s | None \<Rightarrow> [])
      | None \<Rightarrow> (case stored of Some s \<Rightarrow> s | None \<Rightarrow> []))"

datatype TokenSource = SrcNone | SrcEnvironment | SrcStored

record ServerCredentials =
  cert_path :: string
  api_key :: string
  allow_insecure :: bool
  api_key_source :: TokenSource

text \<open>
  The settings view: \<open>value\<close> reads an entry, \<open>toString\<close>/\<open>toBool\<close> convert it with a
  default, \<open>setStr\<close>/\<open>setBoolean\<close> write one.
\<close>

definition getString ::
  "('v \<Rightarrow> string \<Rightarrow> string) \<Rightarrow> (string \<Rightarrow> 'v option) \<Rightarrow> string \<Rightarrow> string \<Rightarrow> string" where
  "getString toString value key def = (case value key of Some v \<Rightarrow> toString v def | None \<Rightarrow> def)"

definition getBool :: "('v \<Rightarrow> bool \<Rightarrow> bool) \<Rightarrow> (string \<Rightarrow> 'v option) \<Rightarrow> string \<Rightarrow> bool \<Rightarrow> bool" where
  "getBool toBool value key def = (case value key of Some v \<Rightarrow> toBool v def | None \<Rightarrow> def)"

definition credentialsSettingsPrefix :: "string \<Rightarrow> string" where
  "credentialsSettingsPrefix uri = ''mcap_cloud/server_cache/'' @ normalizeServerKey uri @ ''/''"

definition loadCredentialsForUri ::
  "('v \<Rightarrow> string \<Rightarrow> string) \<Rightarrow> ('v \<Rightarrow> bool \<Rightarrow> bool) \<Rightarrow> (string \<Rightarrow> 'v option) \<Rightarrow> (string \<Rightarrow> string option)
     \<Rightarrow> string \<Rightarrow> ServerCredentials" where
  "loadCredentialsForUri toString toBool value tokens uri =
     \<lparr>cert_path = getString toString value (credentialsSettingsPrefix uri @ ''cert_path'') [],
      api_key = (case tokens uri of Some t \<Rightarrow> t | None \<Rightarrow> []),
      allow_insecure = getBool toBool value (credentialsSettingsPrefix uri @ ''allow_insecure'') False,
      api_key_source = SrcNone\<rparr>"

definition saveCredentialsForUri ::
  "('s \<Rightarrow> string \<Rightarrow> string \<Rightarrow> 's) \<Rightarrow> ('s \<Rightarrow> string \<Rightarrow> bool \<Rightarrow> 's) \<Rightarrow> ('t \<Rightarrow> string \<Rightarrow> string \<Rightarrow> 't)
     \<Rightarrow> 's \<Rightarrow> 't \<Rightarrow> string \<Rightarrow> ServerCredentials \<Rightarrow> 's \<times> 't" where
  "saveCredentialsForUri setStr setBoolean set_token view tokens uri creds =
     (let prefix = credentialsSettingsPrefix uri;
          view = setStr view (prefix @ ''cert_path'') (cert_path creds);
          view = setBoolean view (prefix @ ''allow_insecure'') (allow_insecure creds)
      in (view, set_token tokens uri (api_key creds)))"

definition resolveCredentials ::
  "('v \<Rightarrow> string \<Rightarrow> string) \<Rightarrow> ('v \<Rightarrow> bool \<Rightarrow> bool) \<Rightarrow> (string \<Rightarrow> 'v option) \<Rightarrow> (string \<Rightarrow> string option)
     \<Rightarrow> string option \<Rightarrow> string option \<Rightarrow> string \<Rightarrow> ServerCredentials" where
  "resolveCredentials toString toBool value tokens MCAP_CLOUD_URL MCAP_CLOUD_API_KEY uri =
     (let creds = loadCredentialsForUri toString toBool value tokens uri;
          env_origin_ok = (case MCAP_CLOUD_URL of Some u \<Rightarrow> sameWsOrigin u uri | None \<Rightarrow> False);
          env_token = (if env_origin_ok then MCAP_CLOUD_API_KEY else None);
          stored_token = tokens uri
      in creds\<lparr>api_key := resolveStoredToken env_token stored_token,
               api_key_source :=
                 (if env_token \<noteq> None \<and> env_token \<noteq> Some [] then SrcEnvironment
                  else if stored_token \<noteq> None then SrcStored else SrcNone)\<rparr>)"

section \<open>Command line\<close>

definition kDefaultCliUrl :: string where
  "kDefaultCliUrl = ''ws://localhost:8080''"

definition resolveCliUrl :: "string option \<Rightarrow> string option \<Rightarrow> string" where
  "resolveCliUrl cli env =
     (if cli \<noteq> None \<and> cli \<noteq> Some [] then the cli
      else if env \<noteq> None \<and> env \<noteq> Some [] then the env else kDefaultCliUrl)"

definition resolveCliToken ::
  "string option \<Rightarrow> string option \<Rightarrow> string \<Rightarrow> string option \<Rightarrow> string" where
  "resolveCliToken cli_token env_token effective_url env_url =
     (case cli_token of
        Some t \<Rightarrow> t
      | None \<Rightarrow>
          (case (env_token, env_url) of
             (Some t, Some u) \<Rightarrow> if t \<noteq> [] \<and> sameWsOrigin u effective_url then t else []
           | _ \<Rightarrow> []))"

definition resolveCliCert :: "string option \<Rightarrow> string option \<Rightarrow> string" where
  "resolveCliCert cli env =
     (if cli \<noteq> None \<and> cli \<noteq> Some [] then the cli
      else if env \<noteq> None \<and> env \<noteq> Some [] then the env else [])"

section \<open>The interface \<open>CredentialStore\<close>\<close>

text \<open>
  What a client may rely on: an entry is addressed by the key of its URL, a set is read back
  and touches nothing else, an erased entry is absent.
\<close>

locale token_store =
  fixes ok :: "'s \<Rightarrow> bool"
    and key :: "string \<Rightarrow> string"
    and get :: "'s \<Rightarrow> string \<Rightarrow> string option"
    and put :: "'s \<Rightarrow> string \<Rightarrow> string \<Rightarrow> 's"
    and del :: "'s \<Rightarrow> string \<Rightarrow> 's"
  assumes put_ok: "ok s \<Longrightarrow> ok (put s u t)"
    and del_ok: "ok s \<Longrightarrow> ok (del s u)"
    and get_put: "ok s \<Longrightarrow> get (put s u t) v = (if key v = key u \<and> key u \<noteq> [] then Some t else get s v)"
    and get_del: "ok s \<Longrightarrow> get (del s u) v = (if key v = key u then None else get s v)"
begin

fun update :: "'s \<Rightarrow> string \<times> string option \<Rightarrow> 's" where
  "update s (u, Some t) = put s u t"
| "update s (u, None) = del s u"

lemma updates_ok: "ok s \<Longrightarrow> ok (foldl update s us)"
proof (induction us arbitrary: s)
  case (Cons p us)
  obtain u x where p: "p = (u, x)" by (cases p)
  have "ok (update s p)" using Cons.prems by (cases x) (simp_all add: p put_ok del_ok)
  with Cons.IH show ?case by simp
qed simp

text \<open>The last update of a key decides.\<close>

lemma last_update:
  assumes "ok s" and "key v \<noteq> []"
  shows "get (foldl update s us) v =
         (case find (\<lambda>(u, x). key u = key v) (rev us) of Some (u, x) \<Rightarrow> x | None \<Rightarrow> get s v)"
proof (induction us rule: rev_induct)
  case (snoc p us)
  obtain u x where p: "p = (u, x)" by (cases p)
  have ok: "ok (foldl update s us)" by (rule updates_ok [OF assms(1)])
  show ?case using snoc assms(2)
    by (cases x) (auto simp: p get_put [OF ok] get_del [OF ok])
qed simp

end

abbreviation object_ok :: "token_object \<Rightarrow> bool" where
  "object_ok kvs \<equiv> json_ok (JObject kvs)"

lemma obj_get_set:
  assumes "object_ok kvs"
  shows "obj_get (obj_set kvs u t) v =
         (if normalizeServerKey v = normalizeServerKey u \<and> normalizeServerKey u \<noteq> [] then Some t
          else obj_get kvs v)"
  using assms by (simp add: obj_get_def obj_set_def Let_def map_of_map_put)

lemma obj_get_erase:
  "obj_get (obj_erase kvs u) v =
     (if normalizeServerKey v = normalizeServerKey u then None else obj_get kvs v)"
  by (auto simp: obj_get_def obj_erase_def Let_def map_of_del_key)

lemma obj_set_ok: "object_ok kvs \<Longrightarrow> object_ok (obj_set kvs u t)"
  by (simp add: obj_set_def Let_def json_ok_map_put del: json_ok.simps(3))

lemma obj_erase_ok: "object_ok kvs \<Longrightarrow> object_ok (obj_erase kvs u)"
  by (simp add: obj_erase_def Let_def json_ok_del del: json_ok.simps(3))

interpretation tokens: token_store object_ok normalizeServerKey obj_get obj_set obj_erase
  by unfold_locales (simp_all only: obj_set_ok obj_erase_ok obj_get_set obj_get_erase)

section \<open>The file implements the object\<close>

definition env_works :: "CredEnv \<Rightarrow> bool" where
  "env_works e \<longleftrightarrow> ce_tmp_opens e \<and> ce_short e = None \<and> (ce_renames e \<or> ce_direct_opens e)"

lemma load_object_ok:
  assumes "json_library parse dump"
  shows "object_ok (loadObject parse content)"
proof -
  have "object_ok kvs" if "parse s = Some (JObject kvs)" for s kvs
    using json_parse_ok [OF assms that] .
  then show ?thesis
    by (auto simp: loadObject_def split: option.split json.split)
qed

lemma load_written_object:
  assumes "json_library parse dump" and "env_works e" and "object_ok kvs"
    and "writeObject dump e content kvs = Some content'"
  shows "loadObject parse content' = kvs"
proof -
  obtain s where s: "dump (JObject kvs) = Some s" "content' = Some s"
    using assms(2,4) by (auto simp: writeObject_def env_works_def flushed_def split: option.splits if_splits)
  show ?thesis using json_parse_dump [OF assms(1,3) s(1)] s(2) by (simp add: loadObject_def)
qed

lemma store_set_object:
  assumes "json_library parse dump" and "env_works e"
    and "store_set parse dump e content url token = Some content'"
  shows "loadObject parse content' = obj_set (loadObject parse content) url token"
proof (cases "normalizeServerKey url = []")
  case True
  then show ?thesis using assms(3) by (simp add: store_set_def obj_set_def)
next
  case False
  with assms(3) have "writeObject dump e content (obj_set (loadObject parse content) url token) = Some content'"
    by (simp add: store_set_def)
  then show ?thesis
    by (rule load_written_object [OF assms(1,2) obj_set_ok [OF load_object_ok [OF assms(1)]]])
qed

lemma store_erase_object:
  assumes "json_library parse dump" and "env_works e"
    and "store_erase parse dump e content url = Some content'"
  shows "loadObject parse content' = obj_erase (loadObject parse content) url"
proof (cases "normalizeServerKey url = [] \<or> map_of (loadObject parse content) (normalizeServerKey url) = None")
  case True
  then show ?thesis using assms(3) by (auto simp: store_erase_def obj_erase_def Let_def split: if_splits)
next
  case False
  with assms(3) have "writeObject dump e content (obj_erase (loadObject parse content) url) = Some content'"
    by (simp add: store_erase_def Let_def)
  then show ?thesis
    by (rule load_written_object [OF assms(1,2) obj_erase_ok [OF load_object_ok [OF assms(1)]]])
qed

fun file_update ::
  "(string \<Rightarrow> json option) \<Rightarrow> (json \<Rightarrow> string option) \<Rightarrow> string option option \<Rightarrow> CredEnv \<times> string \<times> string option
     \<Rightarrow> string option option" where
  "file_update parse dump None _ = None"
| "file_update parse dump (Some c) (e, u, Some t) = store_set parse dump e c u t"
| "file_update parse dump (Some c) (e, u, None) = store_erase parse dump e c u"

lemma file_updates_None: "foldl (file_update parse dump) None us = None"
  by (induction us) auto

lemma file_updates_object:
  assumes "json_library parse dump" and "\<forall>(e, u, x) \<in> set us. env_works e"
    and "foldl (file_update parse dump) (Some c) us = Some c'"
  shows "loadObject parse c' = foldl tokens.update (loadObject parse c) (map snd us)"
  using assms(2,3)
proof (induction us arbitrary: c)
  case (Cons p us)
  obtain e u x where p: "p = (e, u, x)" by (cases p)
  obtain c1 where c1: "file_update parse dump (Some c) p = Some c1"
    using Cons.prems(2) file_updates_None by (cases "file_update parse dump (Some c) p") auto
  have "loadObject parse c1 = tokens.update (loadObject parse c) (u, x)"
    using c1 Cons.prems(1) store_set_object [OF assms(1)] store_erase_object [OF assms(1)]
    by (cases x) (auto simp: p)
  with Cons c1 show ?case by (simp add: p)
qed simp

section \<open>Properties\<close>

text \<open>
  C27: The token file keeps its promise. After any sequence of sets and erases written by a
  working file system, the token of a server is the one last set for its key, absent when
  that key was last erased, and what the file held before when it was not touched.
\<close>

theorem stored_token_is_last:
  assumes "json_library parse dump" and "\<forall>(e, u, x) \<in> set us. env_works e"
    and "foldl (file_update parse dump) (Some c) us = Some c'" and "normalizeServerKey v \<noteq> []"
  shows "store_get parse c' v =
         (case find (\<lambda>(u, x). normalizeServerKey u = normalizeServerKey v) (rev (map snd us)) of
            Some (u, x) \<Rightarrow> x
          | None \<Rightarrow> store_get parse c v)"
  unfolding store_get_def file_updates_object [OF assms(1-3)]
  by (rule tokens.last_update [OF load_object_ok [OF assms(1)] assms(4)])

theorem stored_token_is_last_witness:
  "\<exists>c'. foldl (file_update codec_parse codec_dump) (Some None)
          [(\<lparr>ce_tmp_opens = True, ce_short = None, ce_renames = True, ce_direct_opens = False\<rparr>,
            ''ws://Host:1'', Some ''secret'')] = Some c' \<and>
        store_get codec_parse c' ''WS://host:1/'' = Some ''secret''"
proof -
  let ?us = "[(\<lparr>ce_tmp_opens = True, ce_short = None, ce_renames = True, ce_direct_opens = False\<rparr>,
            ''ws://Host:1'', Some ''secret'')]"
  have k: "normalizeServerKey ''ws://Host:1'' = ''ws://host:1''"
    "normalizeServerKey ''WS://host:1/'' = ''ws://host:1''" by code_simp+
  then obtain c' where c': "foldl (file_update codec_parse codec_dump) (Some None) ?us = Some c'"
    by (simp add: store_set_def writeObject_def codec_dump_def)
  have "store_get codec_parse c' ''WS://host:1/'' = Some ''secret''"
    using stored_token_is_last [OF codec_library _ c', of "''WS://host:1/''"] k
    by (simp add: env_works_def)
  with c' show ?thesis by blast
qed

text \<open>
  C9: The environment's token is bound to the environment's origin. For a target of another
  origin, or when no URL is set, the resolved credentials do not depend on the token at all;
  they carry the stored one.
\<close>

theorem env_token_confined:
  assumes "\<forall>u. env_url = Some u \<longrightarrow> \<not> sameWsOrigin u uri"
  shows "resolveCredentials ts tb value tokens env_url t uri = resolveCredentials ts tb value tokens env_url t' uri \<and>
         api_key (resolveCredentials ts tb value tokens env_url t uri) =
           (case tokens uri of Some s \<Rightarrow> s | None \<Rightarrow> []) \<and>
         api_key_source (resolveCredentials ts tb value tokens env_url t uri) \<noteq> SrcEnvironment"
  using assms by (cases env_url; cases "tokens uri")
    (simp_all add: resolveCredentials_def resolveStoredToken_def loadCredentialsForUri_def Let_def)

theorem env_token_confined_witness:
  "api_key (resolveCredentials (\<lambda>v d. v) (\<lambda>v d. d) (\<lambda>k. None) (\<lambda>u. None)
     (Some ''wss://good.example'') (Some ''secret'') ''wss://evil.example'') = []"
proof -
  have "\<forall>u. Some ''wss://good.example'' = Some u \<longrightarrow> \<not> sameWsOrigin u ''wss://evil.example''"
    by (simp, code_simp)
  from env_token_confined [OF this, of "\<lambda>v d. v" "\<lambda>v d. d" "\<lambda>k. None" "\<lambda>u. None" "Some ''secret''"]
  show ?thesis by simp
qed

text \<open>
  C28: The command line hands out the environment's token only to the effective URL that has
  the environment URL's origin, and never in place of an explicit token.
\<close>

theorem cli_token_release:
  assumes "resolveCliToken cli_token env_token (resolveCliUrl cli_url env_url) env_url = t" and "t \<noteq> []"
  shows "cli_token = Some t \<or>
         (cli_token = None \<and> env_token = Some t \<and>
          (\<exists>u. env_url = Some u \<and> sameWsOrigin u (resolveCliUrl cli_url env_url)))"
  using assms by (auto simp: resolveCliToken_def split: option.splits if_splits)

theorem cli_token_release_witness:
  "\<exists>u. Some ''ws://h'' = Some u \<and> sameWsOrigin u (resolveCliUrl (Some ''ws://h:80/x'') (Some ''ws://h''))"
proof -
  have "resolveCliToken None (Some ''tok'') (resolveCliUrl (Some ''ws://h:80/x'') (Some ''ws://h'')) (Some ''ws://h'') = ''tok''"
    by code_simp
  from cli_token_release [OF this] show ?thesis by simp
qed

text \<open>A short write is renamed over the token file.\<close>

lemma short_write_published:
  assumes "ce_tmp_opens e" "ce_renames e" "ce_short e = Some 0" "dump (JObject kvs) = Some s" and "parse [] = None"
  shows "\<exists>c'. writeObject dump e (Some old) kvs = Some c' \<and> loadObject parse c' = []"
  using assms by (simp add: writeObject_def flushed_def loadObject_def)

text \<open>Saved credentials are loaded again, given a settings view that reads back what was written.\<close>

lemma save_load_credentials:
  assumes "saveCredentialsForUri setStr setBoolean put view tks uri creds = (view', tks')"
    and "\<And>w k x k'. value (setStr w k x) k' = (if k' = k then Some (ofStr x) else value w k')"
    and "\<And>w k x k'. value (setBoolean w k x) k' = (if k' = k then Some (ofBool x) else value w k')"
    and "\<And>x d. toString (ofStr x) d = x" and "\<And>x d. toBool (ofBool x) d = x"
    and "\<And>ts u t. normalizeServerKey u \<noteq> [] \<Longrightarrow> get (put ts u t) u = Some t"
    and "normalizeServerKey uri \<noteq> []"
  shows "loadCredentialsForUri toString toBool (value view') (get tks') uri = creds\<lparr>api_key_source := SrcNone\<rparr>"
  using assms by (auto simp: saveCredentialsForUri_def loadCredentialsForUri_def getString_def getBool_def Let_def)

end
