(* ===== verification/Sha256.thy ===== *)
theory Sha256
  imports Prelude
begin

text \<open>
  \<open>core/sha256.cpp\<close>: the digest behind descriptor identities and cache file names. The
  working variables are a tuple of 32-bit words and a block is a list of 64 bytes. The
  reference is FIPS 180-4: pad the whole message, cut it into blocks and compress them in
  turn; the code never builds the padded message and handles the tail apart.
\<close>

unbundle bit_operations_syntax

section \<open>Definitions\<close>

definition kK :: "u32 list" where
  "kK = concat
    [[0x428a2f98, 0x71374491, 0xb5c0fbcf, 0xe9b5dba5, 0x3956c25b, 0x59f111f1, 0x923f82a4, 0xab1c5ed5],
     [0xd807aa98, 0x12835b01, 0x243185be, 0x550c7dc3, 0x72be5d74, 0x80deb1fe, 0x9bdc06a7, 0xc19bf174],
     [0xe49b69c1, 0xefbe4786, 0x0fc19dc6, 0x240ca1cc, 0x2de92c6f, 0x4a7484aa, 0x5cb0a9dc, 0x76f988da],
     [0x983e5152, 0xa831c66d, 0xb00327c8, 0xbf597fc7, 0xc6e00bf3, 0xd5a79147, 0x06ca6351, 0x14292967],
     [0x27b70a85, 0x2e1b2138, 0x4d2c6dfc, 0x53380d13, 0x650a7354, 0x766a0abb, 0x81c2c92e, 0x92722c85],
     [0xa2bfe8a1, 0xa81a664b, 0xc24b8b70, 0xc76c51a3, 0xd192e819, 0xd6990624, 0xf40e3585, 0x106aa070],
     [0x19a4c116, 0x1e376c08, 0x2748774c, 0x34b0bcb5, 0x391c0cb3, 0x4ed8aa4a, 0x5b9cca4f, 0x682e6ff3],
     [0x748f82ee, 0x78a5636f, 0x84c87814, 0x8cc70208, 0x90befffa, 0xa4506ceb, 0xbef9a3f7, 0xc67178f2]]"

definition rotr :: "u32 \<Rightarrow> nat \<Rightarrow> u32" where
  "rotr x n = drop_bit n x OR push_bit (32 - n) x"

definition block_word :: "u8 list \<Rightarrow> nat \<Rightarrow> u32" where
  "block_word block t =
     push_bit 24 (ucast (block ! (4 * t))) OR push_bit 16 (ucast (block ! (4 * t + 1))) OR
     push_bit 8 (ucast (block ! (4 * t + 2))) OR ucast (block ! (4 * t + 3))"

definition extend :: "u32 list \<Rightarrow> nat \<Rightarrow> u32 list" where
  "extend w t =
     (let s0 = rotr (w ! (t - 15)) 7 XOR rotr (w ! (t - 15)) 18 XOR drop_bit 3 (w ! (t - 15));
          s1 = rotr (w ! (t - 2)) 17 XOR rotr (w ! (t - 2)) 19 XOR drop_bit 10 (w ! (t - 2))
      in w @ [w ! (t - 16) + s0 + w ! (t - 7) + s1])"

definition schedule :: "u8 list \<Rightarrow> u32 list" where
  "schedule block = foldl extend (map (block_word block) [0..<16]) [16..<64]"

type_synonym sha_state = "u32 \<times> u32 \<times> u32 \<times> u32 \<times> u32 \<times> u32 \<times> u32 \<times> u32"

fun sha_round :: "u32 list \<Rightarrow> sha_state \<Rightarrow> nat \<Rightarrow> sha_state" where
  "sha_round w (a, b, c, d, e, f, g, hh) t =
     (let big_s1 = rotr e 6 XOR rotr e 11 XOR rotr e 25;
          ch = (e AND f) XOR (NOT e AND g);
          t1 = hh + big_s1 + ch + kK ! t + w ! t;
          big_s0 = rotr a 2 XOR rotr a 13 XOR rotr a 22;
          maj = (a AND b) XOR (a AND c) XOR (b AND c);
          t2 = big_s0 + maj
      in (t1 + t2, a, b, c, d + t1, e, f, g))"

fun add_state :: "sha_state \<Rightarrow> sha_state \<Rightarrow> sha_state" where
  "add_state (a, b, c, d, e, f, g, h) (a', b', c', d', e', f', g', h') =
     (a + a', b + b', c + c', d + d', e + e', f + f', g + g', h + h')"

definition compress :: "sha_state \<Rightarrow> u8 list \<Rightarrow> sha_state" where
  "compress h block = add_state h (foldl (sha_round (schedule block)) h [0..<64])"

definition h_init :: sha_state where
  "h_init = (0x6a09e667, 0xbb67ae85, 0x3c6ef372, 0xa54ff53a,
             0x510e527f, 0x9b05688c, 0x1f83d9ab, 0x5be0cd19)"

text \<open>The loop over whole blocks; what is left are fewer than 64 bytes.\<close>

function absorb :: "sha_state \<Rightarrow> u8 list \<Rightarrow> sha_state \<times> u8 list" where
  "absorb h bytes =
     (if 64 \<le> length bytes then absorb (compress h (take 64 bytes)) (drop 64 bytes) else (h, bytes))"
  by pat_completeness auto
termination
  by (relation "measure (length \<circ> snd)") auto

declare absorb.simps [simp del]

definition len_byte :: "u64 \<Rightarrow> nat \<Rightarrow> u8" where
  "len_byte bit_len i = ucast (drop_bit (8 * i) bit_len)"

definition make_tail :: "u8 list \<Rightarrow> nat \<Rightarrow> u64 \<Rightarrow> u8 list" where
  "make_tail rest tail_blocks bit_len =
     foldl (\<lambda>tail i. tail[tail_blocks * 64 - 1 - i := len_byte bit_len i])
       ((rest @ replicate (128 - length rest) 0)[length rest := 0x80]) [0..<8]"

fun state_bytes :: "sha_state \<Rightarrow> u8 list" where
  "state_bytes (a, b, c, d, e, f, g, h) =
     concat (map (\<lambda>x. [ucast (drop_bit 24 x), ucast (drop_bit 16 x), ucast (drop_bit 8 x), ucast x])
       [a, b, c, d, e, f, g, h])"

definition sha256 :: "u8 list \<Rightarrow> u8 list" where
  "sha256 data =
     (let (h, rest) = absorb h_init data;
          tail_blocks = (if length rest + 1 + 8 \<le> 64 then 1 else 2);
          bit_len = of_nat (length data) * 8;
          tail = make_tail rest tail_blocks bit_len;
          h = compress h (take 64 tail);
          h = (if tail_blocks = 2 then compress h (take 64 (drop 64 tail)) else h)
      in state_bytes h)"

definition hex_digit :: "u8 \<Rightarrow> char" where
  "hex_digit w = ''0123456789abcdef'' ! unat w"

definition sha256HexPrefix :: "u8 list \<Rightarrow> nat \<Rightarrow> string" where
  "sha256HexPrefix data n =
     concat (map (\<lambda>b. [hex_digit (drop_bit 4 b), hex_digit (b AND 0xF)]) (take n (sha256 data)))"

section \<open>The reference\<close>

definition be64 :: "u64 \<Rightarrow> u8 list" where
  "be64 w = map (len_byte w) (rev [0..<8])"

text \<open>The number of zero bytes: the padded message is the shortest multiple of a block.\<close>

definition zero_pad :: "nat \<Rightarrow> nat" where
  "zero_pad n = (119 - n mod 64) mod 64"

definition pad :: "u8 list \<Rightarrow> u8 list" where
  "pad m = m @ [0x80] @ replicate (zero_pad (length m)) 0 @ be64 (of_nat (length m) * 8)"

function cut :: "u8 list \<Rightarrow> u8 list list" where
  "cut xs = (if length xs < 64 then [] else take 64 xs # cut (drop 64 xs))"
  by pat_completeness auto
termination
  by (relation "measure length") auto

declare cut.simps [simp del]

definition sha256_spec :: "u8 list \<Rightarrow> u8 list" where
  "sha256_spec m = state_bytes (foldl compress h_init (cut (pad m)))"

section \<open>Equivalence\<close>

lemma length_be64 [simp]: "length (be64 w) = 8"
  by (simp add: be64_def)

lemma zero_pad_cases:
  assumes "n < 64"
  shows "zero_pad n = (if n + 9 \<le> 64 then 55 - n else 119 - n)"
proof (cases "n + 9 \<le> 64")
  case True
  then have "zero_pad n = (119 - n - 64) mod 64" using assms unfolding zero_pad_def by (subst le_mod_geq) simp_all
  with True show ?thesis by simp
next
  case False
  with assms show ?thesis by (simp add: zero_pad_def)
qed

lemma zero_pad_mod: "zero_pad (n mod 64) = zero_pad n"
  by (simp add: zero_pad_def)

lemma length_pad: "length (pad m) mod 64 = 0"
proof -
  let ?r = "length m mod 64"
  have "?r + 9 + zero_pad ?r \<in> {64, 128}" using zero_pad_cases [of ?r] by auto
  then have "(?r + 9 + zero_pad ?r) mod 64 = 0" by (elim insertE) (simp_all only: mod_self, simp_all)
  then have "(length m + (9 + zero_pad (length m))) mod 64 = 0"
    by (metis (no_types, lifting) zero_pad_mod add.assoc mod_add_left_eq)
  then show ?thesis by (simp add: pad_def)
qed

lemma absorb_spec:
  "absorb h xs = (h', rest) \<Longrightarrow>
   length rest = length xs mod 64 \<and>
   foldl compress h (cut (xs @ ys)) = foldl compress h' (cut (rest @ ys))"
proof (induction h xs rule: absorb.induct)
  case (1 h xs)
  show ?case
  proof (cases "64 \<le> length xs")
    case True
    then have "absorb (compress h (take 64 xs)) (drop 64 xs) = (h', rest)"
      using 1(2) by (simp add: absorb.simps [of h xs])
    from 1(1) [OF True this] True show ?thesis
      by (subst cut.simps [of "xs @ ys"]) (simp add: le_mod_geq)
  next
    case False
    then show ?thesis using 1(2) by (auto simp: absorb.simps [of h xs])
  qed
qed

lemma put_length:
  "foldl (\<lambda>t i. t[length p + 8 - 1 - i := len_byte w i]) (p @ replicate 8 0 @ q) [0..<8] =
   p @ be64 w @ q"
  by (simp add: be64_def upt_rec [of _ 8] upt_rec [of _ "Suc _"] list_update_append numeral_eq_Suc)

lemma tail_is_padding:
  assumes "length rest < 64" and "k = (if length rest + 1 + 8 \<le> 64 then 1 else 2 :: nat)"
  shows "take (64 * k) (make_tail rest k w) = rest @ [0x80] @ replicate (zero_pad (length rest)) 0 @ be64 w"
proof -
  let ?p = "rest @ [0x80] @ replicate (zero_pad (length rest)) 0"
  have zp: "zero_pad (length rest) = 64 * k - 9 - length rest" and le: "length rest + 9 \<le> 64 * k"
    using assms by (auto simp: zero_pad_cases)
  then have lp: "length ?p = 64 * k - 8" using assms by auto
  have k: "64 * k \<le> 128" using assms by auto
  have "replicate (127 - length rest) (0::u8) =
        replicate (zero_pad (length rest)) 0 @ replicate 8 0 @ replicate (128 - 64 * k) 0"
    using zp le k by (simp add: replicate_add [symmetric])
  moreover have "replicate (128 - length rest) (0::u8) = 0 # replicate (127 - length rest) 0"
  proof -
    have "128 - length rest = Suc (127 - length rest)" using assms(1) by simp
    then show ?thesis by (simp del: One_nat_def)
  qed
  ultimately have init: "(rest @ replicate (128 - length rest) 0)[length rest := 0x80] =
        ?p @ replicate 8 0 @ replicate (128 - 64 * k) 0"
    by simp
  have "make_tail rest k w =
        foldl (\<lambda>t i. t[length ?p + 8 - 1 - i := len_byte w i]) (?p @ replicate 8 0 @ replicate (128 - 64 * k) 0) [0..<8]"
    unfolding make_tail_def init lp using le by (simp add: mult.commute)
  also have "\<dots> = ?p @ be64 w @ replicate (128 - 64 * k) 0" by (rule put_length)
  finally have mt: "make_tail rest k w = (?p @ be64 w) @ replicate (128 - 64 * k) 0" by simp
  have "length (?p @ be64 w) = 64 * k" using lp le by simp
  then have "take (64 * k) (make_tail rest k w) = ?p @ be64 w" unfolding mt by (subst take_append) simp
  then show ?thesis by simp
qed

lemma sha256_eq: "sha256 m = sha256_spec m"
proof -
  obtain h rest where ab: "absorb h_init m = (h, rest)" by fastforce
  let ?w = "of_nat (length m) * 8 :: u64"
  define k where "k = (if length rest + 1 + 8 \<le> 64 then 1 else 2 :: nat)"
  let ?t = "make_tail rest k ?w"
  note sp = absorb_spec [OF ab]
  have r: "length rest = length m mod 64" "length rest < 64" using sp by simp_all
  have t: "take (64 * k) ?t = rest @ [0x80] @ replicate (zero_pad (length m)) 0 @ be64 ?w"
    using tail_is_padding [OF r(2) k_def, of ?w] by (simp add: r(1) zero_pad_mod)
  have len: "length ?t = 128"
    using r(2) by (simp add: make_tail_def upt_rec [of _ 8] upt_rec [of _ "Suc _"] numeral_eq_Suc)
  have "foldl compress h_init (cut (pad m)) = foldl compress h (cut (take (64 * k) ?t))"
    using sp [of "[0x80] @ replicate (zero_pad (length m)) 0 @ be64 ?w"] by (simp add: pad_def t)
  also have "\<dots> = (let h = compress h (take 64 ?t)
                   in if k = 2 then compress h (take 64 (drop 64 ?t)) else h)"
  proof (cases "k = 2")
    case True
    then show ?thesis using len by (simp add: cut.simps Let_def)
  next
    case False
    then have "k = 1" by (simp add: k_def split: if_splits)
    then show ?thesis using len by (simp add: cut.simps Let_def)
  qed
  finally show ?thesis
    unfolding sha256_def sha256_spec_def ab Let_def prod.case k_def [symmetric] by simp
qed

section \<open>The hexadecimal form\<close>

definition hex_digits :: "char set" where
  "hex_digits = set ''0123456789abcdef''"

lemma length_state_bytes: "length (state_bytes h) = 32"
  by (cases h rule: state_bytes.cases) simp

lemma length_sha256: "length (sha256 m) = 32"
  by (simp add: sha256_eq sha256_spec_def length_state_bytes)

lemma nibble_bound: "unat (drop_bit 4 (b :: u8)) < 16" "unat (b AND 0xF) < 16"
proof -
  have "unat b < 256" using unsigned_less [of b] by simp
  then show "unat (drop_bit 4 b) < 16"
    by (subst unat_drop_bit_eq) (simp add: drop_bit_eq_div)
  have "b AND 0xF \<le> 0xF" by (rule word_and_le1)
  then show "unat (b AND 0xF) < 16" by (simp add: word_le_nat_alt)
qed

lemma hex_digit_in: "unat w < 16 \<Longrightarrow> hex_digit w \<in> hex_digits"
  unfolding hex_digit_def hex_digits_def by (rule nth_mem) simp

lemma hex_length: "length (sha256HexPrefix m n) = 2 * min n 32"
  by (simp add: sha256HexPrefix_def length_concat o_def sum_list_triv length_sha256)

lemma hex_set: "set (sha256HexPrefix m n) \<subseteq> hex_digits"
  by (auto simp: sha256HexPrefix_def intro!: hex_digit_in nibble_bound)

section \<open>Properties\<close>


end
