(* ===== verification/Sha256_Vector.thy ===== *)
theory Sha256_Vector
  imports Sha256
begin

text \<open>
  The tables of \<open>core/sha256.cpp\<close> against their definition in the standard, and a test vector
  of the standard computed in the logic.
\<close>

unbundle bit_operations_syntax

lemma abc_block:
  "compress h_init (take 64 (pad [0x61, 0x62, 0x63])) =
     (0xba7816bf, 0x8f01cfea, 0x414140de, 0x5dae2223, 0xb00361a3, 0x96177a9c, 0xb410ff61, 0xf20015ad)"
  by code_simp

text \<open>The primes below 312, by trial division up to 17: there are 64 of them.\<close>

definition small_prime :: "int \<Rightarrow> bool" where
  "small_prime n \<longleftrightarrow> 1 < n \<and> (\<forall>d \<in> set [2..17]. d < n \<longrightarrow> n mod d \<noteq> 0)"

lemma small_divisor:
  assumes "n < 18 * 18" and "1 < d" and "d < n" and "d dvd n"
  shows "\<exists>d \<in> {2..17}. d < n \<and> d dvd (n :: int)"
proof -
  obtain e where n: "n = d * e" using assms(4) ..
  have "0 < d * e" "d * 1 < d * e" using assms n by auto
  then have e: "1 < e" using assms(2) by (simp only: mult_less_cancel_left_pos)
  then have "1 * e < d * e" using assms(2) by (intro mult_strict_right_mono) auto
  then have "e < n" using n by simp
  moreover have "\<not> (18 \<le> d \<and> 18 \<le> e)" using n assms(1) mult_mono [of 18 d 18 e] by auto
  ultimately consider "d \<in> {2..17}" | "e \<in> {2..17}" "e < n" "e dvd n"
    using assms(2) e n by fastforce
  then show ?thesis using assms(3,4) by cases blast+
qed

lemma small_prime_iff:
  assumes "n < 18 * 18"
  shows "small_prime n \<longleftrightarrow> 1 < n \<and> (\<forall>d. 1 < d \<and> d < n \<longrightarrow> \<not> d dvd n)"
proof -
  have "\<exists>d. 1 < d \<and> d < n \<and> d dvd n" if "\<exists>d \<in> {2..17}. d < n \<and> d dvd n"
  proof -
    obtain d where "2 \<le> d" "d < n" "d dvd n" using \<open>\<exists>d \<in> {2..17}. d < n \<and> d dvd n\<close> by (meson atLeastAtMost_iff)
    moreover from this(1) have "1 < d" by linarith
    ultimately show ?thesis by blast
  qed
  then have "(\<exists>d. 1 < d \<and> d < n \<and> d dvd n) \<longleftrightarrow> (\<exists>d \<in> {2..17}. d < n \<and> d dvd n)"
    by (intro iffI) (elim exE conjE, rule small_divisor [OF assms])
  then have "(\<forall>d \<in> {2..17}. d < n \<longrightarrow> \<not> d dvd n) \<longleftrightarrow> (\<forall>d. 1 < d \<and> d < n \<longrightarrow> \<not> d dvd n)"
    by metis
  then show ?thesis by (simp only: small_prime_def set_upto dvd_eq_mod_eq_0)
qed

definition first_primes :: "int list" where
  "first_primes = filter small_prime [0..311]"

text \<open>The word holds the first 32 bits of the fractional part of the \<open>e\<close>-th root of \<open>p\<close>.\<close>

definition root_bits :: "nat \<Rightarrow> int \<Rightarrow> u32 \<Rightarrow> bool" where
  "root_bits e p w \<longleftrightarrow>
     (\<exists>n \<in> set [0..17]. (n * 2 ^ 32 + uint w) ^ e \<le> p * 2 ^ (32 * e) \<and>
        p * 2 ^ (32 * e) < (n * 2 ^ 32 + uint w + 1) ^ e)"

fun state_words :: "sha_state \<Rightarrow> u32 list" where
  "state_words (a, b, c, d, e, f, g, h) = [a, b, c, d, e, f, g, h]"

text \<open>
  The round constants are the first 32 bits of the fractional parts of the cube roots of the
  first 64 primes, and the initial state those of the square roots of the first 8 primes.
\<close>

theorem sha256_constants:
  "length kK = 64 \<and> list_all2 (root_bits 3) first_primes kK \<and>
   list_all2 (root_bits 2) (take 8 first_primes) (state_words h_init)"
  by code_simp

text \<open>The digest of \<open>abc\<close> is the standard's test vector.\<close>

theorem sha256_abc:
  "sha256HexPrefix [0x61, 0x62, 0x63] 16 = ''ba7816bf8f01cfea414140de5dae2223''"
proof -
  have "cut (pad [0x61, 0x62, 0x63]) = [take 64 (pad [0x61, 0x62, 0x63])]"
    by (simp add: cut.simps pad_def zero_pad_def)
  then have digest: "sha256 [0x61, 0x62, 0x63] =
      state_bytes (0xba7816bf, 0x8f01cfea, 0x414140de, 0x5dae2223, 0xb00361a3, 0x96177a9c, 0xb410ff61, 0xf20015ad)"
    by (simp add: sha256_eq sha256_spec_def abc_block)
  have front: "take 16 (state_bytes (0xba7816bf, 0x8f01cfea, 0x414140de, 0x5dae2223,
        0xb00361a3, 0x96177a9c, 0xb410ff61, 0xf20015ad)) =
      [0xba, 0x78, 0x16, 0xbf, 0x8f, 0x01, 0xcf, 0xea, 0x41, 0x41, 0x40, 0xde, 0x5d, 0xae, 0x22, 0x23]"
    by code_simp
  show ?thesis unfolding sha256HexPrefix_def digest front by code_simp
qed

end
