(* ===== verification/Source_Descriptor.thy ===== *)
theory Source_Descriptor
  imports Json Sha256
begin

text \<open>
  \<open>source_descriptor.cpp\<close>: the descriptor a layout embeds to name the data it was made
  from. Parsing validates it against hard limits and a per-kind allowlist of fields; the
  canonical form is what its identity is computed over. Errors are the messages of the code.
\<close>

section \<open>Definitions\<close>

record SourceDescriptor =
  sd_version :: int
  sd_kind :: string
  sd_server_uri :: string
  sd_s3_keys :: "string list"
  sd_topics :: "string list"
  sd_start_ns :: int
  sd_end_ns :: int
  sd_include_latched :: bool
  sd_selection_id :: string
  sd_display_name :: string

definition kSessionKind :: string where "kSessionKind = ''mcap-cloud-session''"
definition kSelectionKind :: string where "kSelectionKind = ''mcap-cloud-selection''"
definition kMaxDescriptorBytes :: nat where "kMaxDescriptorBytes = 64 * 1024"
definition kMaxKeys :: nat where "kMaxKeys = 512"
definition kMaxTopics :: nat where "kMaxTopics = 4096"
definition kMaxStringBytes :: nat where "kMaxStringBytes = 4096"

definition kSessionFields :: "string list" where
  "kSessionFields = [''v'', ''kind'', ''server_uri'', ''s3_keys'', ''topics'', ''start_ns'',
     ''end_ns'', ''include_latched'', ''display_name'']"

definition kSelectionFields :: "string list" where
  "kSelectionFields = [''v'', ''kind'', ''server_uri'', ''selection_id'', ''display_name'']"

definition quoted :: "string \<Rightarrow> string" where
  "quoted s = [CHR 0x22] @ s @ [CHR 0x22]"

fun ns_loop :: "string \<Rightarrow> int \<Rightarrow> int option" where
  "ns_loop [] value = Some value"
| "ns_loop (c # cs) value =
     (if \<not> is_digit c then None
      else let digit = int (digit_val c)
           in if (INT64_MAX - digit) div 10 < value then None
              else ns_loop cs (value * 10 + digit))"

definition parseDecimalNs :: "string \<Rightarrow> int option" where
  "parseDecimalNs text = (if text = [] \<or> 20 < length text then None else ns_loop text 0)"

definition validateServerUri :: "string \<Rightarrow> string + unit" where
  "validateServerUri uri =
     bindR
       (if starts_with uri ''ws://'' then Inr 5
        else if starts_with uri ''wss://'' then Inr 6
        else Inl ''server_uri scheme must be ws:// or wss://'')
       (\<lambda>authority_start.
          bindR (guardR (find_char (CHR ''?'') uri = None) ''server_uri must not contain a query string'')
          (\<lambda>_. bindR (guardR (find_char (CHR ''#'') uri = None) ''server_uri must not contain a fragment'')
          (\<lambda>_. guardR (find_char (CHR ''@'') (up_to (CHR ''/'') (drop authority_start uri)) = None)
                  ''server_uri must not contain userinfo'')))"

definition takeString :: "json \<Rightarrow> string \<Rightarrow> string + string" where
  "takeString obj field =
     (case jfind obj field of
        None \<Rightarrow> Inl (''missing field '' @ quoted field)
      | Some (JString s) \<Rightarrow>
          if kMaxStringBytes < length s
          then Inl (''field '' @ quoted field @ '' exceeds the '' @ nat_str kMaxStringBytes @ ''-byte string limit'')
          else Inr s
      | Some _ \<Rightarrow> Inl (''field '' @ quoted field @ '' must be a string''))"

fun take_entries :: "string \<Rightarrow> json list \<Rightarrow> string + string list" where
  "take_entries field [] = Inr []"
| "take_entries field (entry # es) =
     (case entry of
        JString s \<Rightarrow>
          if kMaxStringBytes < length s
          then Inl (''field '' @ quoted field @ '' entry exceeds the '' @ nat_str kMaxStringBytes @ ''-byte string limit'')
          else bindR (take_entries field es) (\<lambda>ss. Inr (s # ss))
      | _ \<Rightarrow> Inl (''field '' @ quoted field @ '' must be an array of strings''))"

definition takeStringArray :: "json \<Rightarrow> string \<Rightarrow> nat \<Rightarrow> string + string list" where
  "takeStringArray obj field max_entries =
     (case jfind obj field of
        None \<Rightarrow> Inl (''missing field '' @ quoted field)
      | Some (JArray xs) \<Rightarrow>
          if max_entries < length xs
          then Inl (field @ '' exceeds the '' @ nat_str max_entries @ ''-entry limit'')
          else take_entries field xs
      | Some _ \<Rightarrow> Inl (''field '' @ quoted field @ '' must be an array of strings''))"

definition takeNs :: "json \<Rightarrow> string \<Rightarrow> string + int" where
  "takeNs obj field =
     bindR (takeString obj field)
       (\<lambda>text. case parseDecimalNs text of
                 None \<Rightarrow> Inl (field @ '' is not a decimal nanosecond string'')
               | Some v \<Rightarrow> Inr v)"

definition takeVersion :: "json \<Rightarrow> string + int" where
  "takeVersion obj =
     (case jfind obj ''v'' of
        None \<Rightarrow> Inl (''missing field '' @ quoted ''v'')
      | Some (JInt i) \<Rightarrow>
          if i \<noteq> 1 then Inl (''unsupported descriptor version '' @ int_str i @ '' (expected 1)'') else Inr 1
      | Some _ \<Rightarrow> Inl (''field '' @ quoted ''v'' @ '' must be an integer''))"

text \<open>The sweep over the sorted keys, with the previous one.\<close>

fun check_keys :: "string option \<Rightarrow> string list \<Rightarrow> string + unit" where
  "check_keys prev [] = Inr ()"
| "check_keys prev (k # ks) =
     (if k = [] then Inl ''s3_keys must not contain empty keys''
      else if prev = Some k then Inl (''s3_keys must not contain duplicate keys ('' @ quoted k @ '')'')
      else check_keys (Some k) ks)"

definition takeLatched :: "json \<Rightarrow> string + bool" where
  "takeLatched obj =
     (case jfind obj ''include_latched'' of
        None \<Rightarrow> Inl (''missing field '' @ quoted ''include_latched'')
      | Some (JBool b) \<Rightarrow> Inr b
      | Some _ \<Rightarrow> Inl (''field '' @ quoted ''include_latched'' @ '' must be a boolean''))"

definition checkKind :: "string \<Rightarrow> string + unit" where
  "checkKind k =
     guardR (k = kSelectionKind \<or> k = kSessionKind)
       (''unsupported kind '' @ quoted k @ '' (expected '' @ quoted kSessionKind @ '' or '' @
        quoted kSelectionKind @ '')'')"

fun checkAllowed :: "string \<Rightarrow> json \<Rightarrow> string + unit" where
  "checkAllowed kind (JObject kvs) =
     (case find (\<lambda>key. key \<notin> set (if kind = kSelectionKind then kSelectionFields else kSessionFields)) (map fst kvs) of
        None \<Rightarrow> Inr ()
      | Some key \<Rightarrow> Inl (''unknown field '' @ quoted key @ '' for kind '' @ quoted kind))"
| "checkAllowed kind _ = Inr ()"

text \<open>The fields of the selection kind and of the session kind after the shared ones.\<close>

definition parse_selection :: "json \<Rightarrow> SourceDescriptor \<Rightarrow> string + SourceDescriptor" where
  "parse_selection obj d =
     bindR (takeString obj ''selection_id'')
       (\<lambda>i. if i = [] then Inl ''selection_id must not be empty'' else Inr (d\<lparr>sd_selection_id := i\<rparr>))"

definition parse_session :: "json \<Rightarrow> SourceDescriptor \<Rightarrow> string + SourceDescriptor" where
  "parse_session obj d =
     bindR (takeStringArray obj ''s3_keys'' kMaxKeys) (\<lambda>ks.
     bindR (takeStringArray obj ''topics'' kMaxTopics) (\<lambda>ts.
     bindR (guardR (ks \<noteq> []) ''s3_keys must contain at least one key'') (\<lambda>_.
     bindR (check_keys None (sort ks)) (\<lambda>_.
     bindR (takeNs obj ''start_ns'') (\<lambda>a.
     bindR (takeNs obj ''end_ns'') (\<lambda>b.
     bindR (takeLatched obj) (\<lambda>l.
     bindR (guardR (\<not> b < a) (''end_ns '' @ int_str b @ '' is before start_ns '' @ int_str a)) (\<lambda>_.
       Inr (d\<lparr>sd_s3_keys := ks, sd_topics := ts, sd_start_ns := a, sd_end_ns := b,
              sd_include_latched := l\<rparr>)))))))))"

definition parse_object :: "json \<Rightarrow> string + SourceDescriptor" where
  "parse_object obj =
     bindR (takeVersion obj) (\<lambda>v.
     bindR (takeString obj ''kind'') (\<lambda>k.
     bindR (checkKind k) (\<lambda>_.
     bindR (checkAllowed k obj) (\<lambda>_.
     bindR (takeString obj ''server_uri'') (\<lambda>u.
     bindR (validateServerUri u) (\<lambda>_.
     bindR (if jfind obj ''display_name'' \<noteq> None then takeString obj ''display_name'' else Inr []) (\<lambda>n.
       let d = \<lparr>sd_version = v, sd_kind = k, sd_server_uri = u, sd_s3_keys = [], sd_topics = [],
                sd_start_ns = 0, sd_end_ns = 0, sd_include_latched = True, sd_selection_id = [],
                sd_display_name = n\<rparr>
       in if k = kSelectionKind then parse_selection obj d else parse_session obj d)))))))"

definition parseSourceDescriptor :: "(string \<Rightarrow> json option) \<Rightarrow> string \<Rightarrow> string + SourceDescriptor" where
  "parseSourceDescriptor parse text =
     (if kMaxDescriptorBytes < length text
      then Inl (''descriptor exceeds the '' @ nat_str kMaxDescriptorBytes @ ''-byte limit'')
      else case parse text of
        None \<Rightarrow> Inl ''descriptor is not valid JSON''
      | Some obj \<Rightarrow>
          if \<not> is_object obj then Inl ''descriptor is not a JSON object'' else parse_object obj)"

text \<open>The fields of the two serialisations, in the order of insertion.\<close>

definition canonical_fields :: "SourceDescriptor \<Rightarrow> (string \<times> json) list" where
  "canonical_fields d =
     (if sd_kind d = kSelectionKind then
        [(''kind'', JString (sd_kind d)), (''selection_id'', JString (sd_selection_id d)),
         (''server_uri'', JString (sd_server_uri d)), (''v'', JInt (sd_version d))]
      else
        [(''end_ns'', JString (int_str (sd_end_ns d))), (''include_latched'', JBool (sd_include_latched d)),
         (''kind'', JString (sd_kind d)), (''s3_keys'', JArray (map JString (sd_s3_keys d))),
         (''server_uri'', JString (sd_server_uri d)), (''start_ns'', JString (int_str (sd_start_ns d))),
         (''topics'', JArray (map JString (sd_topics d))), (''v'', JInt (sd_version d))])"

definition canonicalSourceDescriptorJson :: "(json \<Rightarrow> string option) \<Rightarrow> SourceDescriptor \<Rightarrow> string option" where
  "canonicalSourceDescriptorJson dump d = dump (JObject (canonical_fields d))"

definition descriptorIdentity :: "(json \<Rightarrow> string option) \<Rightarrow> SourceDescriptor \<Rightarrow> string option" where
  "descriptorIdentity dump d =
     map_option (\<lambda>s. ''mcap-cloud:v1:sha256/128:'' @ sha256HexPrefix (str_bytes s) 16)
       (canonicalSourceDescriptorJson dump d)"

definition toSourceDescriptorJson :: "(json \<Rightarrow> string option) \<Rightarrow> SourceDescriptor \<Rightarrow> string option" where
  "toSourceDescriptorJson dump d =
     dump (JObject ((''display_name'', JString (sd_display_name d)) # canonical_fields d))"

section \<open>Fields\<close>

lemma ns_step:
  "0 \<le> digit \<Longrightarrow> digit < 10 \<Longrightarrow> (INT64_MAX - digit) div 10 < v \<longleftrightarrow> INT64_MAX < v * 10 + (digit::int)"
  by linarith

lemma ns_loop_eq:
  "0 \<le> v \<Longrightarrow> v \<le> INT64_MAX \<Longrightarrow>
   ns_loop s v =
     (if list_all is_digit s \<and> int (digits_val (nat v) s) \<le> INT64_MAX
      then Some (int (digits_val (nat v) s)) else None)"
proof (induction s arbitrary: v)
  case (Cons c cs)
  show ?case
  proof (cases "is_digit c")
    case True
    then have d: "digit_val c < 10" by (rule digit_val_bound)
    define w where "w = v * 10 + int (digit_val c)"
    have nw: "nat w = nat v * 10 + digit_val c" "0 \<le> w" using Cons.prems by (simp_all add: w_def nat_add_distrib nat_mult_distrib)
    show ?thesis
    proof (cases "w \<le> INT64_MAX")
      case wle: True
      then show ?thesis
        using Cons.IH [OF nw(2) wle] True ns_step [of "int (digit_val c)" v] d nw(1)
        by (simp add: Let_def w_def [symmetric])
    next
      case False
      then have "\<not> int (digits_val (nat w) cs) \<le> INT64_MAX" using digits_val_ge [of "nat w" cs] nw(2) by linarith
      then show ?thesis
        using False True ns_step [of "int (digit_val c)" v] d nw(1)
        by (simp add: Let_def w_def [symmetric])
    qed
  qed simp
qed simp

lemma parse_ns_range: "parseDecimalNs s = Some v \<Longrightarrow> 0 \<le> v \<and> v \<le> INT64_MAX"
  by (auto simp: parseDecimalNs_def ns_loop_eq split: if_splits)

lemma parse_ns_int_str:
  assumes "0 \<le> v" and "v \<le> INT64_MAX"
  shows "parseDecimalNs (int_str v) = Some v"
proof -
  have "length (nat_str (nat v)) \<le> 19" using assms by (intro nat_str_length) auto
  moreover have "list_all is_digit (nat_str (nat v))" by (auto simp: list_all_iff dest: nat_str_digits)
  ultimately show ?thesis
    using assms by (simp add: parseDecimalNs_def int_str_def ns_loop_eq digits_val_nat_str)
qed

lemma takeString_iff:
  "takeString obj f = Inr s \<longleftrightarrow> jfind obj f = Some (JString s) \<and> length s \<le> kMaxStringBytes"
  by (auto simp: takeString_def split: option.splits json.splits if_splits)

lemma take_entries_iff:
  "take_entries f xs = Inr ss \<longleftrightarrow> xs = map JString ss \<and> (\<forall>s \<in> set ss. length s \<le> kMaxStringBytes)"
proof (induction xs arbitrary: ss)
  case (Cons x xs)
  then show ?case
    by (cases x; cases ss) (auto simp: bindR_Inr_iff)
qed auto

lemma takeStringArray_iff:
  "takeStringArray obj f n = Inr ss \<longleftrightarrow>
   jfind obj f = Some (JArray (map JString ss)) \<and> length ss \<le> n \<and> (\<forall>s \<in> set ss. length s \<le> kMaxStringBytes)"
  by (auto simp: takeStringArray_def take_entries_iff split: option.splits json.splits if_splits)

lemma check_keys_iff:
  "sorted ks \<Longrightarrow> (\<forall>p. prev = Some p \<longrightarrow> (\<forall>k \<in> set ks. p \<le> k)) \<Longrightarrow>
   check_keys prev ks = Inr u \<longleftrightarrow> [] \<notin> set ks \<and> distinct ks \<and> (\<forall>p. prev = Some p \<longrightarrow> p \<notin> set ks)"
proof (induction ks arbitrary: prev)
  case (Cons k ks)
  have "check_keys (Some k) ks = Inr u \<longleftrightarrow> [] \<notin> set ks \<and> distinct ks \<and> k \<notin> set ks"
    using Cons.IH [of "Some k"] Cons.prems(1) by simp
  moreover have "p \<notin> set ks" if "prev = Some p" "p \<noteq> k" for p
    using Cons.prems that by (auto dest: antisym)
  ultimately show ?case by auto
qed simp

lemma check_sorted_keys:
  "check_keys None (sort ks) = Inr u \<longleftrightarrow> [] \<notin> set ks \<and> distinct ks"
  by (subst check_keys_iff) auto

lemma takeNs_iff:
  "takeNs obj f = Inr v \<longleftrightarrow>
   (\<exists>s. jfind obj f = Some (JString s) \<and> length s \<le> kMaxStringBytes \<and> parseDecimalNs s = Some v)"
  by (auto simp: takeNs_def bindR_Inr_iff takeString_iff split: option.splits)

lemma takeLatched_iff: "takeLatched obj = Inr b \<longleftrightarrow> jfind obj ''include_latched'' = Some (JBool b)"
  by (auto simp: takeLatched_def split: option.splits json.splits)

lemma takeVersion_iff: "takeVersion obj = Inr v \<longleftrightarrow> v = 1 \<and> jfind obj ''v'' = Some (JInt 1)"
  by (auto simp: takeVersion_def split: option.splits json.splits if_splits)

lemma checkAllowed_iff:
  "checkAllowed kind (JObject kvs) = Inr u \<longleftrightarrow>
   fst ` set kvs \<subseteq> set (if kind = kSelectionKind then kSelectionFields else kSessionFields)"
proof -
  let ?A = "set (if kind = kSelectionKind then kSelectionFields else kSessionFields)"
  have "find (\<lambda>key. key \<notin> ?A) (map fst kvs) = None \<longleftrightarrow> fst ` set kvs \<subseteq> ?A"
    by (auto simp: find_None_iff)
  then show ?thesis by (cases "find (\<lambda>key. key \<notin> ?A) (map fst kvs)") simp_all
qed

lemmas field_iffs = bindR_Inr_iff takeString_iff takeStringArray_iff check_sorted_keys takeNs_iff
  takeLatched_iff takeVersion_iff

section \<open>What an accepted descriptor satisfies\<close>

definition wf_descriptor :: "SourceDescriptor \<Rightarrow> bool" where
  "wf_descriptor d \<longleftrightarrow>
     sd_version d = 1 \<and> validateServerUri (sd_server_uri d) = Inr () \<and>
     length (sd_server_uri d) \<le> kMaxStringBytes \<and> length (sd_display_name d) \<le> kMaxStringBytes \<and>
     (if sd_kind d = kSelectionKind then
        sd_selection_id d \<noteq> [] \<and> length (sd_selection_id d) \<le> kMaxStringBytes \<and>
        sd_s3_keys d = [] \<and> sd_topics d = [] \<and> sd_start_ns d = 0 \<and> sd_end_ns d = 0 \<and> sd_include_latched d
      else
        sd_kind d = kSessionKind \<and> sd_selection_id d = [] \<and>
        sd_s3_keys d \<noteq> [] \<and> [] \<notin> set (sd_s3_keys d) \<and> distinct (sd_s3_keys d) \<and>
        length (sd_s3_keys d) \<le> kMaxKeys \<and> length (sd_topics d) \<le> kMaxTopics \<and>
        (\<forall>s \<in> set (sd_s3_keys d) \<union> set (sd_topics d). length s \<le> kMaxStringBytes) \<and>
        0 \<le> sd_start_ns d \<and> sd_start_ns d \<le> sd_end_ns d \<and> sd_end_ns d \<le> INT64_MAX)"

lemma parse_object_wf:
  assumes "parse_object obj = Inr d"
  shows "wf_descriptor d"
  using assms
  by (auto simp: parse_object_def parse_selection_def parse_session_def field_iffs wf_descriptor_def
      checkKind_def Let_def split: if_splits dest!: parse_ns_range)

lemma parse_object_allowed:
  assumes "parse_object (JObject kvs) = Inr d"
  shows "fst ` set kvs \<subseteq> set (if sd_kind d = kSelectionKind then kSelectionFields else kSessionFields)"
  using assms
  by (auto simp: parse_object_def parse_selection_def parse_session_def field_iffs checkKind_def Let_def
      checkAllowed_iff simp del: checkAllowed.simps split: if_splits)

section \<open>Round trips\<close>

lemma kinds_differ [simp]: "kSessionKind \<noteq> kSelectionKind" "kSelectionKind \<noteq> kSessionKind"
  by (simp_all add: kSessionKind_def kSelectionKind_def)

lemma kind_lengths: "length kSessionKind \<le> kMaxStringBytes" "length kSelectionKind \<le> kMaxStringBytes"
  by (simp_all add: kSessionKind_def kSelectionKind_def kMaxStringBytes_def)

lemma int_str_length:
  assumes "0 \<le> v" and "v \<le> INT64_MAX"
  shows "length (int_str v) \<le> kMaxStringBytes"
proof -
  have "length (nat_str (nat v)) \<le> 19" using assms by (intro nat_str_length) auto
  then show ?thesis using assms(1) by (simp add: int_str_def kMaxStringBytes_def)
qed

text \<open>Reading the fields of either serialisation, with or without a display name.\<close>

lemma parse_object_fields:
  assumes "wf_descriptor d" and "kvs = canonical_fields d \<and> n = [] \<or>
    kvs = (''display_name'', JString (sd_display_name d)) # canonical_fields d \<and> n = sd_display_name d"
  shows "parse_object (JObject kvs) = Inr (d\<lparr>sd_display_name := n\<rparr>)"
proof (cases "sd_kind d = kSelectionKind")
  case True
  note w = assms(1) [unfolded wf_descriptor_def]
  have d: "d\<lparr>sd_display_name := n\<rparr> = \<lparr>sd_version = 1, sd_kind = kSelectionKind, sd_server_uri = sd_server_uri d,
      sd_s3_keys = [], sd_topics = [], sd_start_ns = 0, sd_end_ns = 0, sd_include_latched = True,
      sd_selection_id = sd_selection_id d, sd_display_name = n\<rparr>"
    using w True by (cases d) simp
  show ?thesis unfolding d using assms(2) w True kind_lengths
    by (elim disjE) (simp_all add: parse_object_def parse_selection_def field_iffs checkKind_def Let_def
        checkAllowed_iff canonical_fields_def kSelectionFields_def del: checkAllowed.simps)
next
  case False
  note w = assms(1) [unfolded wf_descriptor_def]
  have k: "sd_kind d = kSessionKind" using w False by simp
  have d: "d\<lparr>sd_display_name := n\<rparr> = \<lparr>sd_version = 1, sd_kind = kSessionKind, sd_server_uri = sd_server_uri d,
      sd_s3_keys = sd_s3_keys d, sd_topics = sd_topics d, sd_start_ns = sd_start_ns d,
      sd_end_ns = sd_end_ns d, sd_include_latched = sd_include_latched d,
      sd_selection_id = [], sd_display_name = n\<rparr>"
    using w k by (cases d) simp
  have r: "parseDecimalNs (int_str (sd_start_ns d)) = Some (sd_start_ns d)"
    "parseDecimalNs (int_str (sd_end_ns d)) = Some (sd_end_ns d)"
    "length (int_str (sd_start_ns d)) \<le> kMaxStringBytes" "length (int_str (sd_end_ns d)) \<le> kMaxStringBytes"
    using w False by (auto intro!: parse_ns_int_str int_str_length)
  show ?thesis unfolding d using assms(2) w k r kind_lengths
    by (elim disjE) (simp_all add: parse_object_def parse_session_def field_iffs checkKind_def Let_def
        checkAllowed_iff canonical_fields_def kSessionFields_def del: checkAllowed.simps)
qed

lemma fields_ok:
  assumes "wf_descriptor d"
  shows "json_ok (JObject (canonical_fields d))"
    and "json_ok (JObject ((''display_name'', JString (sd_display_name d)) # canonical_fields d))"
  using assms by (simp_all add: canonical_fields_def wf_descriptor_def list_all_iff less_char_def)

lemma canonical_fields_name: "canonical_fields (d\<lparr>sd_display_name := n\<rparr>) = canonical_fields d"
  by (cases "sd_kind d = kSelectionKind") (simp_all add: canonical_fields_def)

lemma canonical_fields_inject:
  assumes "wf_descriptor d" and "wf_descriptor d'" and "canonical_fields d = canonical_fields d'"
  shows "d\<lparr>sd_display_name := []\<rparr> = d'\<lparr>sd_display_name := []\<rparr>"
  using parse_object_fields [OF assms(1), of "canonical_fields d" "[]"]
    parse_object_fields [OF assms(2), of "canonical_fields d" "[]"] assms(3) by simp

section \<open>Properties\<close>

text \<open>
  C10: An accepted descriptor is within every limit, names a credential-free ws/wss server
  and carries no field outside the allowlist of its kind, so nothing can ride along beside
  the fields that are read.
\<close>

theorem accepted_descriptor:
  assumes "parseSourceDescriptor parse text = Inr d"
  shows "wf_descriptor d \<and> length text \<le> kMaxDescriptorBytes \<and>
         (\<exists>kvs. parse text = Some (JObject kvs) \<and>
            fst ` set kvs \<subseteq> set (if sd_kind d = kSelectionKind then kSelectionFields else kSessionFields))"
proof -
  obtain obj where o: "parse text = Some obj" "is_object obj" "parse_object obj = Inr d" "length text \<le> kMaxDescriptorBytes"
    using assms by (auto simp: parseSourceDescriptor_def split: if_splits option.splits)
  then obtain kvs where "obj = JObject kvs" by (cases obj) auto
  with o parse_object_wf parse_object_allowed show ?thesis by blast
qed

definition demo_descriptor :: SourceDescriptor where
  "demo_descriptor = \<lparr>sd_version = 1, sd_kind = kSessionKind, sd_server_uri = ''ws://h:8080'',
     sd_s3_keys = [''run.mcap''], sd_topics = [], sd_start_ns = 0, sd_end_ns = 10, sd_include_latched = True,
     sd_selection_id = [], sd_display_name = ''Run''\<rparr>"

lemma demo_descriptor_wf: "wf_descriptor demo_descriptor"
  by (simp add: wf_descriptor_def demo_descriptor_def kMaxStringBytes_def kMaxKeys_def kMaxTopics_def
      validateServerUri_def starts_with_def up_to_def)

lemma demo_parsed:
  "\<exists>s. codec_dump (JObject (canonical_fields demo_descriptor)) = Some s \<and> length s \<le> kMaxDescriptorBytes"
  unfolding codec_dump_def by (rule exI, rule conjI, rule refl) code_simp

lemma demo_embedded:
  "\<exists>s. codec_dump (JObject ((''display_name'', JString (sd_display_name demo_descriptor)) #
          canonical_fields demo_descriptor)) = Some s \<and> length s \<le> kMaxDescriptorBytes"
  unfolding codec_dump_def by (rule exI, rule conjI, rule refl) code_simp

theorem accepted_descriptor_witness:
  "\<exists>s d. parseSourceDescriptor codec_parse s = Inr d \<and> wf_descriptor d"
proof -
  obtain s where s: "codec_dump (JObject (canonical_fields demo_descriptor)) = Some s" "length s \<le> kMaxDescriptorBytes"
    using demo_parsed by blast
  have "codec_parse s = Some (JObject (canonical_fields demo_descriptor))"
    by (rule json_parse_dump [OF codec_library fields_ok(1) [OF demo_descriptor_wf] s(1)])
  then have "parseSourceDescriptor codec_parse s = Inr (demo_descriptor\<lparr>sd_display_name := []\<rparr>)"
    using s(2) parse_object_fields [OF demo_descriptor_wf, of "canonical_fields demo_descriptor" "[]"]
    by (simp add: parseSourceDescriptor_def)
  with accepted_descriptor [OF this] show ?thesis by blast
qed



text \<open>
  C29: Identity. Two accepted descriptors have the same canonical text exactly when they
  differ at most in their display name; the identity is the fixed prefix and 32 hexadecimal
  digits of that text's digest.
\<close>

theorem descriptor_identity:
  assumes "json_library parse dump" and "wf_descriptor d" and "wf_descriptor d'"
    and "canonicalSourceDescriptorJson dump d = Some s" and "canonicalSourceDescriptorJson dump d' = Some s'"
  shows "(s = s' \<longleftrightarrow> d\<lparr>sd_display_name := []\<rparr> = d'\<lparr>sd_display_name := []\<rparr>) \<and>
         (\<exists>h. descriptorIdentity dump d = Some (''mcap-cloud:v1:sha256/128:'' @ h) \<and>
              length h = 32 \<and> set h \<subseteq> hex_digits)"
proof -
  have "s = s' \<longleftrightarrow> canonical_fields d = canonical_fields d'"
    using json_dump_inject [OF assms(1) fields_ok(1) [OF assms(2)] fields_ok(1) [OF assms(3)]] assms(4,5)
    by (auto simp: canonicalSourceDescriptorJson_def)
  also have "\<dots> \<longleftrightarrow> d\<lparr>sd_display_name := []\<rparr> = d'\<lparr>sd_display_name := []\<rparr>"
  proof
    assume "d\<lparr>sd_display_name := []\<rparr> = d'\<lparr>sd_display_name := []\<rparr>"
    then have "canonical_fields (d\<lparr>sd_display_name := []\<rparr>) = canonical_fields (d'\<lparr>sd_display_name := []\<rparr>)" by simp
    then show "canonical_fields d = canonical_fields d'" by (simp only: canonical_fields_name)
  qed (rule canonical_fields_inject [OF assms(2,3)])
  finally show ?thesis
    using hex_length [of "str_bytes s" 16] hex_set [of "str_bytes s" 16] assms(4)
    by (simp add: descriptorIdentity_def)
qed

theorem descriptor_identity_witness:
  "\<exists>h. descriptorIdentity codec_dump demo_descriptor = Some (''mcap-cloud:v1:sha256/128:'' @ h) \<and> length h = 32"
proof -
  obtain s where s: "canonicalSourceDescriptorJson codec_dump demo_descriptor = Some s"
    by (simp add: canonicalSourceDescriptorJson_def codec_dump_def)
  from descriptor_identity [OF codec_library demo_descriptor_wf demo_descriptor_wf s s] show ?thesis by blast
qed

end
