(* ===== verification/Query_Lexer.thy ===== *)
theory Query_Lexer
  imports Prelude
begin

text \<open>
  \<open>query/token.h\<close>: the lexer of the metadata query language, and the second tokenizer of
  \<open>query/complete.h\<close>. A lexer state is the offset reached and the rest of the source.
  \<open>strtod\<close> is modelled by the texts it consumes entirely (C locale).
\<close>

section \<open>Numbers\<close>

definition is_hex :: "char \<Rightarrow> bool" where
  "is_hex c \<longleftrightarrow> is_digit c \<or> (97 \<le> char_val (to_lower c) \<and> char_val (to_lower c) \<le> 102)"

text \<open>An optional exponent after a mantissa, introduced by \<open>e\<close> or \<open>p\<close>, up to the end.\<close>

definition exponent_ok :: "char \<Rightarrow> string \<Rightarrow> bool" where
  "exponent_ok mark s =
     (case s of
        [] \<Rightarrow> True
      | c # r \<Rightarrow>
          to_lower c = mark \<and>
          (let d = (case r of x # r' \<Rightarrow> if x = CHR ''+'' \<or> x = CHR ''-'' then r' else r | [] \<Rightarrow> [])
           in d \<noteq> [] \<and> list_all is_digit d))"

definition mantissa_ok :: "(char \<Rightarrow> bool) \<Rightarrow> char \<Rightarrow> string \<Rightarrow> bool" where
  "mantissa_ok digit mark s =
     (let a = takeWhile digit s; r = dropWhile digit s
      in case r of
           c # r' \<Rightarrow>
             if c = CHR ''.''
             then (a \<noteq> [] \<or> takeWhile digit r' \<noteq> []) \<and> exponent_ok mark (dropWhile digit r')
             else a \<noteq> [] \<and> exponent_ok mark r
         | [] \<Rightarrow> a \<noteq> [])"

definition nan_ok :: "string \<Rightarrow> bool" where
  "nan_ok s \<longleftrightarrow>
     s = [] \<or>
     (hd s = CHR ''('' \<and> 1 < length s \<and> last s = CHR '')'' \<and>
      list_all (\<lambda>c. is_alnum c \<or> c = CHR ''_'') (butlast (tl s)))"

definition unsigned_number :: "string \<Rightarrow> bool" where
  "unsigned_number s \<longleftrightarrow>
     (let l = map to_lower s
      in l = ''inf'' \<or> l = ''infinity'' \<or> (take 3 l = ''nan'' \<and> nan_ok (drop 3 s)) \<or>
         (take 2 l = ''0x'' \<and> mantissa_ok is_hex (CHR ''p'') (drop 2 s)) \<or>
         mantissa_ok is_digit (CHR ''e'') s)"

definition strtod_consumes_all :: "string \<Rightarrow> bool" where
  "strtod_consumes_all s =
     (let t = dropWhile is_space s
      in case t of
           c # r \<Rightarrow> if c = CHR ''+'' \<or> c = CHR ''-'' then unsigned_number r else unsigned_number t
         | [] \<Rightarrow> False)"

section \<open>Tokens\<close>

datatype TokenType = TKey | TOperator | TValue | TAnd | TOr | TNot | TOpenParen | TCloseParen

record Token =
  ttype :: TokenType
  ttext :: string
  tstart :: nat
  tend :: nat

abbreviation tok :: "TokenType \<Rightarrow> string \<Rightarrow> nat \<Rightarrow> nat \<Rightarrow> Token" where
  "tok t s a b \<equiv> \<lparr>ttype = t, ttext = s, tstart = a, tend = b\<rparr>"

definition is_punct :: "char \<Rightarrow> bool" where
  "is_punct c \<longleftrightarrow>
     c = CHR ''('' \<or> c = CHR '')'' \<or> c = CHR ''='' \<or> c = CHR ''~'' \<or> c = CHR ''<'' \<or> c = CHR ''>'' \<or>
     c = CHR 0x22 \<or> c = CHR 0x27"

definition is_quote :: "char \<Rightarrow> bool" where
  "is_quote c \<longleftrightarrow> c = CHR 0x22 \<or> c = CHR 0x27"

definition two_char_op :: "string \<Rightarrow> bool" where
  "two_char_op s \<longleftrightarrow> s = ''=='' \<or> s = ''~='' \<or> s = ''<='' \<or> s = ''>=''"

definition classify_word :: "string \<Rightarrow> TokenType" where
  "classify_word word =
     (if word = ''and'' then TAnd
      else if word = ''or'' then TOr
      else if word = ''not'' then TNot
      else if strtod_consumes_all word then TValue
      else TKey)"

text \<open>Characters of a quoted string after its opening quote, the closing quote included.\<close>

fun scan_quote :: "char \<Rightarrow> string \<Rightarrow> nat" where
  "scan_quote q [] = 0"
| "scan_quote q [c] = 1"
| "scan_quote q (c # d # cs) =
     (if c = q then 1
      else if c = CHR 0x5C then 2 + scan_quote q cs
      else 1 + scan_quote q (d # cs))"

abbreviation word_char :: "char \<Rightarrow> bool" where
  "word_char c \<equiv> \<not> is_space c \<and> \<not> is_punct c"

function lex :: "nat \<Rightarrow> string \<Rightarrow> Token list" where
  "lex i [] = []"
| "lex i (c # cs) =
     (if is_space c then lex (i + 1) cs
      else if two_char_op (take 2 (c # cs))
        then tok TOperator (take 2 (c # cs)) i (i + 2) # lex (i + 2) (drop 1 cs)
      else if c = CHR ''<'' \<or> c = CHR ''>'' then tok TOperator [c] i (i + 1) # lex (i + 1) cs
      else if c = CHR ''('' then tok TOpenParen ''('' i (i + 1) # lex (i + 1) cs
      else if c = CHR '')'' then tok TCloseParen '')'' i (i + 1) # lex (i + 1) cs
      else if is_quote c then
        (let n = 1 + scan_quote c cs
         in tok TValue (take n (c # cs)) i (i + n) # lex (i + n) (drop (scan_quote c cs) cs))
      else if c = CHR ''='' \<or> c = CHR ''~'' then tok TOperator [c] i (i + 1) # lex (i + 1) cs
      else
        (let word = takeWhile word_char (c # cs); n = length word
         in if 0 < n then tok (classify_word word) word i (i + n) # lex (i + n) (drop (n - 1) cs)
            else lex (i + 1) cs))"
  by pat_completeness auto
termination
  by (relation "measure (length \<circ> snd)") (auto simp: Let_def)

declare lex.simps(2) [simp del]

definition Lexer_tokenize :: "string \<Rightarrow> Token list" where
  "Lexer_tokenize src = lex 0 src"

section \<open>The tokenizer of the completion engine\<close>

text \<open>
  The quoted-string loop skips the character after a backslash without looking whether there
  is one; the \<open>substr\<close> that follows is cut at the end of the text.
\<close>

fun scan_quote2 :: "char \<Rightarrow> string \<Rightarrow> nat" where
  "scan_quote2 q [] = 0"
| "scan_quote2 q [c] = (if c = q then 1 else if c = CHR 0x5C then 2 else 1)"
| "scan_quote2 q (c # d # cs) =
     (if c = q then 1
      else if c = CHR 0x5C then 2 + scan_quote2 q cs
      else 1 + scan_quote2 q (d # cs))"

function tokenize :: "string \<Rightarrow> string list" where
  "tokenize [] = []"
| "tokenize (c # cs) =
     (if is_space c then tokenize cs
      else if two_char_op (take 2 (c # cs)) then take 2 (c # cs) # tokenize (drop 1 cs)
      else if c = CHR ''<'' \<or> c = CHR ''>'' \<or> c = CHR ''('' \<or> c = CHR '')'' then [c] # tokenize cs
      else if is_quote c then
        take (1 + scan_quote2 c cs) (c # cs) # tokenize (drop (scan_quote2 c cs) cs)
      else if c = CHR ''='' \<or> c = CHR ''~'' then [c] # tokenize cs
      else
        (let word = takeWhile word_char (c # cs); n = length word
         in if 0 < n then word # tokenize (drop (n - 1) cs) else tokenize cs))"
  by pat_completeness auto
termination
  by (relation "measure length") (auto simp: Let_def)

declare tokenize.simps(2) [simp del]

section \<open>Lemmas\<close>

text \<open>What is not white space, an operator, a parenthesis or a quote starts a word.\<close>

lemma word_start:
  assumes "\<not> is_space c" "c \<noteq> CHR ''<''" "c \<noteq> CHR ''>''" "c \<noteq> CHR ''(''" "c \<noteq> CHR '')''"
    "\<not> is_quote c" "c \<noteq> CHR ''=''" "c \<noteq> CHR ''~''"
  shows "takeWhile word_char (c # cs) = c # takeWhile word_char cs"
  using assms by (simp add: is_punct_def is_quote_def)

lemma scan_quote_le: "scan_quote q s \<le> length s"
  by (induction q s rule: scan_quote.induct) auto

text \<open>
  One step of the lexer: it drops a blank, or cuts off a non-empty piece as a token; the
  branch for unrecognised characters is never taken.
\<close>

lemma lex_space: "is_space c \<Longrightarrow> lex i (c # cs) = lex (i + 1) cs"
  by (simp add: lex.simps)

lemma punct_not_space: "is_punct c \<Longrightarrow> \<not> is_space c"
  by (auto simp: is_punct_def is_space_def char_val_def)

lemma lex_two:
  "two_char_op (take 2 (c # cs)) \<Longrightarrow>
   \<not> is_space c \<and> 2 \<le> Suc (length cs) \<and>
   lex i (c # cs) = tok TOperator (take 2 (c # cs)) i (i + 2) # lex (i + 2) (drop 2 (c # cs))"
proof -
  assume t: "two_char_op (take 2 (c # cs))"
  then obtain d ds where cs: "cs = d # ds" by (cases cs) (auto simp: two_char_op_def)
  have "\<not> is_space c" using t by (auto simp: two_char_op_def cs is_space_def char_val_def)
  with t show ?thesis by (simp add: lex.simps(2) cs)
qed

lemma lex_single:
  assumes "\<not> two_char_op (take 2 (c # cs))"
    and "c \<in> {CHR ''<'', CHR ''>'', CHR ''('', CHR '')'', CHR ''='', CHR ''~''}"
  shows "\<exists>t. lex i (c # cs) = tok t [c] i (i + 1) # lex (i + 1) cs"
proof -
  have "is_punct c" using assms(2) by (auto simp: is_punct_def)
  then have "\<not> is_space c" by (rule punct_not_space)
  moreover have "\<not> is_quote c" using assms(2) by (auto simp: is_quote_def)
  ultimately show ?thesis
    using assms(1) assms(2) [simplified] by (elim disjE) (simp_all add: lex.simps(2))
qed

lemma lex_quote:
  assumes "is_quote c"
  shows "lex i (c # cs) = tok TValue (take (1 + scan_quote c cs) (c # cs)) i (i + (1 + scan_quote c cs)) #
           lex (i + (1 + scan_quote c cs)) (drop (1 + scan_quote c cs) (c # cs))"
proof -
  have "\<not> two_char_op (take 2 (c # cs))" using assms by (auto simp: is_quote_def two_char_op_def)
  moreover have "c \<notin> {CHR ''<'', CHR ''>'', CHR ''('', CHR '')''}" using assms by (auto simp: is_quote_def)
  moreover have "\<not> is_space c" using assms by (auto simp: is_quote_def is_space_def char_val_def)
  ultimately show ?thesis using assms by (simp add: lex.simps(2) Let_def)
qed

lemma lex_word:
  fixes cs :: string
  assumes "word_char c"
  defines "w \<equiv> takeWhile word_char (c # cs)"
  shows "lex i (c # cs) = tok (classify_word w) w i (i + length w) # lex (i + length w) (drop (length w) (c # cs))"
proof -
  have "c \<notin> {CHR ''<'', CHR ''>'', CHR ''('', CHR '')'', CHR ''='', CHR ''~''}" "\<not> is_quote c"
    "\<not> two_char_op (take 2 (c # cs))"
    using assms(1) by (auto simp: is_punct_def is_quote_def two_char_op_def)
  with assms(1) show ?thesis by (simp add: lex.simps(2) w_def Let_def)
qed

lemma char_class:
  "is_space c \<or> c \<in> {CHR ''<'', CHR ''>'', CHR ''('', CHR '')'', CHR ''='', CHR ''~''} \<or> is_quote c \<or> word_char c"
  by (auto simp: is_punct_def is_quote_def)

lemma lex_step:
  assumes "\<not> is_space c"
  shows "\<exists>t n. 0 < n \<and> n \<le> Suc (length cs) \<and>
           lex i (c # cs) = tok t (take n (c # cs)) i (i + n) # lex (i + n) (drop n (c # cs))"
proof -
  consider "two_char_op (take 2 (c # cs))"
    | "\<not> two_char_op (take 2 (c # cs))" "c \<in> {CHR ''<'', CHR ''>'', CHR ''('', CHR '')'', CHR ''='', CHR ''~''}"
    | "is_quote c" | "word_char c"
    using char_class [of c] assms by blast
  then show ?thesis
  proof cases
    case 1
    show ?thesis by (intro exI [of _ TOperator] exI [of _ 2]) (use lex_two [OF 1, of i] in simp)
  next
    case 2
    from lex_single [OF 2, of i] obtain t where
      "lex i (c # cs) = tok t [c] i (i + 1) # lex (i + 1) cs" by blast
    then show ?thesis by (intro exI [of _ t] exI [of _ 1]) simp
  next
    case 3
    show ?thesis
      by (intro exI [of _ TValue] exI [of _ "1 + scan_quote c cs"])
        (use lex_quote [OF 3, of i cs] scan_quote_le [of c cs] in simp)
  next
    case 4
    let ?w = "takeWhile word_char (c # cs)"
    have "?w = take (length ?w) (c # cs)" by (metis takeWhile_eq_take)
    moreover have "0 < length ?w" using 4 by simp
    moreover have "length ?w \<le> Suc (length cs)" using length_takeWhile_le [of word_char "c # cs"] by simp
    ultimately show ?thesis
      using lex_word [OF 4, of i cs] by (intro exI [of _ "classify_word ?w"] exI [of _ "length ?w"]) (metis)
  qed
qed

text \<open>Induction along the lexer.\<close>

lemma lex_induct [case_names Nil space token]:
  assumes "\<And>i. P i []"
    and "\<And>i c cs. is_space c \<Longrightarrow> lex i (c # cs) = lex (i + 1) cs \<Longrightarrow> P (i + 1) cs \<Longrightarrow> P i (c # cs)"
    and "\<And>i n t s. 0 < n \<Longrightarrow> n \<le> length s \<Longrightarrow> \<not> is_space (hd s) \<Longrightarrow>
           lex i s = tok t (take n s) i (i + n) # lex (i + n) (drop n s) \<Longrightarrow> P (i + n) (drop n s) \<Longrightarrow> P i s"
  shows "P i s"
proof (induction s arbitrary: i rule: length_induct)
  case (1 s)
  show ?case
  proof (cases s)
    case Nil
    then show ?thesis by (simp add: assms(1))
  next
    case (Cons c cs)
    show ?thesis
    proof (cases "is_space c")
      case True
      with 1 assms(2) show ?thesis by (simp add: Cons lex_space)
    next
      case False
      then obtain t n where n: "0 < n" "n \<le> Suc (length cs)"
        "lex i (c # cs) = tok t (take n (c # cs)) i (i + n) # lex (i + n) (drop n (c # cs))"
        using lex_step by blast
      have "P (i + n) (drop n s)" using 1 n(1) by (simp add: Cons)
      then show ?thesis using assms(3) [of n s i t] n False by (simp add: Cons)
    qed
  qed
qed

text \<open>A token lies in the source it was cut from, at its offsets.\<close>

definition placed :: "nat \<Rightarrow> string \<Rightarrow> Token \<Rightarrow> bool" where
  "placed i s t \<longleftrightarrow> i \<le> tstart t \<and> tstart t < tend t \<and> tend t \<le> i + length s \<and>
     ttext t = take (tend t - tstart t) (drop (tstart t - i) s)"

lemma placed_drop: "n \<le> length s \<Longrightarrow> placed (i + n) (drop n s) t \<Longrightarrow> placed i s t"
  by (auto simp: placed_def)

lemma lex_placed: "\<forall>t \<in> set (lex i s). placed i s t"
proof (induction i s rule: lex_induct)
  case (space i c cs)
  then show ?case using placed_drop [of 1 "c # cs" i] by auto
next
  case (token i n t s)
  then have "\<forall>t \<in> set (lex (i + n) (drop n s)). placed i s t" using placed_drop by blast
  with token show ?case by (simp add: placed_def)
qed simp

lemma lex_sorted: "sorted_wrt (\<lambda>t u. tend t \<le> tstart u) (lex i s)"
proof (induction i s rule: lex_induct)
  case (token i n t s)
  then show ?case using lex_placed [of "i + n" "drop n s"] by (simp add: placed_def)
qed simp_all

lemma lex_covers:
  "j < length s \<Longrightarrow> (\<exists>t \<in> set (lex i s). tstart t \<le> i + j \<and> i + j < tend t) \<or> is_space (s ! j)"
proof (induction i s arbitrary: j rule: lex_induct)
  case (space i c cs)
  then show ?case by (cases j) auto
next
  case (token i n t s)
  show ?case
  proof (cases "j < n")
    case True
    then show ?thesis using token by auto
  next
    case False
    then have "i + n + (j - n) = i + j" "drop n s ! (j - n) = s ! j" "j - n < length (drop n s)"
      using token by simp_all
    with token(5) [of "j - n"] token(4) show ?thesis by auto
  qed
qed simp

text \<open>The two tokenizers cut the text into the same pieces.\<close>

lemma scan_quotes:
  "take (scan_quote2 q s) s = take (scan_quote q s) s \<and> drop (scan_quote2 q s) s = drop (scan_quote q s) s"
  by (induction q s rule: scan_quote.induct) auto

lemma tokenize_lex: "tokenize s = map ttext (lex i s)"
proof (induction s arbitrary: i rule: tokenize.induct)
  case (2 c cs)
  note sq = scan_quotes [of c cs]
  have q: "take (Suc (scan_quote2 c cs)) (c # cs) = take (Suc (scan_quote c cs)) (c # cs)" using sq by simp
  show ?case
    using 2 sq q by (auto simp: tokenize.simps(2) lex.simps(2) Let_def)
qed simp

section \<open>Properties\<close>

text \<open>
  The lexer loses nothing. Its tokens are non-empty pieces of the source at the offsets
  they carry, in order and without overlap, and every character outside them is white space.
\<close>

theorem lexer_lossless:
  "(\<forall>t \<in> set (Lexer_tokenize src). tstart t < tend t \<and> tend t \<le> length src \<and>
      ttext t = take (tend t - tstart t) (drop (tstart t) src)) \<and>
   sorted_wrt (\<lambda>t u. tend t \<le> tstart u) (Lexer_tokenize src) \<and>
   (\<forall>j < length src. (\<exists>t \<in> set (Lexer_tokenize src). tstart t \<le> j \<and> j < tend t) \<or> is_space (src ! j))"
  using lex_placed [of 0 src] lex_sorted [of 0 src] lex_covers [of _ src 0]
  by (auto simp: Lexer_tokenize_def placed_def)

theorem lexer_lossless_witness:
  "\<exists>t \<in> set (Lexer_tokenize ''a == 1''). tstart t \<le> 2 \<and> 2 < tend t"
proof -
  have "\<not> is_space (''a == 1'' ! 2)" by (simp add: is_space_def char_val_def)
  moreover have "(2::nat) < length ''a == 1''" by simp
  ultimately show ?thesis using lexer_lossless [of "''a == 1''"] by blast
qed

text \<open>
  The tokenizer of the completion engine and the lexer cut every text into the same
  pieces, although one looks past a trailing backslash and the other does not.
\<close>

theorem tokenizers_agree: "tokenize src = map ttext (Lexer_tokenize src)"
  unfolding Lexer_tokenize_def by (rule tokenize_lex)

end
