(* ===== verification/Query_Parser.thy ===== *)
theory Query_Parser
  imports Query_Lexer
begin

text \<open>
  \<open>query/ast.h\<close>: the recursive-descent parser of the query language and its serialiser.
  The parser's members are the remaining tokens and the last key and operator seen (for the
  shorthand \<open>key op v1 or v2\<close>). The methods call each other, so each takes fuel and
  returns \<^const>\<open>None\<close> when it runs out; the parser starts with enough for every input.
\<close>

section \<open>Definitions\<close>

datatype 't expr =
    Compare 't 't 't
  | Binary "'t expr" 't "'t expr"
  | NotE 't "'t expr"
  | Group 't "'t expr option" 't
  | KeyE 't
  | Partial 't 't

type_synonym Expr = "Token expr"

fun expr_start :: "Expr \<Rightarrow> nat" where
  "expr_start (Compare k op v) = tstart k"
| "expr_start (Binary l c r) = expr_start l"
| "expr_start (NotE n e) = tstart n"
| "expr_start (Group a e b) = tstart a"
| "expr_start (KeyE k) = tstart k"
| "expr_start (Partial k op) = tstart k"

fun expr_end :: "Expr \<Rightarrow> nat" where
  "expr_end (Compare k op v) = tend v"
| "expr_end (Binary l c r) = expr_end r"
| "expr_end (NotE n e) = expr_end e"
| "expr_end (Group a e b) = tend b"
| "expr_end (KeyE k) = tend k"
| "expr_end (Partial k op) = tend op"

record pstate =
  toks :: "Token list"
  last_key :: Token
  last_op :: Token

definition no_token :: Token where
  "no_token = tok TKey [] 0 0"

abbreviation at_type :: "pstate \<Rightarrow> TokenType \<Rightarrow> bool" where
  "at_type s t \<equiv> toks s \<noteq> [] \<and> ttype (hd (toks s)) = t"

abbreviation advance :: "pstate \<Rightarrow> pstate" where
  "advance s \<equiv> s\<lparr>toks := tl (toks s)\<rparr>"

type_synonym presult = "(Expr option \<times> pstate) option"

text \<open>A primary that starts with a key.\<close>

definition parse_clause :: "pstate \<Rightarrow> Expr option \<times> pstate" where
  "parse_clause s =
     (let key = hd (toks s); s = advance s
      in if at_type s TOperator then
           (let op = hd (toks s); s = advance s
            in if at_type s TValue then
                 (let val = hd (toks s); s = advance s
                  in (Some (Compare key op val), s\<lparr>last_key := key, last_op := op\<rparr>))
               else (Some (Partial key op), s\<lparr>last_key := key, last_op := op\<rparr>))
         else (Some (KeyE key), s))"

fun parse_or :: "nat \<Rightarrow> pstate \<Rightarrow> presult"
  and or_loop :: "nat \<Rightarrow> Expr \<Rightarrow> pstate \<Rightarrow> presult"
  and parse_and :: "nat \<Rightarrow> pstate \<Rightarrow> presult"
  and and_loop :: "nat \<Rightarrow> Expr \<Rightarrow> pstate \<Rightarrow> presult"
  and parse_unary :: "nat \<Rightarrow> pstate \<Rightarrow> presult"
  and parse_primary :: "nat \<Rightarrow> pstate \<Rightarrow> presult" where
  "parse_or 0 s = None"
| "parse_or (Suc n) s =
     (case parse_and n s of
        None \<Rightarrow> None
      | Some (None, s) \<Rightarrow> Some (None, s)
      | Some (Some left, s) \<Rightarrow> or_loop n left s)"
| "or_loop 0 left s = None"
| "or_loop (Suc n) left s =
     (if at_type s TOr then
        (let conn = hd (toks s)
         in case parse_and n (advance s) of
              None \<Rightarrow> None
            | Some (None, s) \<Rightarrow> Some (Some left, s)
            | Some (Some right, s) \<Rightarrow> or_loop n (Binary left conn right) s)
      else Some (Some left, s))"
| "parse_and 0 s = None"
| "parse_and (Suc n) s =
     (case parse_unary n s of
        None \<Rightarrow> None
      | Some (None, s) \<Rightarrow> Some (None, s)
      | Some (Some left, s) \<Rightarrow> and_loop n left s)"
| "and_loop 0 left s = None"
| "and_loop (Suc n) left s =
     (if at_type s TAnd then
        (let conn = hd (toks s)
         in case parse_unary n (advance s) of
              None \<Rightarrow> None
            | Some (None, s) \<Rightarrow> Some (Some left, s)
            | Some (Some right, s) \<Rightarrow> and_loop n (Binary left conn right) s)
      else Some (Some left, s))"
| "parse_unary 0 s = None"
| "parse_unary (Suc n) s =
     (if at_type s TNot then
        (let not_tok = hd (toks s)
         in case parse_unary n (advance s) of
              None \<Rightarrow> None
            | Some (None, s) \<Rightarrow> Some (None, s)
            | Some (Some operand, s) \<Rightarrow> Some (Some (NotE not_tok operand), s))
      else parse_primary n s)"
| "parse_primary 0 s = None"
| "parse_primary (Suc n) s =
     (if toks s = [] then Some (None, s)
      else if at_type s TOpenParen then
        (let open = hd (toks s)
         in case parse_or n (advance s) of
              None \<Rightarrow> None
            | Some (inner, s) \<Rightarrow>
                if at_type s TCloseParen
                then Some (Some (Group open inner (hd (toks s))), advance s)
                else Some (inner, s))
      else if at_type s TValue \<and> ttext (last_key s) \<noteq> [] then
        Some (Some (Compare (last_key s) (last_op s) (hd (toks s))), advance s)
      else if at_type s TKey then Some (parse_clause s)
      else Some (None, advance s))"

fun check_complete :: "'t expr \<Rightarrow> bool" where
  "check_complete (Compare _ _ _) = True"
| "check_complete (Binary l _ r) = (check_complete l \<and> check_complete r)"
| "check_complete (NotE _ e) = check_complete e"
| "check_complete (Group _ e _) = (case e of None \<Rightarrow> False | Some e \<Rightarrow> check_complete e)"
| "check_complete (KeyE _) = False"
| "check_complete (Partial _ _) = False"

record ParseResult =
  pr_ast :: "Expr option"
  pr_complete :: bool
  pr_error :: string

definition start_state :: "Token list \<Rightarrow> pstate" where
  "start_state ts = \<lparr>toks = ts, last_key = no_token, last_op = no_token\<rparr>"

definition parse_fuel :: "Token list \<Rightarrow> nat" where
  "parse_fuel ts = 5 * length ts + 5"

definition parse_query :: "Token list \<Rightarrow> ParseResult option" where
  "parse_query ts =
     (if ts = [] then Some \<lparr>pr_ast = None, pr_complete = False, pr_error = ''empty''\<rparr>
      else map_option
        (\<lambda>(e, s).
           let leftover = toks s \<noteq> [];
               all_complete = (case e of None \<Rightarrow> False | Some e \<Rightarrow> check_complete e)
           in \<lparr>pr_ast = e, pr_complete = (all_complete \<and> \<not> leftover),
               pr_error = (if leftover then ''unexpected tokens'' else [])\<rparr>)
        (parse_or (parse_fuel ts) (start_state ts)))"

fun serialize :: "Expr \<Rightarrow> string" where
  "serialize (Compare k op v) = ttext k @ '' '' @ ttext op @ '' '' @ ttext v"
| "serialize (Binary l c r) = serialize l @ '' '' @ ttext c @ '' '' @ serialize r"
| "serialize (NotE n e) = ''not '' @ serialize e"
| "serialize (Group a e b) = ''('' @ (case e of None \<Rightarrow> [] | Some e \<Rightarrow> serialize e) @ '')''"
| "serialize (KeyE k) = ttext k"
| "serialize (Partial k op) = ttext k @ '' '' @ ttext op"

section \<open>Termination: the fuel is enough\<close>

text \<open>
  Every method that returns an expression has consumed a token, and none gives tokens back.
\<close>

definition consumes :: "pstate \<Rightarrow> presult \<Rightarrow> bool" where
  "consumes s r \<longleftrightarrow>
     (\<forall>e s'. r = Some (e, s') \<longrightarrow>
        length (toks s') \<le> length (toks s) \<and> (e \<noteq> None \<longrightarrow> length (toks s') < length (toks s)))"

definition keeps :: "pstate \<Rightarrow> presult \<Rightarrow> bool" where
  "keeps s r \<longleftrightarrow> (\<forall>e s'. r = Some (e, s') \<longrightarrow> length (toks s') \<le> length (toks s))"

lemma clause_consumes:
  "toks s \<noteq> [] \<Longrightarrow> length (toks (snd (parse_clause s))) < length (toks s)"
  by (cases "toks s") (auto simp: parse_clause_def Let_def)

lemma parser_consumes:
  "consumes s (parse_or n s)" "keeps s (or_loop n l s)" "consumes s (parse_and n s)"
  "keeps s (and_loop n l s)" "consumes s (parse_unary n s)" "consumes s (parse_primary n s)"
proof (induction n s and n l s and n s and n l s and n s and n s
    rule: parse_or_or_loop_parse_and_and_loop_parse_unary_parse_primary.induct)
  case (12 n s)
  then show ?case using clause_consumes [of s]
    by (fastforce simp: consumes_def keeps_def Let_def split: option.splits prod.splits if_splits)
qed (fastforce simp: consumes_def keeps_def Let_def split: option.splits prod.splits if_splits)+

lemma consumesD:
  "consumes s (Some (e, s')) \<Longrightarrow> length (toks s') \<le> length (toks s)"
  "consumes s (Some (Some e', s')) \<Longrightarrow> length (toks s') < length (toks s)"
  by (auto simp: consumes_def)

lemma advance_length: "toks s \<noteq> [] \<Longrightarrow> length (toks (advance s)) = length (toks s) - 1"
  by simp

lemma fuel_enough:
  "5 * length (toks s) + 4 \<le> n \<Longrightarrow> parse_or n s \<noteq> None"
  "5 * length (toks s) + 1 \<le> n \<Longrightarrow> or_loop n l s \<noteq> None"
  "5 * length (toks s) + 3 \<le> n \<Longrightarrow> parse_and n s \<noteq> None"
  "5 * length (toks s) + 1 \<le> n \<Longrightarrow> and_loop n l s \<noteq> None"
  "5 * length (toks s) + 2 \<le> n \<Longrightarrow> parse_unary n s \<noteq> None"
  "5 * length (toks s) + 1 \<le> n \<Longrightarrow> parse_primary n s \<noteq> None"
proof (induction n s and n l s and n s and n l s and n s and n s
    rule: parse_or_or_loop_parse_and_and_loop_parse_unary_parse_primary.induct)
  case (2 n s)
  have "parse_and n s \<noteq> None" using 2 by simp
  moreover have "or_loop n e s' \<noteq> None" if "parse_and n s = Some (Some e, s')" for e s'
  proof -
    have "length (toks s') < length (toks s)" using parser_consumes(3) [of s n] that consumesD(2) by metis
    then show ?thesis using 2 that by force
  qed
  ultimately show ?case by (auto split: option.split)
next
  case (4 n l s)
  show ?case
  proof (cases "at_type s TOr")
    case True
    then obtain m where len: "length (toks s) = Suc m" by (cases "toks s") auto
    have "parse_and n (advance s) \<noteq> None" using 4 True by (simp add: len)
    moreover have "or_loop n (Binary l (hd (toks s)) e) s' \<noteq> None" if "parse_and n (advance s) = Some (Some e, s')" for e s'
    proof -
      have "length (toks s') < length (toks (advance s))"
        using parser_consumes(3) [of "advance s" n] that consumesD(2) by metis
      then show ?thesis using 4 that True by force
    qed
    ultimately show ?thesis using True by (auto simp: Let_def split: option.split)
  qed auto
next
  case (6 n s)
  have "parse_unary n s \<noteq> None" using 6 by simp
  moreover have "and_loop n e s' \<noteq> None" if "parse_unary n s = Some (Some e, s')" for e s'
  proof -
    have "length (toks s') < length (toks s)" using parser_consumes(5) [of s n] that consumesD(2) by metis
    then show ?thesis using 6 that by force
  qed
  ultimately show ?case by (auto split: option.split)
next
  case (8 n l s)
  show ?case
  proof (cases "at_type s TAnd")
    case True
    then obtain m where len: "length (toks s) = Suc m" by (cases "toks s") auto
    have "parse_unary n (advance s) \<noteq> None" using 8 True by (simp add: len)
    moreover have "and_loop n (Binary l (hd (toks s)) e) s' \<noteq> None" if "parse_unary n (advance s) = Some (Some e, s')" for e s'
    proof -
      have "length (toks s') < length (toks (advance s))"
        using parser_consumes(5) [of "advance s" n] that consumesD(2) by metis
      then show ?thesis using 8 that True by force
    qed
    ultimately show ?thesis using True by (auto simp: Let_def split: option.split)
  qed auto
next
  case (10 n s)
  show ?case
  proof (cases "at_type s TNot")
    case True
    then obtain m where len: "length (toks s) = Suc m" by (cases "toks s") auto
    have "parse_unary n (advance s) \<noteq> None" using 10 True by (simp add: len)
    then show ?thesis using True by (auto simp: Let_def split: option.split)
  next
    case False
    then have "parse_primary n s \<noteq> None" using 10 by simp
    then show ?thesis using False by auto
  qed
next
  case (12 n s)
  show ?case
  proof (cases "at_type s TOpenParen")
    case True
    then obtain m where len: "length (toks s) = Suc m" by (cases "toks s") auto
    have "parse_or n (advance s) \<noteq> None" using 12 True by (simp add: len)
    then show ?thesis using True by (auto simp: Let_def split: option.split)
  qed auto
qed simp_all

text \<open>The parser returns on every token list.\<close>

lemma parse_total: "\<exists>r. parse_query ts = Some r"
proof -
  have "parse_or (parse_fuel ts) (start_state ts) \<noteq> None"
    by (rule fuel_enough) (simp add: parse_fuel_def start_state_def)
  then show ?thesis by (auto simp: parse_query_def)
qed

end
