(* ===== verification/Query_Roundtrip.thy ===== *)
theory Query_Roundtrip
  imports Query_Parser
begin

text \<open>
  The round trip of the query language: the text that \<open>serialize\<close> hands to the engine
  is read back, by the lexer and the parser, as the same tree. Trees are compared up to the
  offsets of their tokens.
\<close>

section \<open>More fuel never changes a result\<close>

lemma fuel_step:
  "parse_or n s = Some x \<Longrightarrow> parse_or (Suc n) s = Some x"
  "or_loop n l s = Some x \<Longrightarrow> or_loop (Suc n) l s = Some x"
  "parse_and n s = Some x \<Longrightarrow> parse_and (Suc n) s = Some x"
  "and_loop n l s = Some x \<Longrightarrow> and_loop (Suc n) l s = Some x"
  "parse_unary n s = Some x \<Longrightarrow> parse_unary (Suc n) s = Some x"
  "parse_primary n s = Some x \<Longrightarrow> parse_primary (Suc n) s = Some x"
proof (induction n s and n l s and n s and n l s and n s and n s arbitrary: x and x and x and x and x and x
    rule: parse_or_or_loop_parse_and_and_loop_parse_unary_parse_primary.induct)
  case (2 n s)
  from "2.prems" obtain eo s' where r: "parse_and n s = Some (eo, s')" by (auto split: option.splits)
  then have "parse_and (Suc n) s = Some (eo, s')" using 2 by blast
  with 2 r show ?case by (cases eo) (auto simp del: parse_and.simps or_loop.simps simp: parse_or.simps)
next
  case (4 n l s)
  show ?case
  proof (cases "at_type s TOr")
    case True
    with "4.prems" obtain eo s' where r: "parse_and n (advance s) = Some (eo, s')"
      by (auto simp: Let_def split: option.splits)
    then have "parse_and (Suc n) (advance s) = Some (eo, s')" using 4 True by blast
    with 4 r True show ?thesis
      by (cases eo) (auto simp del: parse_and.simps or_loop.simps simp: or_loop.simps(2) [of n] or_loop.simps(2) [of "Suc n"])
  next
    case False
    then show ?thesis using 4 by auto
  qed
next
  case (6 n s)
  from "6.prems" obtain eo s' where r: "parse_unary n s = Some (eo, s')" by (auto split: option.splits)
  then have "parse_unary (Suc n) s = Some (eo, s')" using 6 by blast
  with 6 r show ?case by (cases eo) (auto simp del: parse_unary.simps and_loop.simps simp: parse_and.simps)
next
  case (8 n l s)
  show ?case
  proof (cases "at_type s TAnd")
    case True
    with "8.prems" obtain eo s' where r: "parse_unary n (advance s) = Some (eo, s')"
      by (auto simp: Let_def split: option.splits)
    then have "parse_unary (Suc n) (advance s) = Some (eo, s')" using 8 True by blast
    with 8 r True show ?thesis
      by (cases eo) (auto simp del: parse_unary.simps and_loop.simps simp: and_loop.simps(2) [of n] and_loop.simps(2) [of "Suc n"])
  next
    case False
    then show ?thesis using 8 by auto
  qed
next
  case (10 n s)
  show ?case
  proof (cases "at_type s TNot")
    case True
    with "10.prems" obtain eo s' where r: "parse_unary n (advance s) = Some (eo, s')"
      by (auto simp: Let_def split: option.splits)
    then have "parse_unary (Suc n) (advance s) = Some (eo, s')" using 10 True by blast
    with 10 r True show ?thesis
      by (cases eo) (auto simp del: parse_unary.simps simp: parse_unary.simps(2) [of n] parse_unary.simps(2) [of "Suc n"])
  next
    case False
    with "10.prems" have "parse_primary n s = Some x" by (auto simp del: parse_primary.simps)
    then have "parse_primary (Suc n) s = Some x" using 10 False by blast
    moreover have "parse_unary (Suc (Suc n)) s = parse_primary (Suc n) s"
      using False by (auto simp del: parse_primary.simps)
    ultimately show ?thesis by simp
  qed
next
  case (12 n s)
  show ?case
  proof (cases "at_type s TOpenParen")
    case True
    with "12.prems" obtain eo s' where r: "parse_or n (advance s) = Some (eo, s')"
      by (auto simp: Let_def split: option.splits)
    then have "parse_or (Suc n) (advance s) = Some (eo, s')" using 12 True by blast
    with 12 r True show ?thesis
      by (auto simp del: parse_or.simps parse_primary.simps simp: parse_primary.simps(2) [of n] parse_primary.simps(2) [of "Suc n"])
  next
    case False
    then show ?thesis using 12 by (auto split: if_splits)
  qed
qed simp_all

lemma more_fuel:
  assumes "\<And>n. f n = Some x \<Longrightarrow> f (Suc n) = Some x" and "f n = Some x" and "n \<le> m"
  shows "f m = Some x"
  using assms(3) by (induction m rule: dec_induct) (auto intro: assms(1,2))

lemma fuel_mono:
  "parse_or n s = Some x \<Longrightarrow> n \<le> m \<Longrightarrow> parse_or m s = Some x"
  "or_loop n l s = Some x \<Longrightarrow> n \<le> m \<Longrightarrow> or_loop m l s = Some x"
  "parse_and n s = Some x \<Longrightarrow> n \<le> m \<Longrightarrow> parse_and m s = Some x"
  "and_loop n l s = Some x \<Longrightarrow> n \<le> m \<Longrightarrow> and_loop m l s = Some x"
  "parse_unary n s = Some x \<Longrightarrow> n \<le> m \<Longrightarrow> parse_unary m s = Some x"
  "parse_primary n s = Some x \<Longrightarrow> n \<le> m \<Longrightarrow> parse_primary m s = Some x"
  by (rule more_fuel [of "\<lambda>n. parse_or n s"], erule fuel_step, assumption+)
    (rule more_fuel [of "\<lambda>n. or_loop n l s"], erule fuel_step, assumption+,
     rule more_fuel [of "\<lambda>n. parse_and n s"], erule fuel_step, assumption+,
     rule more_fuel [of "\<lambda>n. and_loop n l s"], erule fuel_step, assumption+,
     rule more_fuel [of "\<lambda>n. parse_unary n s"], erule fuel_step, assumption+,
     rule more_fuel [of "\<lambda>n. parse_primary n s"], erule fuel_step, assumption+)

section \<open>Big-step reading of the parser\<close>

definition POr :: "pstate \<Rightarrow> Expr option \<times> pstate \<Rightarrow> bool" where
  "POr s x \<longleftrightarrow> (\<exists>n. parse_or n s = Some x)"

definition OrLoop :: "Expr \<Rightarrow> pstate \<Rightarrow> Expr option \<times> pstate \<Rightarrow> bool" where
  "OrLoop l s x \<longleftrightarrow> (\<exists>n. or_loop n l s = Some x)"

definition PAnd :: "pstate \<Rightarrow> Expr option \<times> pstate \<Rightarrow> bool" where
  "PAnd s x \<longleftrightarrow> (\<exists>n. parse_and n s = Some x)"

definition AndLoop :: "Expr \<Rightarrow> pstate \<Rightarrow> Expr option \<times> pstate \<Rightarrow> bool" where
  "AndLoop l s x \<longleftrightarrow> (\<exists>n. and_loop n l s = Some x)"

definition PUnary :: "pstate \<Rightarrow> Expr option \<times> pstate \<Rightarrow> bool" where
  "PUnary s x \<longleftrightarrow> (\<exists>n. parse_unary n s = Some x)"

definition PPrimary :: "pstate \<Rightarrow> Expr option \<times> pstate \<Rightarrow> bool" where
  "PPrimary s x \<longleftrightarrow> (\<exists>n. parse_primary n s = Some x)"

lemma POr_I: "PAnd s (Some l, s') \<Longrightarrow> OrLoop l s' x \<Longrightarrow> POr s x"
proof -
  assume "PAnd s (Some l, s')" "OrLoop l s' x"
  then obtain n m where "parse_and n s = Some (Some l, s')" "or_loop m l s' = Some x"
    by (auto simp: PAnd_def OrLoop_def)
  then have "parse_and (max n m) s = Some (Some l, s')" "or_loop (max n m) l s' = Some x"
    by (auto intro: fuel_mono)
  then have "parse_or (Suc (max n m)) s = Some x" by simp
  then show ?thesis unfolding POr_def by blast
qed

lemma PAnd_I: "PUnary s (Some l, s') \<Longrightarrow> AndLoop l s' x \<Longrightarrow> PAnd s x"
proof -
  assume "PUnary s (Some l, s')" "AndLoop l s' x"
  then obtain n m where "parse_unary n s = Some (Some l, s')" "and_loop m l s' = Some x"
    by (auto simp: PUnary_def AndLoop_def)
  then have "parse_unary (max n m) s = Some (Some l, s')" "and_loop (max n m) l s' = Some x"
    by (auto intro: fuel_mono)
  then have "parse_and (Suc (max n m)) s = Some x" by simp
  then show ?thesis unfolding PAnd_def by blast
qed

lemma OrLoop_step:
  assumes "at_type s TOr" and "PAnd (advance s) (Some r, s')" and "OrLoop (Binary l (hd (toks s)) r) s' x"
  shows "OrLoop l s x"
proof -
  obtain n m where "parse_and n (advance s) = Some (Some r, s')" "or_loop m (Binary l (hd (toks s)) r) s' = Some x"
    using assms(2,3) by (auto simp: PAnd_def OrLoop_def)
  then have "parse_and (max n m) (advance s) = Some (Some r, s')"
    "or_loop (max n m) (Binary l (hd (toks s)) r) s' = Some x"
    by (auto intro: fuel_mono)
  then have "or_loop (Suc (max n m)) l s = Some x" using assms(1) by simp
  then show ?thesis unfolding OrLoop_def by blast
qed

lemma AndLoop_step:
  assumes "at_type s TAnd" and "PUnary (advance s) (Some r, s')" and "AndLoop (Binary l (hd (toks s)) r) s' x"
  shows "AndLoop l s x"
proof -
  obtain n m where "parse_unary n (advance s) = Some (Some r, s')" "and_loop m (Binary l (hd (toks s)) r) s' = Some x"
    using assms(2,3) by (auto simp: PUnary_def AndLoop_def)
  then have "parse_unary (max n m) (advance s) = Some (Some r, s')"
    "and_loop (max n m) (Binary l (hd (toks s)) r) s' = Some x"
    by (auto intro: fuel_mono)
  then have "and_loop (Suc (max n m)) l s = Some x" using assms(1) by simp
  then show ?thesis unfolding AndLoop_def by blast
qed

lemma OrLoop_stop: "\<not> at_type s TOr \<Longrightarrow> OrLoop l s (Some l, s)"
  unfolding OrLoop_def by (rule exI [of _ 1]) auto

lemma AndLoop_stop: "\<not> at_type s TAnd \<Longrightarrow> AndLoop l s (Some l, s)"
  unfolding AndLoop_def by (rule exI [of _ 1]) auto

lemma PUnary_not:
  assumes "at_type s TNot" and "PUnary (advance s) (Some e, s')"
  shows "PUnary s (Some (NotE (hd (toks s)) e), s')"
proof -
  obtain n where "parse_unary n (advance s) = Some (Some e, s')" using assms(2) by (auto simp: PUnary_def)
  then have "parse_unary (Suc n) s = Some (Some (NotE (hd (toks s)) e), s')" using assms(1) by simp
  then show ?thesis unfolding PUnary_def by blast
qed

lemma PUnary_primary:
  assumes "\<not> at_type s TNot" and "PPrimary s x"
  shows "PUnary s x"
proof -
  obtain n where "parse_primary n s = Some x" using assms(2) by (auto simp: PPrimary_def)
  then have "parse_unary (Suc n) s = Some x" using assms(1) by auto
  then show ?thesis unfolding PUnary_def by blast
qed

lemma PPrimary_group:
  assumes "at_type s TOpenParen" and "POr (advance s) (Some e, s')" and "at_type s' TCloseParen"
  shows "PPrimary s (Some (Group (hd (toks s)) (Some e) (hd (toks s'))), advance s')"
proof -
  obtain n where "parse_or n (advance s) = Some (Some e, s')" using assms(2) by (auto simp: POr_def)
  then have "parse_primary (Suc n) s = Some (Some (Group (hd (toks s)) (Some e) (hd (toks s'))), advance s')"
    using assms(1,3) by simp
  then show ?thesis unfolding PPrimary_def by blast
qed

lemma PPrimary_compare:
  assumes "ttype k = TKey" "ttype op = TOperator" "ttype v = TValue"
  shows "PPrimary \<lparr>toks = k # op # v # r, last_key = lk, last_op = lo\<rparr>
           (Some (Compare k op v), \<lparr>toks = r, last_key = k, last_op = op\<rparr>)"
  unfolding PPrimary_def by (rule exI [of _ 1]) (simp add: assms parse_clause_def)

section \<open>Trees the grammar generates\<close>

fun tokens_of :: "Expr \<Rightarrow> Token list" where
  "tokens_of (Compare k op v) = [k, op, v]"
| "tokens_of (Binary l c r) = tokens_of l @ c # tokens_of r"
| "tokens_of (NotE n e) = n # tokens_of e"
| "tokens_of (Group a e b) = a # (case e of None \<Rightarrow> [] | Some e \<Rightarrow> tokens_of e) @ [b]"
| "tokens_of (KeyE k) = [k]"
| "tokens_of (Partial k op) = [k, op]"

text \<open>Levels: 0 primary, 1 unary, 2 and, 3 or.\<close>

fun canon :: "nat \<Rightarrow> Expr \<Rightarrow> bool" where
  "canon lv (Compare k op v) \<longleftrightarrow> ttype k = TKey \<and> ttype op = TOperator \<and> ttype v = TValue"
| "canon lv (Binary l c r) \<longleftrightarrow>
     (ttype c = TAnd \<and> 2 \<le> lv \<and> canon 2 l \<and> canon 1 r) \<or> (ttype c = TOr \<and> 3 \<le> lv \<and> canon 3 l \<and> canon 2 r)"
| "canon lv (NotE n e) \<longleftrightarrow> ttype n = TNot \<and> 1 \<le> lv \<and> canon 1 e"
| "canon lv (Group a e b) \<longleftrightarrow>
     ttype a = TOpenParen \<and> ttype b = TCloseParen \<and> (case e of None \<Rightarrow> False | Some e \<Rightarrow> canon 3 e)"
| "canon lv (KeyE k) \<longleftrightarrow> False"
| "canon lv (Partial k op) \<longleftrightarrow> False"

abbreviation st :: "Token list \<Rightarrow> Token \<Rightarrow> Token \<Rightarrow> pstate" where
  "st ts lk lo \<equiv> \<lparr>toks = ts, last_key = lk, last_op = lo\<rparr>"

definition reads_unary :: "Expr \<Rightarrow> bool" where
  "reads_unary e \<longleftrightarrow> (\<forall>r lk lo. \<exists>lk' lo'. PUnary (st (tokens_of e @ r) lk lo) (Some e, st r lk' lo'))"

definition reads_and :: "Expr \<Rightarrow> bool" where
  "reads_and e \<longleftrightarrow> (\<forall>r lk lo. \<exists>lk' lo'. \<forall>x. AndLoop e (st r lk' lo') x \<longrightarrow> PAnd (st (tokens_of e @ r) lk lo) x)"

definition reads_or :: "Expr \<Rightarrow> bool" where
  "reads_or e \<longleftrightarrow>
     (\<forall>r lk lo. (r = [] \<or> ttype (hd r) \<noteq> TAnd) \<longrightarrow>
        (\<exists>lk' lo'. \<forall>x. OrLoop e (st r lk' lo') x \<longrightarrow> POr (st (tokens_of e @ r) lk lo) x))"

lemma unary_and: "reads_unary e \<Longrightarrow> reads_and e"
  unfolding reads_unary_def reads_and_def using PAnd_I by metis

lemma and_or: "reads_and e \<Longrightarrow> reads_or e"
  unfolding reads_or_def
proof (intro allI impI)
  fix r :: "Token list" and lk lo
  assume e: "reads_and e" and r: "r = [] \<or> ttype (hd r) \<noteq> TAnd"
  obtain lk' lo' where "\<forall>x. AndLoop e (st r lk' lo') x \<longrightarrow> PAnd (st (tokens_of e @ r) lk lo) x"
    using e unfolding reads_and_def by blast
  moreover have "AndLoop e (st r lk' lo') (Some e, st r lk' lo')" using r by (intro AndLoop_stop) auto
  ultimately have "PAnd (st (tokens_of e @ r) lk lo) (Some e, st r lk' lo')" by blast
  then show "\<exists>lk' lo'. \<forall>x. OrLoop e (st r lk' lo') x \<longrightarrow> POr (st (tokens_of e @ r) lk lo) x"
    using POr_I by blast
qed

lemma or_closed:
  assumes "reads_or e" and "r = [] \<or> ttype (hd r) \<notin> {TAnd, TOr}"
  shows "\<exists>lk' lo'. POr (st (tokens_of e @ r) lk lo) (Some e, st r lk' lo')"
proof -
  obtain lk' lo' where "\<forall>x. OrLoop e (st r lk' lo') x \<longrightarrow> POr (st (tokens_of e @ r) lk lo) x"
    using assms unfolding reads_or_def by blast
  moreover have "OrLoop e (st r lk' lo') (Some e, st r lk' lo')" using assms(2) by (intro OrLoop_stop) auto
  ultimately show ?thesis by blast
qed

lemma and_closed:
  assumes "reads_and e" and "r = [] \<or> ttype (hd r) \<noteq> TAnd"
  shows "\<exists>lk' lo'. PAnd (st (tokens_of e @ r) lk lo) (Some e, st r lk' lo')"
proof -
  obtain lk' lo' where "\<forall>x. AndLoop e (st r lk' lo') x \<longrightarrow> PAnd (st (tokens_of e @ r) lk lo) x"
    using assms unfolding reads_and_def by blast
  moreover have "AndLoop e (st r lk' lo') (Some e, st r lk' lo')" using assms(2) by (intro AndLoop_stop) auto
  ultimately show ?thesis by blast
qed

lemma reads_binary_and:
  assumes "ttype c = TAnd" and "reads_and l" and "reads_unary r"
  shows "reads_and (Binary l c r)"
  unfolding reads_and_def
proof (intro allI)
  fix ts lk lo
  obtain lk1 lo1 where l: "\<And>x. AndLoop l (st (c # tokens_of r @ ts) lk1 lo1) x \<Longrightarrow>
      PAnd (st (tokens_of l @ c # tokens_of r @ ts) lk lo) x"
    using assms(2) unfolding reads_and_def by blast
  obtain lk2 lo2 where r: "PUnary (st (tokens_of r @ ts) lk1 lo1) (Some r, st ts lk2 lo2)"
    using assms(3) unfolding reads_unary_def by blast
  have "PAnd (st (tokens_of (Binary l c r) @ ts) lk lo) x" if "AndLoop (Binary l c r) (st ts lk2 lo2) x" for x
    using l [OF AndLoop_step [of "st (c # tokens_of r @ ts) lk1 lo1" r "st ts lk2 lo2" l x]] assms(1) r that by simp
  then show "\<exists>lk' lo'. \<forall>x. AndLoop (Binary l c r) (st ts lk' lo') x \<longrightarrow>
      PAnd (st (tokens_of (Binary l c r) @ ts) lk lo) x" by blast
qed

lemma reads_binary_or:
  assumes "ttype c = TOr" and "reads_or l" and "reads_and r"
  shows "reads_or (Binary l c r)"
  unfolding reads_or_def
proof (intro allI impI)
  fix ts :: "Token list" and lk lo
  assume ts: "ts = [] \<or> ttype (hd ts) \<noteq> TAnd"
  obtain lk1 lo1 where l: "\<And>x. OrLoop l (st (c # tokens_of r @ ts) lk1 lo1) x \<Longrightarrow>
      POr (st (tokens_of l @ c # tokens_of r @ ts) lk lo) x"
    using assms(2) [unfolded reads_or_def, rule_format, of "c # tokens_of r @ ts" lk lo] assms(1) by auto
  obtain lk2 lo2 where r: "PAnd (st (tokens_of r @ ts) lk1 lo1) (Some r, st ts lk2 lo2)"
    using and_closed [OF assms(3) ts] by blast
  have "POr (st (tokens_of (Binary l c r) @ ts) lk lo) x" if "OrLoop (Binary l c r) (st ts lk2 lo2) x" for x
    using l [OF OrLoop_step [of "st (c # tokens_of r @ ts) lk1 lo1" r "st ts lk2 lo2" l x]] assms(1) r that by simp
  then show "\<exists>lk' lo'. \<forall>x. OrLoop (Binary l c r) (st ts lk' lo') x \<longrightarrow>
      POr (st (tokens_of (Binary l c r) @ ts) lk lo) x" by blast
qed

lemma reads_group:
  assumes "ttype a = TOpenParen" and "ttype b = TCloseParen" and "reads_or e"
  shows "reads_unary (Group a (Some e) b)"
  unfolding reads_unary_def
proof (intro allI)
  fix ts lk lo
  obtain lk' lo' where "POr (st (tokens_of e @ b # ts) lk lo) (Some e, st (b # ts) lk' lo')"
    using or_closed [OF assms(3), of "b # ts"] assms(2) by fastforce
  then have "PPrimary (st (a # tokens_of e @ b # ts) lk lo) (Some (Group a (Some e) b), st ts lk' lo')"
    using PPrimary_group [of "st (a # tokens_of e @ b # ts) lk lo" e "st (b # ts) lk' lo'"] assms by simp
  then have "PUnary (st (a # tokens_of e @ b # ts) lk lo) (Some (Group a (Some e) b), st ts lk' lo')"
    using assms(1) by (intro PUnary_primary) simp_all
  then show "\<exists>lk' lo'. PUnary (st (tokens_of (Group a (Some e) b) @ ts) lk lo) (Some (Group a (Some e) b), st ts lk' lo')"
    by auto
qed

lemma reads_not:
  assumes "ttype n = TNot" and "reads_unary e"
  shows "reads_unary (NotE n e)"
  unfolding reads_unary_def
proof (intro allI)
  fix ts lk lo
  obtain lk' lo' where "PUnary (st (tokens_of e @ ts) lk lo) (Some e, st ts lk' lo')"
    using assms(2) unfolding reads_unary_def by blast
  then show "\<exists>lk' lo'. PUnary (st (tokens_of (NotE n e) @ ts) lk lo) (Some (NotE n e), st ts lk' lo')"
    using PUnary_not [of "st (n # tokens_of e @ ts) lk lo" e "st ts lk' lo'"] assms(1) by auto
qed

lemma reads_compare:
  assumes "ttype k = TKey" "ttype op = TOperator" "ttype v = TValue"
  shows "reads_unary (Compare k op v)"
  unfolding reads_unary_def
proof (intro allI)
  fix ts lk lo
  have "PUnary (st (k # op # v # ts) lk lo) (Some (Compare k op v), st ts k op)"
    using assms by (intro PUnary_primary PPrimary_compare) simp_all
  then show "\<exists>lk' lo'. PUnary (st (tokens_of (Compare k op v) @ ts) lk lo) (Some (Compare k op v), st ts lk' lo')"
    by auto
qed

lemma canon_reads:
  "(canon 1 e \<longrightarrow> reads_unary e) \<and> (canon 2 e \<longrightarrow> reads_and e) \<and> (canon 3 e \<longrightarrow> reads_or e)"
proof (induction e)
  case (Compare k op v)
  then show ?case using reads_compare unary_and and_or by auto
next
  case (Binary l c r)
  then show ?case using reads_binary_and reads_binary_or and_or by auto
next
  case (NotE n e)
  then show ?case using reads_not unary_and and_or by auto
next
  case (Group a e b)
  then show ?case using reads_group unary_and and_or by (auto split: option.splits)
qed simp_all

lemma canon_complete: "canon lv e \<Longrightarrow> check_complete e"
  by (induction lv e rule: canon.induct) (auto split: option.splits)

lemma parse_tokens_of:
  assumes "canon 3 e"
  shows "parse_query (tokens_of e) = Some \<lparr>pr_ast = Some e, pr_complete = True, pr_error = []\<rparr>"
proof -
  have ne: "tokens_of e \<noteq> []" by (cases e) auto
  obtain lk' lo' where "POr (start_state (tokens_of e)) (Some e, st [] lk' lo')"
    using or_closed [of e "[]" no_token no_token] canon_reads assms by (auto simp: start_state_def)
  then obtain n where n: "parse_or n (start_state (tokens_of e)) = Some (Some e, st [] lk' lo')"
    by (auto simp: POr_def)
  obtain y where y: "parse_or (parse_fuel (tokens_of e)) (start_state (tokens_of e)) = Some y"
    using fuel_enough(1) [of "start_state (tokens_of e)" "parse_fuel (tokens_of e)"]
    by (auto simp: parse_fuel_def start_state_def)
  have "y = (Some e, st [] lk' lo')"
    using fuel_mono(1) [OF n, of "max n (parse_fuel (tokens_of e))"]
      fuel_mono(1) [OF y, of "max n (parse_fuel (tokens_of e))"] by simp
  with y ne canon_complete [OF assms] show ?thesis by (simp add: parse_query_def)
qed

section \<open>Offsets do not matter to the parser\<close>

definition untok :: "Token \<Rightarrow> Token" where
  "untok t = t\<lparr>tstart := 0, tend := 0\<rparr>"

definition ustate :: "pstate \<Rightarrow> pstate" where
  "ustate s = st (map untok (toks s)) (untok (last_key s)) (untok (last_op s))"

abbreviation uexpr :: "Expr \<Rightarrow> Expr" where
  "uexpr \<equiv> map_expr untok"

abbreviation ures :: "presult \<Rightarrow> presult" where
  "ures \<equiv> map_option (\<lambda>(e, s). (map_option uexpr e, ustate s))"

lemma untok_simps [simp]: "ttype (untok t) = ttype t" "ttext (untok t) = ttext t"
  by (simp_all add: untok_def)

lemma ustate_simps [simp]:
  "toks (ustate s) = [] \<longleftrightarrow> toks s = []" "toks s \<noteq> [] \<Longrightarrow> hd (toks (ustate s)) = untok (hd (toks s))"
  "advance (ustate s) = ustate (advance s)" "last_key (ustate s) = untok (last_key s)"
  "last_op (ustate s) = untok (last_op s)"
  by (simp_all add: ustate_def hd_map map_tl)

lemma ustate_type [simp]: "at_type (ustate s) t \<longleftrightarrow> at_type s t"
  by (cases "toks s = []") simp_all

lemma clause_untok: "toks s \<noteq> [] \<Longrightarrow> Some (parse_clause (ustate s)) = ures (Some (parse_clause s))"
  by (cases "toks s"; cases "tl (toks s)"; cases "tl (tl (toks s))") (auto simp: parse_clause_def ustate_def Let_def)

lemma parser_untok:
  "parse_or n (ustate s) = ures (parse_or n s)"
  "or_loop n (uexpr l) (ustate s) = ures (or_loop n l s)"
  "parse_and n (ustate s) = ures (parse_and n s)"
  "and_loop n (uexpr l) (ustate s) = ures (and_loop n l s)"
  "parse_unary n (ustate s) = ures (parse_unary n s)"
  "parse_primary n (ustate s) = ures (parse_primary n s)"
proof (induction n s and n l s and n s and n l s and n s and n s
    rule: parse_or_or_loop_parse_and_and_loop_parse_unary_parse_primary.induct)
  case (2 n s)
  then show ?case by (auto split: option.split)
next
  case (4 n l s)
  show ?case
  proof (cases "at_type s TOr")
    case True
    then have "or_loop (Suc n) (uexpr l) (ustate s) =
        (case ures (parse_and n (advance s)) of None \<Rightarrow> None | Some (None, s) \<Rightarrow> Some (Some (uexpr l), s)
         | Some (Some right, s') \<Rightarrow> or_loop n (Binary (uexpr l) (untok (hd (toks s))) right) s')"
      using 4 by simp
    also have "\<dots> = ures (or_loop (Suc n) l s)" using 4 True by (auto split: option.split)
    finally show ?thesis .
  next
    case False
    then show ?thesis by auto
  qed
next
  case (6 n s)
  then show ?case by (auto split: option.split)
next
  case (8 n l s)
  show ?case
  proof (cases "at_type s TAnd")
    case True
    then have "and_loop (Suc n) (uexpr l) (ustate s) =
        (case ures (parse_unary n (advance s)) of None \<Rightarrow> None | Some (None, s) \<Rightarrow> Some (Some (uexpr l), s)
         | Some (Some right, s') \<Rightarrow> and_loop n (Binary (uexpr l) (untok (hd (toks s))) right) s')"
      using 8 by simp
    also have "\<dots> = ures (and_loop (Suc n) l s)" using 8 True by (auto split: option.split)
    finally show ?thesis .
  next
    case False
    then show ?thesis by auto
  qed
next
  case (10 n s)
  show ?case
  proof (cases "at_type s TNot")
    case True
    then show ?thesis using 10 by (auto split: option.split)
  next
    case False
    then have "parse_primary n (ustate s) = ures (parse_primary n s)" using 10 by blast
    with False show ?thesis by auto
  qed
next
  case (12 n s)
  show ?case
  proof (cases "at_type s TOpenParen")
    case True
    then show ?thesis using 12 by (auto split: option.split)
  next
    case False
    then show ?thesis using clause_untok [of s] by auto
  qed
qed simp_all

lemma check_complete_untok: "check_complete (uexpr e) = check_complete e"
  by (induction e) (auto split: option.split)

lemma parse_untok:
  "parse_query (map untok ts) =
   map_option (\<lambda>r. r\<lparr>pr_ast := map_option uexpr (pr_ast r)\<rparr>) (parse_query ts)"
proof (cases "ts = []")
  case True
  then show ?thesis by (simp add: parse_query_def)
next
  case False
  have s: "start_state (map untok ts) = ustate (start_state ts)"
    by (simp add: start_state_def ustate_def no_token_def untok_def)
  have f: "parse_fuel (map untok ts) = parse_fuel ts" by (simp add: parse_fuel_def)
  show ?thesis
    using False parser_untok(1) [of "parse_fuel ts" "start_state ts"]
    by (cases "parse_or (parse_fuel ts) (start_state ts)")
      (auto simp: parse_query_def s f Let_def check_complete_untok split: option.split)
qed

section \<open>Lexing the serialised text\<close>

text \<open>A quoted string that closes exactly at its end.\<close>

fun closes :: "char \<Rightarrow> string \<Rightarrow> bool" where
  "closes q [] = False"
| "closes q [c] = (c = q)"
| "closes q (c # d # cs) = (if c = q then False else if c = CHR 0x5C then closes q cs else closes q (d # cs))"

definition word_text :: "string \<Rightarrow> bool" where
  "word_text w \<longleftrightarrow> w \<noteq> [] \<and> list_all word_char w"

definition operator_texts :: "string list" where
  "operator_texts = [''=='', ''~='', ''<='', ''>='', ''<'', ''>'', ''='', ''~'']"

definition tok_ok :: "Token \<Rightarrow> bool" where
  "tok_ok t =
     (case ttype t of
        TOperator \<Rightarrow> ttext t \<in> set operator_texts
      | TOpenParen \<Rightarrow> ttext t = ''(''
      | TCloseParen \<Rightarrow> ttext t = '')''
      | TValue \<Rightarrow>
          (word_text (ttext t) \<and> classify_word (ttext t) = TValue) \<or>
          (ttext t \<noteq> [] \<and> is_quote (hd (ttext t)) \<and> closes (hd (ttext t)) (tl (ttext t)))
      | ty \<Rightarrow> word_text (ttext t) \<and> classify_word (ttext t) = ty)"

definition ends :: "string \<Rightarrow> bool" where
  "ends r \<longleftrightarrow> r = [] \<or> \<not> word_char (hd r)"

lemma scan_closes: "closes q b \<Longrightarrow> scan_quote q (b @ r) = length b"
proof (induction q b rule: closes.induct)
  case (2 q c)
  then show ?case by (cases r) auto
next
  case (3 q c d cs)
  then show ?case by (auto split: if_splits)
qed simp

lemma lex_word_text:
  assumes "word_text w" and "ends r"
  shows "lex i (w @ r) = tok (classify_word w) w i (i + length w) # lex (i + length w) r"
proof -
  obtain c cs where w: "w = c # cs" using assms(1) by (cases w) (auto simp: word_text_def)
  have "takeWhile word_char (w @ r) = w"
    using assms by (auto simp: word_text_def ends_def list_all_iff takeWhile_append2 takeWhile_eq_Nil_iff)
  moreover have "word_char c" using assms(1) by (auto simp: w word_text_def)
  ultimately show ?thesis using lex_word [of c i "cs @ r"] by (simp add: w)
qed

lemma lex_quoted_text:
  assumes "is_quote q" and "closes q b"
  shows "lex i ((q # b) @ r) = tok TValue (q # b) i (i + length (q # b)) # lex (i + length (q # b)) r"
  using lex_quote [OF assms(1), of i "b @ r"] scan_closes [OF assms(2), of r] by simp

lemma lex_operator_text:
  assumes "p \<in> set operator_texts"
  shows "lex i (p @ CHR '' '' # r) = tok TOperator p i (i + length p) # lex (i + length p) (CHR '' '' # r)"
  using assms unfolding operator_texts_def
  by (auto simp: lex.simps(2) two_char_op_def is_space_def char_val_def is_quote_def)

lemma lex_parens:
  "lex i (CHR ''('' # r) = tok TOpenParen ''('' i (i + 1) # lex (i + 1) r"
  "lex i (CHR '')'' # r) = tok TCloseParen '')'' i (i + 1) # lex (i + 1) r"
  by (simp_all add: lex.simps(2) two_char_op_def is_space_def char_val_def)

lemma lex_blank: "lex i (CHR '' '' # r) = lex (i + 1) r"
  by (rule lex_space) (simp add: is_space_def char_val_def)

lemma ends_blank [simp]: "ends (CHR '' '' # r)" "ends (CHR '')'' # r)"
  by (simp_all add: ends_def is_space_def is_punct_def char_val_def)

lemma lex_tok:
  assumes "tok_ok t" and "ends r" and "ttype t = TOperator \<Longrightarrow> r \<noteq> [] \<and> hd r = CHR '' ''"
  shows "map untok (lex i (ttext t @ r)) = untok t # map untok (lex (i + length (ttext t)) r)"
proof -
  have u: "untok (tok (ttype t) (ttext t) a b) = untok t" for a b by (cases t) (simp add: untok_def)
  show ?thesis
  proof (cases "ttype t")
    case TOperator
    obtain r' where "r = CHR '' '' # r'" using assms(3) TOperator by (cases r) auto
    with TOperator assms(1) u show ?thesis by (simp add: tok_ok_def lex_operator_text)
  next
    case TOpenParen
    with assms(1) u show ?thesis by (simp add: tok_ok_def lex_parens)
  next
    case TCloseParen
    with assms(1) u show ?thesis by (simp add: tok_ok_def lex_parens)
  next
    case TValue
    show ?thesis
    proof (cases "word_text (ttext t) \<and> classify_word (ttext t) = TValue")
      case True
      with lex_word_text [of "ttext t" r i] assms(2) u TValue show ?thesis by simp
    next
      case False
      with assms(1) TValue obtain q b where q: "ttext t = q # b" "is_quote q" "closes q b"
        by (cases "ttext t") (auto simp: tok_ok_def)
      with lex_quoted_text [of q b i r] u TValue show ?thesis by simp
    qed
  qed (use assms(1,2) u lex_word_text [of "ttext t" r i] in \<open>auto simp: tok_ok_def\<close>)
qed

lemma connective_text:
  "tok_ok t \<Longrightarrow> ttype t = TNot \<Longrightarrow> ttext t = ''not''"
  by (auto simp: tok_ok_def classify_word_def split: if_splits)

lemma lex_serialize:
  assumes "canon lv e" and "\<forall>t \<in> set (tokens_of e). tok_ok t" and "ends r"
  shows "map untok (lex i (serialize e @ r)) =
         map untok (tokens_of e) @ map untok (lex (i + length (serialize e)) r)"
  using assms
proof (induction lv e arbitrary: i r rule: canon.induct)
  case (1 lv k op v)
  have "map untok (lex j (ttext k @ CHR '' '' # s)) = untok k # map untok (lex (j + length (ttext k)) (CHR '' '' # s))"
    "map untok (lex j (ttext op @ CHR '' '' # s)) = untok op # map untok (lex (j + length (ttext op)) (CHR '' '' # s))"
    "map untok (lex j (ttext v @ r)) = untok v # map untok (lex (j + length (ttext v)) r)" for j s
    using 1 by (auto intro!: lex_tok)
  then show ?case by (simp add: lex_blank algebra_simps)
next
  case (2 lv l c rr)
  have c: "ttype c = TAnd \<or> ttype c = TOr" using 2 by auto
  have l: "map untok (lex j (serialize l @ CHR '' '' # s)) =
      map untok (tokens_of l) @ map untok (lex (j + length (serialize l)) (CHR '' '' # s))" for j s
    using 2 by auto
  have rr: "map untok (lex j (serialize rr @ r)) =
      map untok (tokens_of rr) @ map untok (lex (j + length (serialize rr)) r)" for j
    using 2 by auto
  have "map untok (lex j (ttext c @ CHR '' '' # s)) = untok c # map untok (lex (j + length (ttext c)) (CHR '' '' # s))" for j s
    using 2 c by (intro lex_tok) auto
  with l rr show ?case by (simp add: lex_blank algebra_simps)
next
  case (3 lv n e)
  have t: "ttext n = ''not''" using 3 connective_text by auto
  have "map untok (lex i (ttext n @ CHR '' '' # s)) = untok n # map untok (lex (i + length (ttext n)) (CHR '' '' # s))" for s
    using 3 by (intro lex_tok) auto
  then have "map untok (lex i (''not '' @ s)) = untok n # map untok (lex (i + 4) s)" for s
    by (simp add: t lex_blank numeral_eq_Suc)
  with 3 show ?case by (simp add: numeral_eq_Suc)
next
  case (4 lv a e b)
  then obtain e' where e: "e = Some e'" by (cases e) auto
  have ab: "untok (tok TOpenParen ''('' x y) = untok a" "untok (tok TCloseParen '')'' x y) = untok b" for x y
    using 4 by (cases a; cases b; auto simp: tok_ok_def untok_def)+
  have "map untok (lex j (serialize e' @ CHR '')'' # r)) =
      map untok (tokens_of e') @ map untok (lex (j + length (serialize e')) (CHR '')'' # r))" for j
    using 4 e by auto
  with ab show ?case by (simp add: e lex_parens algebra_simps)
qed simp_all

section \<open>Properties\<close>

text \<open>
  C33: The parser terminates: it returns a result for every token list, so for every text.
\<close>

theorem parser_terminates: "\<exists>r. parse_query (Lexer_tokenize src) = Some r"
  by (rule parse_total)

text \<open>
  C16: Round trip. Serialising a complete tree of the grammar gives a text that is lexed and
  parsed, in full and without error, into the same tree: \<open>and\<close> binds tighter than
  \<open>or\<close>, both associate to the left, and groups are kept.
\<close>

theorem query_roundtrip:
  assumes "canon 3 e" and "\<forall>t \<in> set (tokens_of e). tok_ok t"
  shows "\<exists>e'. parse_query (Lexer_tokenize (serialize e)) =
           Some \<lparr>pr_ast = Some e', pr_complete = True, pr_error = []\<rparr> \<and>
         map_expr untok e' = map_expr untok e"
proof -
  let ?ts = "Lexer_tokenize (serialize e)"
  have "map untok ?ts = map untok (tokens_of e)"
    using lex_serialize [OF assms, of "[]" 0] by (simp add: Lexer_tokenize_def ends_def)
  then have "map_option (\<lambda>r. r\<lparr>pr_ast := map_option uexpr (pr_ast r)\<rparr>) (parse_query ?ts) =
      map_option (\<lambda>r. r\<lparr>pr_ast := map_option uexpr (pr_ast r)\<rparr>) (parse_query (tokens_of e))"
    by (metis parse_untok)
  also have "\<dots> = Some \<lparr>pr_ast = Some (uexpr e), pr_complete = True, pr_error = []\<rparr>"
    by (simp add: parse_tokens_of [OF assms(1)])
  finally obtain r where r: "parse_query ?ts = Some r"
    "r\<lparr>pr_ast := map_option uexpr (pr_ast r)\<rparr> = \<lparr>pr_ast = Some (uexpr e), pr_complete = True, pr_error = []\<rparr>"
    by auto
  then show ?thesis by (cases r) auto
qed

definition demo_expr :: Expr where
  "demo_expr =
     Binary (Compare (tok TKey ''robot'' 0 0) (tok TOperator ''=='' 0 0) (tok TValue ''7'' 0 0))
       (tok TAnd ''and'' 0 0)
       (NotE (tok TNot ''not'' 0 0)
          (Group (tok TOpenParen ''('' 0 0)
             (Some (Binary (Compare (tok TKey ''site'' 0 0) (tok TOperator ''<='' 0 0) (tok TValue ''3'' 0 0))
                (tok TOr ''or'' 0 0)
                (Compare (tok TKey ''site'' 0 0) (tok TOperator ''~='' 0 0) (tok TValue [CHR 0x27, CHR ''x'', CHR 0x27] 0 0))))
             (tok TCloseParen '')'' 0 0)))"

theorem query_roundtrip_witness:
  "\<exists>e'. parse_query (Lexer_tokenize (serialize demo_expr)) =
          Some \<lparr>pr_ast = Some e', pr_complete = True, pr_error = []\<rparr>"
proof -
  have "canon 3 demo_expr" by (simp add: demo_expr_def)
  moreover have "\<forall>t \<in> set (tokens_of demo_expr). tok_ok t" unfolding demo_expr_def by code_simp
  ultimately show ?thesis using query_roundtrip by blast
qed

text \<open>
  An unclosed parenthesis is dropped: the query is reported complete, but its text groups the
  other way round.
\<close>

lemma unclosed_paren_regroups:
  "map_option (\<lambda>r. (pr_complete r, map_option serialize (pr_ast r)))
     (parse_query (Lexer_tokenize ''a == 1 and (b == 2 or c == 3'')) =
   Some (True, Some ''a == 1 and b == 2 or c == 3'')"
  by code_simp

text \<open>A dangling connective swallows what follows it, and the query is reported complete.\<close>

lemma dangling_connective_complete:
  "map_option (\<lambda>r. (pr_complete r, pr_error r, map_option serialize (pr_ast r)))
     (parse_query (Lexer_tokenize ''a == 1 or =='')) = Some (True, [], Some ''a == 1'')"
  by code_simp

text \<open>Negation of a comparison is serialised without the parentheses Lua needs.\<close>

lemma not_serialised_bare:
  "map_option (\<lambda>r. map_option serialize (pr_ast r)) (parse_query (Lexer_tokenize ''not a == 1'')) =
   Some (Some ''not a == 1'') \<and>
   map_option (\<lambda>r. map_option (\<lambda>e. case e of NotE _ (Compare _ _ _) \<Rightarrow> True | _ \<Rightarrow> False) (pr_ast r))
     (parse_query (Lexer_tokenize ''not a == 1'')) = Some (Some True)"
  by code_simp

end
