(* ===== verification/Query_Edit.thy ===== *)
theory Query_Edit
  imports Query_Roundtrip
begin

text \<open>
  \<open>query/complete.h\<close> (what may follow the text before the cursor) and \<open>query/edit.h\<close>
  (the cursor context and the edit a dropdown makes). A schema is the list of its entries in
  key order; offsets into the text are integers, as in the code, and clamped where it clamps.
\<close>

section \<open>Completion\<close>

type_synonym Schema = "(string \<times> string list) list"

datatype Expect = ExpKey | ExpOperator | ExpValue | ExpConnective | ExpAny

record Completions =
  c_expect :: Expect
  c_current_key :: string
  c_suggestions :: "string list"

definition operators :: "string list" where
  "operators = [''=='', ''~='', ''<'', ''>'', ''<='', ''>='']"

definition is_operator :: "string \<Rightarrow> bool" where
  "is_operator t \<longleftrightarrow> t \<in> set operators"

definition is_connective :: "string \<Rightarrow> bool" where
  "is_connective t \<longleftrightarrow> t = ''and'' \<or> t = ''or'' \<or> t = ''not''"

definition is_value :: "string \<Rightarrow> bool" where
  "is_value t \<longleftrightarrow> t \<noteq> [] \<and> (is_quote (hd t) \<or> strtod_consumes_all t)"

text \<open>The expansion loop over the tokens, with the last key and operator.\<close>

fun expand_loop :: "string \<Rightarrow> string \<Rightarrow> string list \<Rightarrow> string list" where
  "expand_loop lk lo [] = []"
| "expand_loop lk lo [t] = [t]"
| "expand_loop lk lo (t # u # ts) =
     (if \<not> is_connective t \<and> \<not> is_operator t \<and> \<not> is_value t \<and> t \<noteq> ''('' \<and> t \<noteq> '')'' \<and> is_operator u
      then t # u # expand_loop t u ts
      else if is_connective t \<and> t \<noteq> ''not'' \<and> lk \<noteq> [] \<and> lo \<noteq> [] \<and> is_value u
      then t # lk # lo # u # expand_loop lk lo ts
      else t # expand_loop lk lo (u # ts))"

fun join_spaces :: "string list \<Rightarrow> string" where
  "join_spaces [] = []"
| "join_spaces [t] = t"
| "join_spaces (t # ts) = t @ '' '' @ join_spaces ts"

definition expand :: "string \<Rightarrow> string" where
  "expand text = (let ts = tokenize text in if length ts < 4 then text else join_spaces (expand_loop [] [] ts))"

definition complete :: "string \<Rightarrow> nat \<Rightarrow> Schema \<Rightarrow> Completions" where
  "complete text cursor schema =
     (let ts = tokenize (take cursor text); n = length ts
      in if ts = [] then \<lparr>c_expect = ExpAny, c_current_key = [], c_suggestions = map fst schema\<rparr>
         else if is_connective (last ts) \<or> last ts = ''('' then
           \<lparr>c_expect = ExpKey, c_current_key = [], c_suggestions = map fst schema\<rparr>
         else if is_operator (last ts) then
           (if 2 \<le> n then
              \<lparr>c_expect = ExpValue, c_current_key = ts ! (n - 2),
               c_suggestions = (case map_of schema (ts ! (n - 2)) of Some vs \<Rightarrow> vs | None \<Rightarrow> [])\<rparr>
            else \<lparr>c_expect = ExpValue, c_current_key = [], c_suggestions = []\<rparr>)
         else if 3 \<le> n \<and> is_operator (ts ! (n - 2)) \<or> last ts = '')'' then
           \<lparr>c_expect = ExpConnective, c_current_key = [], c_suggestions = [''and'', ''or'']\<rparr>
         else if map_of schema (last ts) \<noteq> None then
           \<lparr>c_expect = ExpOperator, c_current_key = last ts, c_suggestions = operators\<rparr>
         else
           \<lparr>c_expect = ExpKey, c_current_key = [],
            c_suggestions = filter (\<lambda>k. starts_with k (last ts)) (map fst schema)\<rparr>)"

section \<open>Cursor context\<close>

datatype Action = Disabled | Insert | Replace

record CursorContext =
  x_cursor :: int
  x_token_index :: int
  x_active_token :: Token
  x_expect :: Expect
  x_context_key :: string
  x_suggestion_count :: nat
  x_key_action :: Action
  x_op_action :: Action
  x_val_action :: Action

fun find_active :: "Token list \<Rightarrow> int \<Rightarrow> int \<Rightarrow> int" where
  "find_active [] cursor i = -1"
| "find_active (t # ts) cursor i =
     (if int (tstart t) \<le> cursor \<and> cursor \<le> int (tend t) then i else find_active ts cursor (i + 1))"

definition find_active_token :: "Token list \<Rightarrow> int \<Rightarrow> int" where
  "find_active_token ts cursor = find_active ts cursor 0"

text \<open>The context key and expectation once the cursor is on token \<open>i\<close>.\<close>

definition token_context :: "Token list \<Rightarrow> nat \<Rightarrow> string \<Rightarrow> Expect \<times> string" where
  "token_context ts i ck =
     (case ttype (ts ! i) of
        TKey \<Rightarrow> (ExpOperator, ttext (ts ! i))
      | TOperator \<Rightarrow>
          (ExpValue, if 0 < i \<and> ttype (ts ! (i - 1)) = TKey then ttext (ts ! (i - 1)) else ck)
      | TValue \<Rightarrow>
          (ExpConnective, if 2 \<le> i \<and> ttype (ts ! (i - 1)) = TOperator \<and> ttype (ts ! (i - 2)) = TKey
                          then ttext (ts ! (i - 2)) else ck)
      | TCloseParen \<Rightarrow>
          (ExpConnective, if 2 \<le> i \<and> ttype (ts ! (i - 1)) = TOperator \<and> ttype (ts ! (i - 2)) = TKey
                          then ttext (ts ! (i - 2)) else ck)
      | _ \<Rightarrow> (ExpKey, []))"

definition analyze :: "string \<Rightarrow> int \<Rightarrow> Schema \<Rightarrow> CursorContext" where
  "analyze text cursor schema =
     (let ts = Lexer_tokenize text;
          ti = find_active_token ts cursor;
          act = (if 0 \<le> ti then ts ! nat ti else no_token);
          comp = complete text (if cursor < 0 then length text else nat cursor) schema;
          (ex, ck) = (if 0 \<le> ti then token_context ts (nat ti) (c_current_key comp)
                      else (c_expect comp, c_current_key comp));
          on = (\<lambda>ty. 0 \<le> ti \<and> ttype act = ty)
      in \<lparr>x_cursor = cursor, x_token_index = ti, x_active_token = act, x_expect = ex,
          x_context_key = ck, x_suggestion_count = length (c_suggestions comp),
          x_key_action = (if on TKey then Replace
                          else if ex = ExpKey \<or> ex = ExpAny \<or> ex = ExpConnective then Insert else Disabled),
          x_op_action = (if on TOperator then Replace else if ex = ExpOperator then Insert else Disabled),
          x_val_action = (if on TValue then Replace else if ex = ExpValue then Insert else Disabled)\<rparr>)"

section \<open>Edits\<close>

record EditResult =
  ed_text :: string
  ed_cursor :: int

definition is_query_whitespace :: "char \<Rightarrow> bool" where
  "is_query_whitespace c \<longleftrightarrow> char_val c \<in> {32, 9, 10, 13}"

fun escape_value :: "string \<Rightarrow> string" where
  "escape_value [] = []"
| "escape_value (c # cs) =
     (if c = CHR 0x22 \<or> c = CHR 0x5C then CHR 0x5C # c # escape_value cs else c # escape_value cs)"

definition quoteValueForQuery :: "string \<Rightarrow> string" where
  "quoteValueForQuery v =
     (if v \<noteq> [] \<and> strtod_consumes_all v then v
      else CHR 0x22 # escape_value v @ [CHR 0x22])"

text \<open>The span to overwrite, clamped to the text.\<close>

definition edit_span :: "string \<Rightarrow> CursorContext \<Rightarrow> Action \<Rightarrow> int \<times> int" where
  "edit_span text ctx action =
     (let n = int (length text);
          (f, t) = (if action = Replace \<and> 0 \<le> x_token_index ctx
                    then (int (tstart (x_active_token ctx)), int (tend (x_active_token ctx)))
                    else if 0 \<le> x_token_index ctx
                    then (int (tend (x_active_token ctx)), int (tend (x_active_token ctx)))
                    else (x_cursor ctx, x_cursor ctx));
          f = (if f < 0 then 0 else if n < f then n else f);
          t = (if t < f then f else if n < t then n else t)
      in (f, t))"

definition applyCompletion :: "string \<Rightarrow> CursorContext \<Rightarrow> Action \<Rightarrow> string \<Rightarrow> EditResult" where
  "applyCompletion text ctx action item =
     (let (f, t) = edit_span text ctx action;
          replace = (action = Replace \<and> 0 \<le> x_token_index ctx);
          lead = (if 0 < f \<and> \<not> is_query_whitespace (text ! (nat f - 1)) then '' '' else []);
          trail = (if \<not> replace \<or> int (length text) \<le> t \<or> \<not> is_query_whitespace (text ! nat t) then '' '' else []);
          piece = lead @ item @ trail
      in \<lparr>ed_text = take (nat f) text @ piece @ drop (nat t) text,
          ed_cursor = f + int (length piece)\<rparr>)"

section \<open>Debug display\<close>

fun action_str :: "Action \<Rightarrow> string" where
  "action_str Disabled = [CHR 0xE2, CHR 0x80, CHR 0x94]"
| "action_str Insert = ''INSERT''"
| "action_str Replace = ''REPLACE''"

fun expect_str :: "Expect \<Rightarrow> string" where
  "expect_str ExpKey = ''Key''"
| "expect_str ExpOperator = ''Operator''"
| "expect_str ExpValue = ''Value''"
| "expect_str ExpConnective = ''Connective''"
| "expect_str ExpAny = ''Any''"

fun token_type_str :: "TokenType \<Rightarrow> string" where
  "token_type_str TKey = ''Key''"
| "token_type_str TOperator = ''Op''"
| "token_type_str TValue = ''Val''"
| "token_type_str TAnd = ''And''"
| "token_type_str TOr = ''Or''"
| "token_type_str TNot = ''Not''"
| "token_type_str TOpenParen = ''(''"
| "token_type_str TCloseParen = '')''"

definition span_str :: "CursorContext \<Rightarrow> string" where
  "span_str ctx = ''['' @ nat_str (tstart (x_active_token ctx)) @ '','' @ nat_str (tend (x_active_token ctx)) @ '')''"

definition action_part :: "string \<Rightarrow> CursorContext \<Rightarrow> Action \<Rightarrow> string" where
  "action_part label ctx a = label @ action_str a @ (if a = Replace then span_str ctx else [])"

definition format_debug :: "CursorContext \<Rightarrow> string" where
  "format_debug ctx =
     ''pos:'' @ int_str (x_cursor ctx) @
     (if 0 \<le> x_token_index ctx
      then ''  active:'' @ [CHR 0x22] @ ttext (x_active_token ctx) @ [CHR 0x22] @ '' '' @
           token_type_str (ttype (x_active_token ctx)) @ span_str ctx
      else ''  active:(none)'') @
     ''  expect:'' @ expect_str (x_expect ctx) @
     (if x_context_key ctx \<noteq> [] then ''  ctx_key:'' @ x_context_key ctx else []) @
     ''  sugg:'' @ nat_str (x_suggestion_count ctx) @ [CHR 0x0A] @
     action_part ''key:'' ctx (x_key_action ctx) @
     action_part ''  op:'' ctx (x_op_action ctx) @
     action_part ''  val:'' ctx (x_val_action ctx)"

section \<open>Quoting\<close>

lemma closes_escaped: "closes (CHR 0x22) (escape_value v @ [CHR 0x22])"
proof (induction v)
  case (Cons c v)
  obtain d ds where d: "escape_value v @ [CHR 0x22] = d # ds" by (cases "escape_value v @ [CHR 0x22]") auto
  with Cons show ?case by auto
qed simp

text \<open>
  Texts that \<open>strtod\<close> consumes consist of letters, digits, points and signs, except for the
  payload of a NaN.
\<close>

definition number_char :: "char \<Rightarrow> bool" where
  "number_char c \<longleftrightarrow> is_alnum c \<or> c = CHR ''.'' \<or> c = CHR ''+'' \<or> c = CHR ''-''"

lemma number_char_word: "number_char c \<Longrightarrow> word_char c"
  by (auto simp: number_char_def is_alnum_def is_digit_def is_upper_def is_lower_def is_space_def is_punct_def char_val_def)

lemma lower_letter: "is_lower (to_lower c) \<Longrightarrow> is_alnum c"
  by (auto simp: is_alnum_def to_lower_def split: if_splits)

lemma lower_digit: "is_digit (to_lower c) \<Longrightarrow> is_alnum c"
  by (auto simp: is_alnum_def to_lower_def split: if_splits)

lemma hex_alnum: "is_hex c \<Longrightarrow> is_alnum c"
  by (auto simp: is_hex_def is_alnum_def to_lower_def is_lower_def is_upper_def split: if_splits)

lemma exponent_chars:
  assumes "exponent_ok mark s" and "is_lower mark"
  shows "list_all number_char s"
proof (cases s)
  case (Cons c r)
  have "number_char c" using assms lower_letter [of c] by (auto simp: exponent_ok_def Cons number_char_def)
  moreover have "list_all number_char r"
    using assms by (cases r) (auto simp: exponent_ok_def Cons Let_def list_all_iff number_char_def is_alnum_def split: if_splits)
  ultimately show ?thesis by (simp add: Cons)
qed simp

lemma mantissa_chars:
  assumes "mantissa_ok dg mark s" and "\<And>c. dg c \<Longrightarrow> is_alnum c" and "is_lower mark"
  shows "list_all number_char s"
proof -
  have t: "list_all number_char (takeWhile dg x)" for x
    using assms(2) by (auto simp: list_all_iff number_char_def dest: set_takeWhileD)
  have split: "list_all number_char s \<longleftrightarrow> list_all number_char (takeWhile dg s) \<and> list_all number_char (dropWhile dg s)" for s
    by (metis list_all_append takeWhile_dropWhile_id)
  have "list_all number_char (dropWhile dg s)"
  proof (cases "dropWhile dg s")
    case (Cons c r)
    show ?thesis
    proof (cases "c = CHR ''.''")
      case True
      then have "exponent_ok mark (dropWhile dg r)" using assms(1) by (simp add: mantissa_ok_def Cons Let_def)
      then have "list_all number_char r" using split [of r] t exponent_chars assms(3) by blast
      with True show ?thesis by (simp add: Cons number_char_def)
    next
      case False
      then have "exponent_ok mark (dropWhile dg s)" using assms(1) by (simp add: mantissa_ok_def Cons Let_def)
      then show ?thesis using exponent_chars assms(3) by blast
    qed
  next
    case Nil
    show ?thesis unfolding Nil by simp
  qed
  with split [of s] t show ?thesis by blast
qed

lemma lower_letters: "map to_lower s = w \<Longrightarrow> list_all is_lower w \<Longrightarrow> list_all number_char s"
  using lower_letter by (induction s arbitrary: w) (auto simp: number_char_def)

lemma unsigned_number_chars:
  assumes "unsigned_number s" and "CHR ''('' \<notin> set s"
  shows "list_all number_char s"
proof -
  have lw: "list_all is_lower ''inf''" "list_all is_lower ''infinity''" "list_all is_lower ''nan''"
    by (simp_all add: is_lower_def char_val_def)
  consider "map to_lower s = ''inf''" | "map to_lower s = ''infinity''"
    | "take 3 (map to_lower s) = ''nan''" "nan_ok (drop 3 s)"
    | "take 2 (map to_lower s) = ''0x''" "mantissa_ok is_hex (CHR ''p'') (drop 2 s)"
    | "mantissa_ok is_digit (CHR ''e'') s"
    using assms(1) by (auto simp: unsigned_number_def Let_def)
  then show ?thesis
  proof cases
    case 3
    have "hd (drop 3 s) \<in> set s" if "drop 3 s \<noteq> []" using that by (meson hd_in_set in_set_dropD)
    then have "drop 3 s = []" using 3(2) assms(2) by (metis nan_ok_def)
    moreover have "list_all number_char (take 3 s)"
      using lower_letters [of "take 3 s" "''nan''"] 3(1) lw by (simp add: take_map)
    ultimately show ?thesis by (metis append_Nil2 append_take_drop_id)
  next
    case 4
    have "list_all number_char (drop 2 s)"
      by (rule mantissa_chars [OF 4(2) hex_alnum]) (simp_all add: is_lower_def char_val_def)
    moreover have "list_all number_char (take 2 s)"
    proof -
      obtain x y where xy: "take 2 s = [x, y]" "to_lower x = CHR ''0''" "to_lower y = CHR ''x''"
        using 4(1) by (auto simp: take_map map_eq_Cons_conv)
      have "is_alnum x" by (rule lower_digit) (simp add: xy(2) is_digit_def char_val_def)
      moreover have "is_alnum y" by (rule lower_letter) (simp add: xy(3) is_lower_def char_val_def)
      ultimately show ?thesis by (simp add: xy(1) number_char_def)
    qed
    ultimately show ?thesis by (metis append_take_drop_id list_all_append)
  next
    case 5
    then show ?thesis
      by (rule mantissa_chars) (simp_all add: is_alnum_def is_lower_def char_val_def)
  next
    case 1
    then show ?thesis by (rule lower_letters [OF _ lw(1)])
  next
    case 2
    then show ?thesis by (rule lower_letters [OF _ lw(2)])
  qed
qed

lemma number_chars:
  assumes "strtod_consumes_all s" and "CHR ''('' \<notin> set s"
  shows "list_all number_char (dropWhile is_space s)" and "dropWhile is_space s \<noteq> []"
proof -
  obtain c r where t: "dropWhile is_space s = c # r"
    using assms(1) by (cases "dropWhile is_space s") (auto simp: strtod_consumes_all_def)
  have "set (c # r) \<subseteq> set s" unfolding t [symmetric] by (meson set_dropWhileD subsetI)
  then have nf: "CHR ''('' \<notin> set (c # r)" using assms(2) by blast
  show "dropWhile is_space s \<noteq> []" by (simp add: t)
  show "list_all number_char (dropWhile is_space s)"
  proof (cases "c = CHR ''+'' \<or> c = CHR ''-''")
    case True
    then have "unsigned_number r" using assms(1) by (simp add: strtod_consumes_all_def t)
    with True nf unsigned_number_chars [of r] show ?thesis by (auto simp: t number_char_def)
  next
    case False
    then have "unsigned_number (c # r)" using assms(1) by (simp add: strtod_consumes_all_def t)
    with nf unsigned_number_chars [of "c # r"] show ?thesis by (simp add: t)
  qed
qed

text \<open>Removing the escapes of a quoted value.\<close>

fun unescape :: "string \<Rightarrow> string" where
  "unescape [] = []"
| "unescape [c] = [c]"
| "unescape (c # d # cs) = (if c = CHR 0x5C then d # unescape cs else c # unescape (d # cs))"

lemma unescape_escape: "unescape (escape_value v) = v"
proof (induction v)
  case (Cons c v)
  then show ?case by (cases "escape_value v") auto
qed simp

lemma lex_skip_blanks: "lex i s = lex (i + length (takeWhile is_space s)) (dropWhile is_space s)"
  by (induction s arbitrary: i) (auto simp: lex_space)

lemma keyword_not_number:
  "\<not> strtod_consumes_all ''and''" "\<not> strtod_consumes_all ''or''" "\<not> strtod_consumes_all ''not''"
  by code_simp+

lemma strtod_skip: "strtod_consumes_all (dropWhile is_space s) = strtod_consumes_all s"
proof -
  have "dropWhile is_space (dropWhile is_space s) = dropWhile is_space s"
    by (metis dropWhile_idem)
  then show ?thesis by (simp add: strtod_consumes_all_def)
qed

lemma lex_number:
  assumes "strtod_consumes_all v" and "CHR ''('' \<notin> set v"
  shows "map (\<lambda>t. (ttype t, ttext t)) (lex i v) = [(TValue, dropWhile is_space v)]"
proof -
  let ?w = "dropWhile is_space v"
  have "word_text ?w" using number_chars [OF assms] number_char_word by (auto simp: word_text_def list_all_iff)
  moreover have "classify_word ?w = TValue"
    using assms(1) strtod_skip [of v] keyword_not_number by (auto simp: classify_word_def)
  ultimately show ?thesis
    using lex_word_text [of ?w "[]"] lex_skip_blanks [of i v] by (simp add: ends_def)
qed

section \<open>Properties\<close>

text \<open>
  C34: A value picked from a dropdown lands as one value. The text inserted for it lexes as a
  single value token, a bare number or a quoted string that unescapes to the value, unless
  the value is a NaN with a payload.
\<close>

theorem quoted_value_is_one_token:
  assumes "CHR ''('' \<notin> set v \<or> \<not> strtod_consumes_all v"
  shows "\<exists>txt. map (\<lambda>t. (ttype t, ttext t)) (Lexer_tokenize (quoteValueForQuery v)) = [(TValue, txt)] \<and>
           (txt = dropWhile is_space v \<or>
            (\<exists>body. txt = CHR 0x22 # body @ [CHR 0x22] \<and> unescape body = v))"
proof (cases "v \<noteq> [] \<and> strtod_consumes_all v")
  case True
  then have "quoteValueForQuery v = v" by (simp add: quoteValueForQuery_def)
  moreover have "map (\<lambda>t. (ttype t, ttext t)) (lex 0 v) = [(TValue, dropWhile is_space v)]"
    using True assms by (intro lex_number) auto
  ultimately show ?thesis by (simp add: Lexer_tokenize_def)
next
  case False
  then have q: "quoteValueForQuery v = CHR 0x22 # escape_value v @ [CHR 0x22]" by (auto simp: quoteValueForQuery_def)
  have "lex 0 ((CHR 0x22 # (escape_value v @ [CHR 0x22])) @ []) =
      tok TValue (CHR 0x22 # escape_value v @ [CHR 0x22]) 0 (0 + length (CHR 0x22 # (escape_value v @ [CHR 0x22]))) #
      lex (0 + length (CHR 0x22 # (escape_value v @ [CHR 0x22]))) []"
    by (rule lex_quoted_text) (simp_all add: is_quote_def closes_escaped)
  then show ?thesis using unescape_escape [of v] by (auto simp: q Lexer_tokenize_def)
qed

theorem quoted_value_is_one_token_witness:
  "\<exists>txt. map (\<lambda>t. (ttype t, ttext t)) (Lexer_tokenize (quoteValueForQuery ''a and b'')) = [(TValue, txt)]"
proof -
  have "CHR ''('' \<notin> set ''a and b'' \<or> \<not> strtod_consumes_all ''a and b''" by simp
  from quoted_value_is_one_token [OF this] obtain w where
    "map (\<lambda>t. (ttype t, ttext t)) (Lexer_tokenize (quoteValueForQuery ''a and b'')) = [(TValue, w)]" by (elim exE conjE)
  then show ?thesis by (rule exI)
qed

text \<open>A NaN with a payload is inserted bare and falls apart into four tokens.\<close>

lemma nan_payload_not_quoted:
  "map ttext (Lexer_tokenize (quoteValueForQuery ''nan(1)'')) = [''nan'', ''('', ''1'', '')'']"
  by code_simp

end
