(* ===== verification/Browse_Sessions.thy ===== *)
theory Browse_Sessions
  imports Prelude "HOL-Library.Monad_Syntax"
begin

text \<open>
  How recordings are grouped and combined for browsing: \<open>aggregate_sessions.h\<close> joins the chunk files
  of a run, \<open>stitch_select.h\<close> makes one selection of several recordings, \<open>slider_window.h\<close> maps the
  handles of the range slider to a time window. Times are signed 64-bit nanoseconds.
\<close>

section \<open>Aggregation\<close>

record AggInput =
  ai_key :: string
  ai_min_ts_ns :: int
  ai_max_ts_ns :: int

record AggSession =
  as_keys :: "string list"
  as_min_ts_ns :: int
  as_max_ts_ns :: int
  as_partition :: string

fun join_segments :: "string \<Rightarrow> string list \<Rightarrow> string" where
  "join_segments out [] = out"
| "join_segments out (s # ss) =
     (if starts_with s ''date='' then join_segments out ss
      else join_segments ((if out = [] then out else out @ ''/'') @ s) ss)"

definition partitionKey :: "string \<Rightarrow> string" where
  "partitionKey key = join_segments [] (butlast (split_on CHR ''/'' key))"

definition by_partition :: "AggInput list \<Rightarrow> (string \<times> AggInput list) list" where
  "by_partition files =
     fold (\<lambda>f m. let p = partitionKey (ai_key f) in
       map_put p (case map_of m p of None \<Rightarrow> [f] | Some fs \<Rightarrow> fs @ [f]) m) files []"

definition agg_sort :: "AggInput list \<Rightarrow> AggInput list" where
  "agg_sort items = sort_key (\<lambda>f. (ai_min_ts_ns f, ai_key f)) items"

definition open_session :: "string \<Rightarrow> AggInput \<Rightarrow> AggSession" where
  "open_session p it = \<lparr>as_keys = [], as_min_ts_ns = ai_min_ts_ns it, as_max_ts_ns = ai_max_ts_ns it, as_partition = p\<rparr>"

definition add_file :: "AggInput \<Rightarrow> AggSession \<Rightarrow> AggSession" where
  "add_file it s = s\<lparr>as_keys := as_keys s @ [ai_key it],
     as_min_ts_ns := min (as_min_ts_ns s) (ai_min_ts_ns it), as_max_ts_ns := max (as_max_ts_ns s) (ai_max_ts_ns it)\<rparr>"

fun agg_loop :: "int \<Rightarrow> string \<Rightarrow> AggSession option \<Rightarrow> int \<Rightarrow> AggInput list \<Rightarrow> AggSession list" where
  "agg_loop gap p cur prev_max [] = (case cur of None \<Rightarrow> [] | Some s \<Rightarrow> [s])"
| "agg_loop gap p cur prev_max (it # its) =
     (case cur of
        None \<Rightarrow> agg_loop gap p (Some (add_file it (open_session p it))) (max prev_max (ai_max_ts_ns it)) its
      | Some s \<Rightarrow>
          if gap < ai_min_ts_ns it - prev_max
          then s # agg_loop gap p (Some (add_file it (open_session p it))) (max prev_max (ai_max_ts_ns it)) its
          else agg_loop gap p (Some (add_file it s)) (max prev_max (ai_max_ts_ns it)) its)"

definition aggregateSessions :: "AggInput list \<Rightarrow> int \<Rightarrow> AggSession list" where
  "aggregateSessions files gap =
     sort_key (\<lambda>s. (as_min_ts_ns s, as_partition s))
       (concat (map (\<lambda>(p, items). agg_loop gap p None 0 (agg_sort items)) (by_partition files)))"

text \<open>The session of a block of files.\<close>

definition session_of :: "AggInput list \<Rightarrow> AggSession" where
  "session_of b = \<lparr>as_keys = map ai_key b, as_min_ts_ns = Min (ai_min_ts_ns ` set b),
     as_max_ts_ns = Max (ai_max_ts_ns ` set b), as_partition = partitionKey (ai_key (hd b))\<rparr>"

lemma session_of_snoc:
  "b \<noteq> [] \<Longrightarrow> add_file it (session_of b) = session_of (b @ [it])"
  by (simp add: add_file_def session_of_def max.commute min.commute)

lemma session_of_one: "partitionKey (ai_key it) = p \<Longrightarrow> add_file it (open_session p it) = session_of [it]"
  by (simp add: add_file_def session_of_def open_session_def)

text \<open>A block is contiguous, and blocks are apart from each other.\<close>

definition contiguous :: "int \<Rightarrow> AggInput list \<Rightarrow> bool" where
  "contiguous gap b \<longleftrightarrow>
     (\<forall>i. 0 < i \<longrightarrow> i < length b \<longrightarrow> (\<exists>x \<in> set (take i b). ai_min_ts_ns (b ! i) - ai_max_ts_ns x \<le> gap))"

definition apart :: "int \<Rightarrow> AggInput list \<Rightarrow> AggInput list \<Rightarrow> bool" where
  "apart gap b b' \<longleftrightarrow> (\<forall>x \<in> set b. \<forall>y \<in> set b'. gap < ai_min_ts_ns y - ai_max_ts_ns x)"

lemma contiguous_one [simp]: "contiguous gap [x]"
  by (simp add: contiguous_def)

lemma contiguous_snoc:
  "contiguous gap b \<Longrightarrow> \<exists>x \<in> set b. ai_min_ts_ns it - ai_max_ts_ns x \<le> gap \<Longrightarrow> contiguous gap (b @ [it])"
  by (auto simp: contiguous_def nth_append less_Suc_eq)

text \<open>
  What the loop makes of the rest of a partition: with the open block \<open>b\<close>, every file before it
  ended by \<open>m\<close>.
\<close>

lemma agg_loop_blocks:
  assumes "\<forall>f \<in> set (b @ its). partitionKey (ai_key f) = p \<and> 0 \<le> ai_max_ts_ns f \<and> ai_min_ts_ns f \<le> ai_max_ts_ns f"
    and "sorted (map ai_min_ts_ns (b @ its))" and "b \<noteq> []" and "contiguous gap b" and "0 \<le> gap"
    and "pm = Max (ai_max_ts_ns ` set b)"
  shows "\<exists>bs. agg_loop gap p (Some (session_of b)) pm its = map session_of bs \<and> concat bs = b @ its \<and>
     (\<forall>c \<in> set bs. c \<noteq> [] \<and> contiguous gap c) \<and> sorted_wrt (apart gap) bs"
  using assms
proof (induction its arbitrary: b pm)
  case Nil
  then show ?case by (auto intro!: exI [of _ "[b]"])
next
  case (Cons it its)
  have fin: "finite (ai_max_ts_ns ` set b)" "ai_max_ts_ns ` set b \<noteq> {}" using Cons.prems(3) by auto
  have pm: "\<forall>x \<in> set b. ai_max_ts_ns x \<le> pm" "\<exists>x \<in> set b. ai_max_ts_ns x = pm"
    using Cons.prems(6) fin Max_in [OF fin] by (auto simp del: Max_in)
  show ?case
  proof (cases "gap < ai_min_ts_ns it - pm")
    case True
    have mx: "max pm (ai_max_ts_ns it) = Max (ai_max_ts_ns ` set [it])"
      using True Cons.prems(1,5) by auto
    have "\<exists>bs. agg_loop gap p (Some (session_of [it])) (max pm (ai_max_ts_ns it)) its = map session_of bs \<and>
        concat bs = [it] @ its \<and> (\<forall>c \<in> set bs. c \<noteq> [] \<and> contiguous gap c) \<and> sorted_wrt (apart gap) bs"
      using Cons.prems mx by (intro Cons.IH) (auto simp: sorted_append)
    then obtain bs where bs: "agg_loop gap p (Some (session_of [it])) (max pm (ai_max_ts_ns it)) its = map session_of bs"
        "concat bs = it # its" "\<forall>c \<in> set bs. c \<noteq> [] \<and> contiguous gap c" "sorted_wrt (apart gap) bs" by auto
    have "apart gap b c" if "c \<in> set bs" for c
    proof -
      have "set c \<subseteq> set (it # its)" using that unfolding bs(2) [symmetric] by auto
      moreover have "ai_min_ts_ns it \<le> ai_min_ts_ns y" if "y \<in> set (it # its)" for y
        using Cons.prems(2) that by (auto simp: sorted_append)
      ultimately show ?thesis using True pm(1) unfolding apart_def by fastforce
    qed
    moreover have "agg_loop gap p (Some (session_of b)) pm (it # its) = session_of b # map session_of bs"
      using True bs(1) Cons.prems(1) by (simp add: session_of_one)
    ultimately show ?thesis using bs Cons.prems(3,4) by (auto intro!: exI [of _ "b # bs"])
  next
    case False
    have mx: "max pm (ai_max_ts_ns it) = Max (ai_max_ts_ns ` set (b @ [it]))"
      using Cons.prems(6) fin by (simp add: max.commute)
    have ct: "contiguous gap (b @ [it])"
      using False pm(2) Cons.prems(4) by (intro contiguous_snoc) (auto simp: not_less)
    have "\<exists>bs. agg_loop gap p (Some (session_of (b @ [it]))) (max pm (ai_max_ts_ns it)) its = map session_of bs \<and>
        concat bs = (b @ [it]) @ its \<and> (\<forall>c \<in> set bs. c \<noteq> [] \<and> contiguous gap c) \<and> sorted_wrt (apart gap) bs"
      using Cons.prems mx ct by (intro Cons.IH) auto
    then show ?thesis using False Cons.prems(3) by (simp add: session_of_snoc)
  qed
qed


lemma sorted_first_key: "sorted (map (\<lambda>x. (g x, k x)) xs) \<Longrightarrow> sorted (map g xs)"
  by (induction xs) (auto simp: less_eq_prod_def)

lemma partition_blocks:
  assumes "\<forall>f \<in> set items. partitionKey (ai_key f) = p \<and> 0 \<le> ai_max_ts_ns f \<and> ai_min_ts_ns f \<le> ai_max_ts_ns f"
    and "0 \<le> gap"
  shows "\<exists>bs. agg_loop gap p None 0 (agg_sort items) = map session_of bs \<and> concat bs = agg_sort items \<and>
     (\<forall>c \<in> set bs. c \<noteq> [] \<and> contiguous gap c) \<and> sorted_wrt (apart gap) bs"
proof (cases "agg_sort items")
  case Nil
  then show ?thesis by (auto intro!: exI [of _ "[]"])
next
  case (Cons it its)
  have f: "\<forall>f \<in> set ([it] @ its). partitionKey (ai_key f) = p \<and> 0 \<le> ai_max_ts_ns f \<and> ai_min_ts_ns f \<le> ai_max_ts_ns f"
    using assms(1) Cons by (metis append_Cons append_Nil agg_sort_def set_sort)
  have "sorted (map (\<lambda>f. (ai_min_ts_ns f, ai_key f)) (it # its))"
    unfolding Cons [symmetric] agg_sort_def by (rule sorted_sort_key)
  then have srt: "sorted (map ai_min_ts_ns ([it] @ its))"
    using sorted_first_key [of ai_min_ts_ns ai_key "it # its"] by simp
  have "agg_loop gap p None 0 (agg_sort items) = agg_loop gap p (Some (session_of [it])) (Max (ai_max_ts_ns ` set [it])) its"
    using f by (simp add: Cons session_of_one)
  with agg_loop_blocks [OF f srt _ contiguous_one assms(2) refl] Cons show ?thesis by simp
qed

definition bucket_put :: "AggInput \<Rightarrow> (string \<times> AggInput list) list \<Rightarrow> (string \<times> AggInput list) list" where
  "bucket_put f m = (let p = partitionKey (ai_key f) in
     map_put p (case map_of m p of None \<Rightarrow> [f] | Some fs \<Rightarrow> fs @ [f]) m)"

lemma by_partition_fold: "by_partition files = fold bucket_put files []"
  unfolding by_partition_def bucket_put_def by simp

lemma mset_map_put:
  "map_sorted m \<Longrightarrow> mset (concat (map snd (map_put k v m))) + mset (case map_of m k of None \<Rightarrow> [] | Some w \<Rightarrow> w) =
     mset v + mset (concat (map snd m))"
proof (induction m)
  case (Cons e m)
  obtain k' v' where e: "e = (k', v')" by (cases e)
  have "map_of m k = None" if "k \<le> k'"
    using Cons.prems that by (auto simp: e map_of_eq_None_iff)
  with Cons show ?case by (auto simp: e ac_simps split: option.splits)
qed simp

lemma by_partition_buckets:
  "map_sorted (by_partition files) \<and> mset (concat (map snd (by_partition files))) = mset files \<and>
   (\<forall>(p, items) \<in> set (by_partition files). \<forall>f \<in> set items. partitionKey (ai_key f) = p)"
proof (induction files rule: rev_induct)
  case Nil
  then show ?case by (simp add: by_partition_fold)
next
  case (snoc f files)
  let ?m = "by_partition files" and ?p = "partitionKey (ai_key f)"
  have m: "by_partition (files @ [f]) = bucket_put f ?m" by (simp add: by_partition_fold)
  have old: "\<forall>x \<in> set items. partitionKey (ai_key x) = q" if "map_of ?m q = Some items" for q items
    using snoc map_of_SomeD [OF that] by blast
  have new: "\<forall>x \<in> set (case map_of ?m ?p of None \<Rightarrow> [f] | Some fs \<Rightarrow> fs @ [f]). partitionKey (ai_key x) = ?p"
    using old by (auto split: option.split)
  have srt: "map_sorted (bucket_put f ?m)" using snoc by (simp add: bucket_put_def Let_def sorted_map_put)
  have "partitionKey (ai_key x) = q" if "(q, items) \<in> set (bucket_put f ?m)" "x \<in> set items" for q items x
  proof -
    have "map_of (bucket_put f ?m) q = Some items"
      using that(1) srt by (intro map_of_is_SomeI) (simp_all add: strict_sorted_iff)
    then show ?thesis using that(2) new old snoc
      by (auto simp: bucket_put_def Let_def map_of_map_put split: if_splits)
  qed
  moreover have "mset (concat (map snd (bucket_put f ?m))) = mset (files @ [f])"
    using mset_map_put [of ?m ?p "case map_of ?m ?p of None \<Rightarrow> [f] | Some fs \<Rightarrow> fs @ [f]"] snoc
    by (auto simp: bucket_put_def Let_def split: option.splits)
  ultimately show ?case unfolding m using srt by blast
qed


definition block_ok :: "int \<Rightarrow> AggInput list \<Rightarrow> bool" where
  "block_ok gap b \<longleftrightarrow> b \<noteq> [] \<and> contiguous gap b \<and> sorted (map (\<lambda>f. (ai_min_ts_ns f, ai_key f)) b) \<and>
     (\<forall>f \<in> set b. partitionKey (ai_key f) = partitionKey (ai_key (hd b)))"

definition blocks_apart :: "int \<Rightarrow> AggInput list \<Rightarrow> AggInput list \<Rightarrow> bool" where
  "blocks_apart gap b b' \<longleftrightarrow>
     (partitionKey (ai_key (hd b)) = partitionKey (ai_key (hd b')) \<longrightarrow> apart gap b b')"

lemma sorted_concat_part: "sorted (map k (concat bs)) \<Longrightarrow> b \<in> set bs \<Longrightarrow> sorted (map k b)"
  by (induction bs) (auto simp: sorted_append)

lemma all_blocks:
  assumes "\<forall>(p, items) \<in> set m. \<forall>f \<in> set items.
      partitionKey (ai_key f) = p \<and> 0 \<le> ai_max_ts_ns f \<and> ai_min_ts_ns f \<le> ai_max_ts_ns f"
    and "distinct (map fst m)" and "0 \<le> gap"
  shows "\<exists>bs. concat (map (\<lambda>(p, items). agg_loop gap p None 0 (agg_sort items)) m) = map session_of bs \<and>
     mset (concat bs) = mset (concat (map snd m)) \<and>
     (\<forall>b \<in> set bs. block_ok gap b \<and> partitionKey (ai_key (hd b)) \<in> fst ` set m) \<and> sorted_wrt (blocks_apart gap) bs"
  using assms
proof (induction m)
  case (Cons e m)
  obtain p items where e: "e = (p, items)" by (cases e)
  from Cons obtain cs where cs:
    "concat (map (\<lambda>(p, items). agg_loop gap p None 0 (agg_sort items)) m) = map session_of cs"
    "mset (concat cs) = mset (concat (map snd m))"
    "\<forall>b \<in> set cs. block_ok gap b \<and> partitionKey (ai_key (hd b)) \<in> fst ` set m" "sorted_wrt (blocks_apart gap) cs"
    by auto
  have items: "\<forall>f \<in> set items. partitionKey (ai_key f) = p \<and> 0 \<le> ai_max_ts_ns f \<and> ai_min_ts_ns f \<le> ai_max_ts_ns f"
    using Cons.prems(1) by (simp add: e)
  from partition_blocks [OF this Cons.prems(3)] obtain bs where bs:
    "agg_loop gap p None 0 (agg_sort items) = map session_of bs" "concat bs = agg_sort items"
    "\<forall>c \<in> set bs. c \<noteq> [] \<and> contiguous gap c" "sorted_wrt (apart gap) bs" by blast
  have part: "\<forall>f \<in> set b. partitionKey (ai_key f) = p" if "b \<in> set bs" for b
  proof -
    have "set b \<subseteq> set (concat bs)" using that by auto
    then show ?thesis unfolding bs(2) using items by (auto simp: agg_sort_def)
  qed
  have "sorted (map (\<lambda>f. (ai_min_ts_ns f, ai_key f)) (concat bs))" unfolding bs(2) agg_sort_def by (rule sorted_sort_key)
  then have ok: "block_ok gap b \<and> partitionKey (ai_key (hd b)) = p" if "b \<in> set bs" for b
    using that bs(3) part [OF that] sorted_concat_part unfolding block_ok_def by (metis hd_in_set)
  have "blocks_apart gap b c" if "b \<in> set bs" "c \<in> set cs" for b c
    using ok [OF that(1)] cs(3) that(2) Cons.prems(2) by (auto simp: blocks_apart_def e)
  moreover have "sorted_wrt (blocks_apart gap) bs"
    using bs(4) by (rule sorted_wrt_mono_rel [rotated]) (simp add: blocks_apart_def)
  moreover have "mset (concat bs) = mset items" by (simp add: bs(2) agg_sort_def)
  ultimately show ?case using bs(1) cs ok e
    by (intro exI [of _ "bs @ cs"]) (auto simp: sorted_wrt_append)
qed simp

text \<open>
  C35: The files are split into blocks, each of one partition, and the sessions are these blocks in
  order of their start: every file is in one session, under its own key. In a block every file
  starts within the gap threshold of the end of an earlier one; a file of another block of the
  same partition is further away than the threshold from every file of this one.
\<close>

theorem aggregate_sessions_correct:
  assumes "\<forall>f \<in> set files. 0 \<le> ai_min_ts_ns f \<and> ai_min_ts_ns f \<le> ai_max_ts_ns f" and "0 \<le> gap"
  shows "\<exists>bs. mset (concat bs) = mset files \<and>
     mset (aggregateSessions files gap) = mset (map session_of bs) \<and>
     sorted (map (\<lambda>s. (as_min_ts_ns s, as_partition s)) (aggregateSessions files gap)) \<and>
     (\<forall>b \<in> set bs. block_ok gap b) \<and> sorted_wrt (blocks_apart gap) bs"
proof -
  note m = by_partition_buckets [of files]
  have d: "distinct (map fst (by_partition files))" using m by (simp add: strict_sorted_iff)
  have sets: "set (concat (map snd (by_partition files))) = set files" using m by (metis mset_eq_setD)
  have "partitionKey (ai_key f) = p \<and> 0 \<le> ai_max_ts_ns f \<and> ai_min_ts_ns f \<le> ai_max_ts_ns f"
    if "(p, items) \<in> set (by_partition files)" "f \<in> set items" for p items f
  proof -
    have "f \<in> set files" using that unfolding sets [symmetric] by force
    moreover have "partitionKey (ai_key f) = p" using m that by blast
    ultimately show ?thesis using assms(1) by force
  qed
  then have "\<forall>(p, items) \<in> set (by_partition files). \<forall>f \<in> set items.
      partitionKey (ai_key f) = p \<and> 0 \<le> ai_max_ts_ns f \<and> ai_min_ts_ns f \<le> ai_max_ts_ns f" by blast
  from all_blocks [OF this d assms(2)] m show ?thesis
    unfolding aggregateSessions_def by (auto simp: sorted_sort_key)
qed

definition demo_files :: "AggInput list" where
  "demo_files = [\<lparr>ai_key = ''c=a/date=2/f2'', ai_min_ts_ns = 110, ai_max_ts_ns = 200\<rparr>,
     \<lparr>ai_key = ''c=a/date=1/f1'', ai_min_ts_ns = 10, ai_max_ts_ns = 100\<rparr>,
     \<lparr>ai_key = ''c=b/g'', ai_min_ts_ns = 50, ai_max_ts_ns = 60\<rparr>,
     \<lparr>ai_key = ''c=a/date=2/f3'', ai_min_ts_ns = 900, ai_max_ts_ns = 950\<rparr>]"

lemma demo_sessions:
  "map as_keys (aggregateSessions demo_files 20) =
     [[''c=a/date=1/f1'', ''c=a/date=2/f2''], [''c=b/g''], [''c=a/date=2/f3'']]"
  by code_simp

theorem aggregate_sessions_correct_witness:
  "\<exists>bs. map as_keys (aggregateSessions demo_files 20) =
       [[''c=a/date=1/f1'', ''c=a/date=2/f2''], [''c=b/g''], [''c=a/date=2/f3'']] \<and>
     mset (concat bs) = mset demo_files \<and> (\<forall>b \<in> set bs. block_ok 20 b)"
proof -
  have "\<forall>f \<in> set demo_files. 0 \<le> ai_min_ts_ns f \<and> ai_min_ts_ns f \<le> ai_max_ts_ns f"
    by (simp add: demo_files_def)
  from aggregate_sessions_correct [OF this, of 20] demo_sessions show ?thesis by auto
qed

text \<open>
  The latest end starts at 0 and not at the first file's end, so two runs before 1970 are never
  split, however far apart they are.
\<close>

lemma negative_times_not_split:
  "length (aggregateSessions [\<lparr>ai_key = ''a'', ai_min_ts_ns = -900, ai_max_ts_ns = -800\<rparr>,
     \<lparr>ai_key = ''b'', ai_min_ts_ns = -100, ai_max_ts_ns = -50\<rparr>] 20) = 1"
  by code_simp

text \<open>A negative threshold splits files with the same times.\<close>

lemma negative_gap_splits:
  "length (aggregateSessions [\<lparr>ai_key = ''a'', ai_min_ts_ns = 10, ai_max_ts_ns = 10\<rparr>,
     \<lparr>ai_key = ''b'', ai_min_ts_ns = 10, ai_max_ts_ns = 10\<rparr>] (-1)) = 2"
  by code_simp


section \<open>Stitched selection\<close>

record SelInput =
  si_name :: string
  si_min_ts_ns :: int
  si_max_ts_ns :: int
  si_size_bytes :: int
  si_message_count :: int

record StitchedSelection =
  ordered_names :: "string list"
  union_min_ts_ns :: int
  union_max_ts_ns :: int
  total_size_bytes :: int
  total_message_count :: int
  display_name :: string

definition sel_sort :: "SelInput list \<Rightarrow> SelInput list" where
  "sel_sort xs = sort_key (\<lambda>s. (si_min_ts_ns s, si_name s)) xs"

fun stitch_loop :: "SelInput list \<Rightarrow> bool \<Rightarrow> StitchedSelection \<Rightarrow> StitchedSelection" where
  "stitch_loop [] have_min out = out"
| "stitch_loop (s # ss) have_min out =
     (let earlier = (0 < si_min_ts_ns s \<and> (\<not> have_min \<or> si_min_ts_ns s < union_min_ts_ns out)) in
      stitch_loop ss (have_min \<or> earlier)
        (out\<lparr>ordered_names := ordered_names out @ [si_name s],
             union_min_ts_ns := (if earlier then si_min_ts_ns s else union_min_ts_ns out),
             union_max_ts_ns := (if union_max_ts_ns out < si_max_ts_ns s then si_max_ts_ns s else union_max_ts_ns out),
             total_size_bytes := total_size_bytes out + si_size_bytes s,
             total_message_count := total_message_count out + si_message_count s\<rparr>))"

definition empty_selection :: StitchedSelection where
  "empty_selection = \<lparr>ordered_names = [], union_min_ts_ns = 0, union_max_ts_ns = 0, total_size_bytes = 0,
     total_message_count = 0, display_name = []\<rparr>"

definition buildStitchedSelection :: "SelInput list \<Rightarrow> StitchedSelection" where
  "buildStitchedSelection selected =
     (if selected = [] then empty_selection
      else let ordered = sel_sort selected; out = stitch_loop ordered False empty_selection in
        out\<lparr>display_name :=
          (if length ordered = 1 then si_name (hd ordered)
           else si_name (hd ordered) @ '' (+'' @ nat_str (length ordered - 1) @ '' more)'')\<rparr>)"

definition single_quoted :: "string \<Rightarrow> string" where
  "single_quoted s = CHR 0x27 # s @ [CHR 0x27]"

fun overlap_scan :: "SelInput list \<Rightarrow> string" where
  "overlap_scan (a # b # ss) =
     (if si_min_ts_ns b < si_max_ts_ns a
      then ''files '' @ single_quoted (si_name a) @ '' and '' @ single_quoted (si_name b) @ '' overlap in time''
      else overlap_scan (b # ss))"
| "overlap_scan _ = []"

definition validateNonOverlapping :: "SelInput list \<Rightarrow> string" where
  "validateNonOverlapping selected = (if length selected < 2 then [] else overlap_scan (sel_sort selected))"



text \<open>The half-open ranges do not meet.\<close>

definition disjoint_ranges :: "SelInput \<Rightarrow> SelInput \<Rightarrow> bool" where
  "disjoint_ranges a b \<longleftrightarrow> si_max_ts_ns a \<le> si_min_ts_ns b \<or> si_max_ts_ns b \<le> si_min_ts_ns a"

lemma overlap_scan_adjacent:
  "overlap_scan ss = [] \<longleftrightarrow> (\<forall>i. Suc i < length ss \<longrightarrow> si_max_ts_ns (ss ! i) \<le> si_min_ts_ns (ss ! Suc i))"
  by (induction ss rule: overlap_scan.induct) (auto simp: nth_Cons not_less split: nat.splits)

lemma overlap_scan_pairwise:
  assumes "sorted (map si_min_ts_ns ss)" and "\<forall>s \<in> set ss. si_min_ts_ns s < si_max_ts_ns s"
  shows "overlap_scan ss = [] \<longleftrightarrow> sorted_wrt disjoint_ranges ss"
  using assms
proof (induction ss rule: overlap_scan.induct)
  case (1 a b ss)
  have "disjoint_ranges a c" if "si_max_ts_ns a \<le> si_min_ts_ns b" "c \<in> set (b # ss)" for c
    using that 1(2) by (auto simp: disjoint_ranges_def)
  moreover have "si_max_ts_ns a \<le> si_min_ts_ns b" if "disjoint_ranges a b"
    using that 1(2,3) by (auto simp: disjoint_ranges_def)
  ultimately show ?case using 1 by (auto simp: not_less)
qed auto

lemma sorted_wrt_perm:
  assumes "sorted_wrt R xs" and "mset xs = mset ys" and "\<And>x y. R x y \<Longrightarrow> R y x"
  shows "sorted_wrt R ys"
  using assms(1,2)
proof (induction ys arbitrary: xs)
  case (Cons y ys)
  then obtain as bs where xs: "xs = as @ y # bs" by (metis list.set_intros(1) mset_eq_setD split_list)
  with Cons.prems have "mset (as @ bs) = mset ys" "sorted_wrt R (as @ bs)" by (auto simp: sorted_wrt_append)
  moreover have "R y z" if "z \<in> set ys" for z
  proof -
    have "z \<in> set (as @ bs)" using that \<open>mset (as @ bs) = mset ys\<close> by (metis mset_eq_setD)
    then show ?thesis using Cons.prems(1) assms(3) by (auto simp: xs sorted_wrt_append)
  qed
  ultimately show ?case using Cons.IH by auto
qed simp

lemma overlap_exact:
  assumes "\<forall>s \<in> set xs. si_min_ts_ns s < si_max_ts_ns s"
  shows "validateNonOverlapping xs = [] \<longleftrightarrow> sorted_wrt disjoint_ranges xs"
proof -
  have srt: "sorted (map si_min_ts_ns (sel_sort xs))"
    unfolding sel_sort_def using sorted_first_key sorted_sort_key by metis
  have "sorted_wrt disjoint_ranges (sel_sort xs) \<longleftrightarrow> sorted_wrt disjoint_ranges xs"
    using sorted_wrt_perm [of disjoint_ranges "sel_sort xs" xs] sorted_wrt_perm [of disjoint_ranges xs "sel_sort xs"]
    by (auto simp: sel_sort_def disjoint_ranges_def)
  moreover have "sorted_wrt disjoint_ranges xs" if "length xs < 2"
    using that by (cases xs; cases "tl xs") auto
  ultimately show ?thesis
    using overlap_scan_pairwise [OF srt] assms by (auto simp: validateNonOverlapping_def sel_sort_def)
qed

text \<open>The loop, field by field.\<close>

lemma stitch_loop_fields:
  "ordered_names (stitch_loop ss hm out) = ordered_names out @ map si_name ss"
  "union_max_ts_ns (stitch_loop ss hm out) = fold max (map si_max_ts_ns ss) (union_max_ts_ns out)"
  "total_size_bytes (stitch_loop ss hm out) = total_size_bytes out + sum_list (map si_size_bytes ss)"
  "total_message_count (stitch_loop ss hm out) = total_message_count out + sum_list (map si_message_count ss)"
  "display_name (stitch_loop ss hm out) = display_name out"
  by (induction ss hm out rule: stitch_loop.induct) (simp_all add: Let_def max_def)

definition pos_min :: "int \<Rightarrow> int \<Rightarrow> int" where
  "pos_min t m = (if 0 < t \<and> (m = 0 \<or> t < m) then t else m)"

lemma stitch_loop_min:
  "(hm \<longleftrightarrow> union_min_ts_ns out \<noteq> 0) \<Longrightarrow>
   union_min_ts_ns (stitch_loop ss hm out) = fold pos_min (map si_min_ts_ns ss) (union_min_ts_ns out)"
proof (induction ss arbitrary: hm out)
  case (Cons s ss)
  have "(hm \<or> 0 < si_min_ts_ns s \<and> (\<not> hm \<or> si_min_ts_ns s < union_min_ts_ns out)) \<longleftrightarrow>
      pos_min (si_min_ts_ns s) (union_min_ts_ns out) \<noteq> 0"
    using Cons.prems by (auto simp: pos_min_def)
  moreover have "(if 0 < si_min_ts_ns s \<and> (\<not> hm \<or> si_min_ts_ns s < union_min_ts_ns out) then si_min_ts_ns s
      else union_min_ts_ns out) = pos_min (si_min_ts_ns s) (union_min_ts_ns out)"
    using Cons.prems by (auto simp: pos_min_def)
  ultimately show ?case by (simp add: Let_def Cons.IH del: if_split)
qed simp

lemma fold_pos_min:
  "0 \<le> m \<Longrightarrow> fold pos_min ts m = r \<Longrightarrow>
   (if r = 0 then m = 0 \<and> (\<forall>t \<in> set ts. t \<le> 0)
    else 0 < r \<and> r \<in> insert m (set ts) \<and> (m \<noteq> 0 \<longrightarrow> r \<le> m) \<and> (\<forall>t \<in> set ts. 0 < t \<longrightarrow> r \<le> t))"
proof (induction ts arbitrary: m)
  case (Cons t ts)
  have "0 \<le> pos_min t m" using Cons.prems(1) by (simp add: pos_min_def)
  from Cons.IH [OF this] Cons.prems show ?case by (auto simp: pos_min_def split: if_splits)
qed auto

lemma fold_max: "fold max ts m = Max (insert m (set ts))" for m :: int
  by (simp flip: Max.set_eq_fold)

lemma set_sel_sort [simp]: "set (sel_sort xs) = set xs" "mset (sel_sort xs) = mset xs" "length (sel_sort xs) = length xs"
  by (simp_all add: sel_sort_def)

lemma stitched_fields:
  assumes "xs \<noteq> []"
  shows "ordered_names (buildStitchedSelection xs) = map si_name (sel_sort xs)"
    and "union_min_ts_ns (buildStitchedSelection xs) = fold pos_min (map si_min_ts_ns (sel_sort xs)) 0"
    and "union_max_ts_ns (buildStitchedSelection xs) = Max (insert 0 (set (map si_max_ts_ns xs)))"
    and "total_size_bytes (buildStitchedSelection xs) = sum_mset (image_mset si_size_bytes (mset xs))"
    and "total_message_count (buildStitchedSelection xs) = sum_mset (image_mset si_message_count (mset xs))"
    and "display_name (buildStitchedSelection xs) = (let ns = map si_name (sel_sort xs) in
      if length ns = 1 then hd ns else hd ns @ '' (+'' @ nat_str (length ns - 1) @ '' more)'')"
proof -
  have ne: "sel_sort xs \<noteq> []" using assms by (metis set_empty set_sel_sort(1))
  have m: "mset (map g (sel_sort xs)) = image_mset g (mset xs)" for g :: "SelInput \<Rightarrow> int" by simp
  show "total_size_bytes (buildStitchedSelection xs) = sum_mset (image_mset si_size_bytes (mset xs))"
    "total_message_count (buildStitchedSelection xs) = sum_mset (image_mset si_message_count (mset xs))"
    using assms m by (simp_all add: buildStitchedSelection_def Let_def stitch_loop_fields empty_selection_def flip: sum_mset_sum_list)
qed (use assms in \<open>simp_all add: buildStitchedSelection_def Let_def stitch_loop_fields stitch_loop_min empty_selection_def
      fold_max hd_map flip: set_empty [of "sel_sort xs"]\<close>)

lemma sel_sort_keys: "map (\<lambda>s. (si_min_ts_ns s, si_name s)) (sel_sort xs) = sort (map (\<lambda>s. (si_min_ts_ns s, si_name s)) xs)"
  unfolding sel_sort_def by (intro properties_for_sort [symmetric]) simp_all

lemma stitched_order:
  assumes "mset ys = mset xs"
  shows "buildStitchedSelection ys = buildStitchedSelection xs"
proof (cases "xs = []")
  case True
  with assms show ?thesis by simp
next
  case False
  then have ys: "ys \<noteq> []" using assms by auto
  let ?k = "\<lambda>s. (si_min_ts_ns s, si_name s)"
  have "sort (map ?k ys) = sort (map ?k xs)"
    by (rule properties_for_sort) (simp_all add: assms)
  then have k: "map ?k (sel_sort ys) = map ?k (sel_sort xs)" unfolding sel_sort_keys .
  from arg_cong [OF k, of "map fst"] arg_cong [OF k, of "map snd"]
  have n: "map si_name (sel_sort ys) = map si_name (sel_sort xs)"
    "map si_min_ts_ns (sel_sort ys) = map si_min_ts_ns (sel_sort xs)" by (simp_all add: comp_def)
  have "set ys = set xs" using assms by (rule mset_eq_setD)
  with n show ?thesis
    by (intro StitchedSelection.equality) (simp_all add: stitched_fields False ys assms)
qed

text \<open>
  C36: A stitched selection is the same whatever the order the recordings were picked in, so the
  request it makes is too. It spans the recordings from the earliest known start to the latest end
  and adds up their sizes and message counts; the check on it reports an overlap exactly when two
  of the half-open ranges meet.
\<close>

theorem stitched_selection_correct:
  assumes "xs \<noteq> []" and "\<forall>s \<in> set xs. si_min_ts_ns s < si_max_ts_ns s"
  shows "(\<forall>ys. mset ys = mset xs \<longrightarrow> buildStitchedSelection ys = buildStitchedSelection xs) \<and>
     mset (ordered_names (buildStitchedSelection xs)) = mset (map si_name xs) \<and>
     (\<forall>s \<in> set xs. 0 < si_min_ts_ns s \<longrightarrow>
        0 < union_min_ts_ns (buildStitchedSelection xs) \<and> union_min_ts_ns (buildStitchedSelection xs) \<le> si_min_ts_ns s) \<and>
     (union_min_ts_ns (buildStitchedSelection xs) \<noteq> 0 \<longrightarrow> union_min_ts_ns (buildStitchedSelection xs) \<in> si_min_ts_ns ` set xs) \<and>
     union_max_ts_ns (buildStitchedSelection xs) = Max (insert 0 (set (map si_max_ts_ns xs))) \<and>
     total_size_bytes (buildStitchedSelection xs) = sum_list (map si_size_bytes xs) \<and>
     total_message_count (buildStitchedSelection xs) = sum_list (map si_message_count xs) \<and>
     (validateNonOverlapping xs = [] \<longleftrightarrow> sorted_wrt disjoint_ranges xs)"
proof -
  let ?m = "union_min_ts_ns (buildStitchedSelection xs)"
  have m: "if ?m = 0 then \<forall>s \<in> set xs. si_min_ts_ns s \<le> 0
      else 0 < ?m \<and> ?m \<in> insert 0 (si_min_ts_ns ` set xs) \<and> (\<forall>s \<in> set xs. 0 < si_min_ts_ns s \<longrightarrow> ?m \<le> si_min_ts_ns s)"
    using fold_pos_min [of 0 "map si_min_ts_ns (sel_sort xs)", OF _ refl] unfolding stitched_fields(2) [OF assms(1)]
    by (auto split: if_split_asm)
  have "0 < ?m \<and> ?m \<le> si_min_ts_ns s" if "s \<in> set xs" "0 < si_min_ts_ns s" for s
    using m that by (cases "?m = 0") auto
  moreover have "?m \<noteq> 0 \<Longrightarrow> ?m \<in> si_min_ts_ns ` set xs" using m by auto
  moreover have "\<forall>ys. mset ys = mset xs \<longrightarrow> buildStitchedSelection ys = buildStitchedSelection xs"
    using stitched_order by blast
  moreover have "mset (ordered_names (buildStitchedSelection xs)) = mset (map si_name xs)"
    "total_size_bytes (buildStitchedSelection xs) = sum_list (map si_size_bytes xs)"
    "total_message_count (buildStitchedSelection xs) = sum_list (map si_message_count xs)"
    by (simp_all add: stitched_fields assms(1)) (simp_all flip: sum_mset_sum_list)
  ultimately show ?thesis using overlap_exact [OF assms(2)] stitched_fields(3) [OF assms(1)] by blast
qed


definition demo_selection :: "SelInput list" where
  "demo_selection =
     [\<lparr>si_name = ''b'', si_min_ts_ns = 20, si_max_ts_ns = 30, si_size_bytes = 7, si_message_count = 2\<rparr>,
      \<lparr>si_name = ''a'', si_min_ts_ns = 10, si_max_ts_ns = 20, si_size_bytes = 5, si_message_count = 3\<rparr>]"

theorem stitched_selection_correct_witness:
  "demo_selection \<noteq> [] \<and> validateNonOverlapping demo_selection = [] \<and>
   display_name (buildStitchedSelection (rev demo_selection)) = ''a (+1 more)'' \<and>
   buildStitchedSelection (rev demo_selection) = buildStitchedSelection demo_selection \<and>
   union_max_ts_ns (buildStitchedSelection demo_selection) = 30"
proof -
  have ne: "demo_selection \<noteq> []" "\<forall>s \<in> set demo_selection. si_min_ts_ns s < si_max_ts_ns s"
    by (simp_all add: demo_selection_def)
  have "nat_str 1 = ''1''" by code_simp
  then have d: "display_name (buildStitchedSelection (rev demo_selection)) = ''a (+1 more)''"
    by (simp add: demo_selection_def buildStitchedSelection_def sel_sort_def Let_def empty_selection_def less_eq_prod_def)
  note c = stitched_selection_correct [OF ne]
  have "buildStitchedSelection (rev demo_selection) = buildStitchedSelection demo_selection"
    by (rule mp [OF spec [OF conjunct1 [OF c]]]) simp
  moreover from c have "validateNonOverlapping demo_selection = [] \<longleftrightarrow> sorted_wrt disjoint_ranges demo_selection" by (elim conjE)
  then have "validateNonOverlapping demo_selection = []" by (simp add: demo_selection_def disjoint_ranges_def)
  moreover from c have "union_max_ts_ns (buildStitchedSelection demo_selection) =
      Max (insert 0 (set (map si_max_ts_ns demo_selection)))" by (elim conjE)
  then have "union_max_ts_ns (buildStitchedSelection demo_selection) = 30" by (simp add: demo_selection_def)
  ultimately show ?thesis using d ne(1) by simp
qed

section \<open>Slider window\<close>

text \<open>The signed operations fail where the C++ ones overflow.\<close>

definition i64 :: "int \<Rightarrow> int option" where
  "i64 x = (if in_int64 x then Some x else None)"

record SliderWindow =
  sw_start_ns :: int
  sw_end_ns :: int
  has_window :: bool

definition slider_offset :: "int \<Rightarrow> int \<Rightarrow> int \<Rightarrow> int option" where
  "slider_offset span steps pos =
     do {
       let q = cdiv span steps;
       let r = cmod span steps;
       a \<leftarrow> i64 (q * pos);
       b \<leftarrow> i64 (r * pos);
       i64 (a + cdiv b steps)
     }"

definition sliderToWindow :: "int \<Rightarrow> int \<Rightarrow> int \<Rightarrow> int \<Rightarrow> int \<Rightarrow> SliderWindow option" where
  "sliderToWindow union_min union_max lower upper slider_steps =
     (if union_max \<le> union_min \<or> slider_steps \<le> 0 then Some \<lparr>sw_start_ns = 0, sw_end_ns = 0, has_window = False\<rparr>
      else do {
        span \<leftarrow> i64 (union_max - union_min);
        lo \<leftarrow> slider_offset span slider_steps lower;
        start \<leftarrow> i64 (union_min + lo);
        end \<leftarrow> (if slider_steps \<le> upper then i64 (union_max + 1)
          else do { hi \<leftarrow> slider_offset span slider_steps upper; i64 (union_min + hi) });
        Some \<lparr>sw_start_ns = start, sw_end_ns = end, has_window = True\<rparr>
      })"

lemma cdiv_pos: "0 \<le> a \<Longrightarrow> 0 < b \<Longrightarrow> cdiv a b = a div b"
  by (cases "a = 0") (auto simp: cdiv_def sgn_if)

lemma cmod_pos: "0 \<le> a \<Longrightarrow> 0 < b \<Longrightarrow> cmod a b = a mod b"
  by (simp add: cmod_def cdiv_pos minus_div_mult_eq_mod)

text \<open>The two-term form of the product quotient.\<close>

lemma muldiv_split:
  fixes span :: int
  assumes "0 < steps"
  shows "span * pos div steps = span div steps * pos + (span mod steps) * pos div steps"
proof -
  have "span * pos = (span div steps * pos) * steps + (span mod steps) * pos"
    by (metis (no_types, lifting) distrib_right div_mult_mod_eq mult.assoc mult.commute)
  then show ?thesis using assms by simp
qed

lemma slider_offset_exact:
  assumes "0 \<le> span" "span \<le> INT64_MAX" "0 < steps" "steps \<le> 2147483647" "0 \<le> pos" "pos \<le> steps"
  shows "slider_offset span steps pos = Some (span * pos div steps) \<and> 0 \<le> span * pos div steps \<and> span * pos div steps \<le> span"
proof -
  have q: "0 \<le> span div steps * pos" "span div steps * pos \<le> span"
    using assms by (simp_all add: pos_imp_zdiv_nonneg_iff)
      (metis (mono_tags, opaque_lifting) mult_left_mono div_mult_mod_eq le_add_same_cancel1 order_trans pos_imp_zdiv_nonneg_iff pos_mod_sign)
  have "span mod steps * pos \<le> steps * steps" using assms by (intro mult_mono) (simp_all add: less_imp_le)
  also have "\<dots> \<le> 2147483647 * 2147483647" using assms by (intro mult_mono) simp_all
  finally have r: "0 \<le> span mod steps * pos" "span mod steps * pos \<le> INT64_MAX" using assms by simp_all
  have r': "INT64_MIN \<le> span mod steps * pos" using r(1) by linarith
  have s: "span * pos div steps \<le> span"
  proof -
    have "span * pos div steps \<le> span * steps div steps" using assms by (intro zdiv_mono1 mult_left_mono) simp_all
    then show ?thesis using assms by simp
  qed
  have nn: "0 \<le> span * pos div steps" using assms by (simp add: pos_imp_zdiv_nonneg_iff)
  have "slider_offset span steps pos = Some (span * pos div steps)"
    unfolding slider_offset_def using assms q r r' s nn muldiv_split [OF assms(3), of span pos]
    by (simp add: cdiv_pos cmod_pos i64_def in_int64_def Let_def)
  with nn s show ?thesis by simp
qed

text \<open>
  C37: The slider computes its window without overflow for every span that fits 64 bits and every
  number of steps that fits an int: the handles are mapped to the exact rounded-down proportions
  of the span, the window lies within the union, starts no later than it ends when the handles
  are in order, and with the upper handle at its end it takes in the last nanosecond.
\<close>

theorem slider_window_exact:
  assumes "0 \<le> union_min" "union_min < union_max" "union_max < INT64_MAX"
    and "0 < steps" "steps \<le> 2147483647" and "0 \<le> lower" "lower \<le> upper" "upper \<le> steps"
  shows "\<exists>w. sliderToWindow union_min union_max lower upper steps = Some w \<and> has_window w \<and>
     sw_start_ns w = union_min + (union_max - union_min) * lower div steps \<and>
     sw_end_ns w = (if upper = steps then union_max + 1 else union_min + (union_max - union_min) * upper div steps) \<and>
     union_min \<le> sw_start_ns w \<and> sw_start_ns w \<le> sw_end_ns w \<and> sw_end_ns w \<le> union_max + 1"
proof -
  let ?s = "union_max - union_min"
  have span: "0 \<le> ?s" "?s \<le> INT64_MAX" using assms(1-3) by simp_all
  note lo = slider_offset_exact [OF span assms(4,5), of lower]
  note hi = slider_offset_exact [OF span assms(4,5), of upper]
  have mono: "?s * lower div steps \<le> ?s * upper div steps"
    using assms span by (intro zdiv_mono1 mult_left_mono) simp_all
  have "in_int64 ?s" "in_int64 (union_min + ?s * lower div steps)" "in_int64 (union_max + 1)"
    "in_int64 (union_min + ?s * upper div steps)"
    using assms span lo hi by (simp_all add: in_int64_def)
  then show ?thesis using assms lo hi mono by (auto simp: sliderToWindow_def i64_def)
qed

theorem slider_window_exact_witness:
  "\<exists>w. sliderToWindow 1780000000000000000 1780026000000000000 999999 1000000 1000000 = Some w \<and>
     sw_start_ns w = 1780025999974000000 \<and> sw_end_ns w = 1780026000000000001"
  using slider_window_exact [of 1780000000000000000 1780026000000000000 1000000 999999 1000000] by auto

end
