(* ===== verification/Catalog_View.thy ===== *)
theory Catalog_View
  imports Query_Parser
begin

text \<open>
  What the recording table shows. The fields in an object key (\<open>s3_key_fields.h\<close>,
  \<open>canonical_fields.h\<close>), the display name (\<open>seq_display.h\<close>, \<open>elide_name.h\<close>), the filters by name, date and
  query (\<open>name_filter.h\<close>, \<open>date_filter.h\<close>, \<open>query/query.h\<close>, \<open>query/engine.h\<close>, \<open>query_filter.h\<close>), the order of a
  column (\<open>table_sort.h\<close>) and the summary of a fetch (\<open>fetch_summary.h\<close>). The Lua interpreter and the
  regular expressions are parameters.
\<close>

section \<open>Fields of an object key\<close>

type_synonym Metadata = "(string \<times> string) list"
type_synonym Schema = "(string \<times> string list) list"

definition add_field :: "string \<Rightarrow> Metadata \<Rightarrow> Metadata" where
  "add_field seg out =
     (case find_char CHR ''='' seg of
        Some eq \<Rightarrow> if 0 < eq then map_emplace (take eq seg) (drop (eq + 1) seg) out else out
      | None \<Rightarrow> out)"

definition parseS3KeyFields :: "string \<Rightarrow> Metadata" where
  "parseS3KeyFields key =
     (let segs = split_on CHR ''/'' key; out = fold add_field (butlast segs) []; leaf = last segs in
      if leaf = [] then out else map_emplace ''filename'' leaf out)"

definition kBasicFilterKeys :: "(string \<times> string) list" where
  "kBasicFilterKeys =
     [(''customer'', ''Customer''), (''customer_site'', ''Site''), (''robot'', ''Robot''), (''source'', ''Source'')]"

definition canonicalFilterFields :: "string \<Rightarrow> Metadata" where
  "canonicalFilterFields s3_key =
     (let all = parseS3KeyFields s3_key in
      fold (\<lambda>(k, label) out. case map_of all k of None \<Rightarrow> out | Some v \<Rightarrow> map_emplace k v out) kBasicFilterKeys [])"

definition canonicalVocabularyKeys :: "string list" where
  "canonicalVocabularyKeys = map fst kBasicFilterKeys"

definition add_value :: "Metadata \<Rightarrow> string \<times> string \<Rightarrow> Schema \<Rightarrow> Schema" where
  "add_value all kv schema =
     (case map_of all (fst kv) of
        None \<Rightarrow> schema
      | Some v \<Rightarrow> map_put (fst kv) ((case map_of schema (fst kv) of None \<Rightarrow> [] | Some vs \<Rightarrow> vs) @ [v]) schema)"

definition add_vocabulary :: "string \<Rightarrow> Schema \<Rightarrow> Schema" where
  "add_vocabulary object_key schema = fold (add_value (parseS3KeyFields object_key)) kBasicFilterKeys schema"

definition buildCanonicalSchema :: "string list \<Rightarrow> Schema" where
  "buildCanonicalSchema object_keys =
     map (\<lambda>(k, vs). (k, sort_unique vs)) (fold add_vocabulary object_keys [])"

section \<open>Display names\<close>

definition shown_segment :: "string \<Rightarrow> string" where
  "shown_segment seg =
     (if starts_with seg ''date='' then []
      else (case find_char CHR ''='' seg of Some eq \<Rightarrow> if 0 < eq then drop (eq + 1) seg else seg | None \<Rightarrow> seg) @ ''/'')"

definition shortenSequenceName :: "string \<Rightarrow> string" where
  "shortenSequenceName key =
     (let segs = split_on CHR ''/'' key in concat (map shown_segment (butlast segs)) @ last segs)"

definition elideMiddle :: "string \<Rightarrow> nat \<Rightarrow> string" where
  "elideMiddle s max_len =
     (let max_len = (if max_len < 8 then 8 else max_len) in
      if length s \<le> max_len then s
      else let keep = max_len - 3; head = keep div 2; tail = keep - head in
        take head s @ ''...'' @ drop (length s - tail) s)"

definition baseName :: "string \<Rightarrow> string" where
  "baseName key = last (split_on CHR ''/'' key)"

section \<open>Name and date filters\<close>

definition equal_nocase :: "string \<Rightarrow> string \<Rightarrow> bool" where
  "equal_nocase a b \<longleftrightarrow> map to_lower a = map to_lower b"

fun containsCaseInsensitive :: "string \<Rightarrow> string \<Rightarrow> bool" where
  "containsCaseInsensitive [] needle \<longleftrightarrow> needle = []"
| "containsCaseInsensitive (c # cs) needle \<longleftrightarrow>
     equal_nocase (take (length needle) (c # cs)) needle \<or> containsCaseInsensitive cs needle"

text \<open>\<open>regex_search name pattern\<close> is undefined for a pattern that \<open>std::regex\<close> does not accept.\<close>

definition nameMatches :: "(string \<Rightarrow> string \<Rightarrow> bool option) \<Rightarrow> string \<Rightarrow> string \<Rightarrow> bool \<Rightarrow> bool" where
  "nameMatches regex_search name pattern regex =
     (if pattern = [] then True
      else if \<not> regex then containsCaseInsensitive name pattern
      else case regex_search name pattern of Some b \<Rightarrow> b | None \<Rightarrow> False)"

definition dateFilterMatches :: "int \<Rightarrow> int \<Rightarrow> int \<Rightarrow> int \<Rightarrow> bool" where
  "dateFilterMatches seq_min seq_max from_ns to_ns =
     (if seq_min = 0 \<and> seq_max = 0 then from_ns = 0 \<and> to_ns = 0
      else if from_ns \<noteq> 0 \<and> seq_max \<noteq> 0 \<and> seq_max < from_ns then False
      else if to_ns \<noteq> 0 \<and> seq_min \<noteq> 0 \<and> to_ns < seq_min then False
      else True)"

section \<open>Queries\<close>

record Query =
  q_source :: string
  q_tokens :: "Token list"
  q_ast :: "Expr option"
  q_complete :: bool
  q_parse_error :: string
  q_lua :: string

definition new_query :: "string \<Rightarrow> Query option" where
  "new_query source =
     (let ts = Lexer_tokenize source in
      map_option (\<lambda>r. \<lparr>q_source = source, q_tokens = ts, q_ast = pr_ast r, q_complete = pr_complete r,
          q_parse_error = pr_error r,
          q_lua = (if pr_complete r then (case pr_ast r of Some e \<Rightarrow> serialize e | None \<Rightarrow> []) else source)\<rparr>)
        (parse_query ts))"

definition token_at :: "Query \<Rightarrow> int \<Rightarrow> Token option" where
  "token_at q pos = find (\<lambda>t. int (tstart t) \<le> pos \<and> pos < int (tend t)) (q_tokens q)"

fun index_scan :: "nat \<Rightarrow> Token list \<Rightarrow> int \<Rightarrow> int" where
  "index_scan i [] pos = -1"
| "index_scan i (t # ts) pos = (if int (tstart t) \<le> pos \<and> pos < int (tend t) then int i else index_scan (i + 1) ts pos)"

definition token_index_at :: "Query \<Rightarrow> int \<Rightarrow> int" where
  "token_index_at q pos = index_scan 0 (q_tokens q) pos"

definition key_before :: "Query \<Rightarrow> int \<Rightarrow> string" where
  "key_before q token_index =
     (case find (\<lambda>t. ttype t = TKey) (rev (take (nat token_index) (q_tokens q))) of Some t \<Rightarrow> ttext t | None \<Rightarrow> [])"

fun last_started :: "Token option \<Rightarrow> Token list \<Rightarrow> int \<Rightarrow> Token option" where
  "last_started cur [] pos = cur"
| "last_started cur (t # ts) pos = (if int (tstart t) \<le> pos then last_started (Some t) ts pos else cur)"

definition expected_at :: "Query \<Rightarrow> int \<Rightarrow> TokenType" where
  "expected_at q pos =
     (case last_started None (q_tokens q) pos of
        None \<Rightarrow> TKey
      | Some t \<Rightarrow>
          if pos < int (tend t) then ttype t
          else (case ttype t of
              TKey \<Rightarrow> TOperator
            | TOperator \<Rightarrow> TValue
            | TValue \<Rightarrow> TAnd
            | TCloseParen \<Rightarrow> TAnd
            | _ \<Rightarrow> TKey))"

section \<open>The Lua engine\<close>

text \<open>A number is given by the text \<open>strtod\<close> read it from.\<close>

datatype lua_value = LuaNil | LuaBool bool | LuaNumber string | LuaString string | LuaOther string

type_synonym globals = "string \<Rightarrow> lua_value"

text \<open>
  The interpreter: the globals of a fresh state with the four libraries, what a chunk does to the
  globals and returns (nothing on an error), and the message of a chunk that does not compile.
\<close>

record Lua =
  lua_libraries :: globals
  safe_script :: "string \<Rightarrow> globals \<Rightarrow> lua_value option \<times> globals"
  lua_load :: "string \<Rightarrow> string option"

definition try_number :: "string \<Rightarrow> lua_value option" where
  "try_number s = (if s = [] then None else if strtod_consumes_all s then Some (LuaNumber s) else None)"

definition engine_set :: "Metadata \<Rightarrow> globals \<Rightarrow> globals" where
  "engine_set m g = fold (\<lambda>(k, v) g. g(k := (case try_number v of Some n \<Rightarrow> n | None \<Rightarrow> LuaString v))) m g"

definition engine_clear :: "Metadata \<Rightarrow> globals \<Rightarrow> globals" where
  "engine_clear m g = fold (\<lambda>(k, v) g. g(k := LuaNil)) m g"

fun truthy :: "lua_value \<Rightarrow> bool" where
  "truthy (LuaBool b) = b"
| "truthy LuaNil = False"
| "truthy _ = True"

definition lua_wrapped :: "string \<Rightarrow> string" where
  "lua_wrapped s = ''return ('' @ s @ '')''"

definition engine_eval :: "Lua \<Rightarrow> Query \<Rightarrow> globals \<Rightarrow> bool \<times> globals" where
  "engine_eval L q g =
     (if q_lua q = [] then (False, g)
      else let (r, g') = safe_script L (lua_wrapped (q_lua q)) g in
        (case r of None \<Rightarrow> False | Some v \<Rightarrow> truthy v, g'))"

text \<open>The same for a raw string.\<close>

definition engine_eval_text :: "Lua \<Rightarrow> string \<Rightarrow> globals \<Rightarrow> (bool \<times> globals) option" where
  "engine_eval_text L query_str g =
     (if query_str = [] then Some (False, g)
      else map_option (\<lambda>q.
        let lua_str = (if q_lua q = [] then query_str else q_lua q);
            (r, g') = safe_script L (lua_wrapped lua_str) g
        in (case r of None \<Rightarrow> False | Some v \<Rightarrow> truthy v, g')) (new_query query_str))"

record ValidationResult =
  vr_valid :: bool
  vr_error :: string
  vr_line :: int
  vr_column :: int

fun leading_digits :: "string \<Rightarrow> string" where
  "leading_digits s = takeWhile is_digit s"

text \<open>\<open>strtol\<close> in base ten; nothing when there are no digits.\<close>

definition strtol10 :: "string \<Rightarrow> int option" where
  "strtol10 s =
     (let t = dropWhile is_space s;
          neg = (t \<noteq> [] \<and> hd t = CHR ''-'');
          u = (if t \<noteq> [] \<and> (hd t = CHR ''-'' \<or> hd t = CHR ''+'') then tl t else t);
          d = leading_digits u
      in if d = [] then None
         else let n = int (digits_val 0 d) in Some (if neg then max INT64_MIN (- n) else min INT64_MAX n))"

definition to_int32 :: "int \<Rightarrow> int" where
  "to_int32 n = sint (word_of_int n :: 32 word)"

definition lua_parse_error :: "string \<Rightarrow> ValidationResult" where
  "lua_parse_error msg =
     (let r = \<lparr>vr_valid = False, vr_error = msg, vr_line = 0, vr_column = 0\<rparr> in
      case find_char CHR '':'' msg of
        None \<Rightarrow> r
      | Some c1 \<Rightarrow>
          (case find_char CHR '':'' (drop (c1 + 1) msg) of
             None \<Rightarrow> r
           | Some n \<Rightarrow>
               (case strtol10 (take n (drop (c1 + 1) msg)) of
                  None \<Rightarrow> r
                | Some line \<Rightarrow> r\<lparr>vr_line := to_int32 line\<rparr>)))"

definition validate :: "Lua \<Rightarrow> string \<Rightarrow> ValidationResult option" where
  "validate L query_str =
     (if query_str = [] then Some \<lparr>vr_valid = False, vr_error = ''empty query'', vr_line = 0, vr_column = 0\<rparr>
      else map_option (\<lambda>q.
        let lua_str = (if q_lua q = [] then query_str else q_lua q) in
        case lua_load L (lua_wrapped lua_str) of
          Some e \<Rightarrow> lua_parse_error e
        | None \<Rightarrow> \<lparr>vr_valid = True, vr_error = [], vr_line = 0, vr_column = 0\<rparr>) (new_query query_str))"

section \<open>Visible rows\<close>

record FilterSequence =
  fs_name :: string
  fs_min_ts_ns :: int
  fs_max_ts_ns :: int
  fs_metadata :: Metadata

record FilterParams =
  fp_name_filter :: string
  fp_name_regex :: bool
  fp_query_text :: string
  fp_date_from_ns :: int
  fp_date_to_ns :: int

fun visible_loop ::
  "(string \<Rightarrow> string \<Rightarrow> bool option) \<Rightarrow> Lua \<Rightarrow> FilterParams \<Rightarrow> Query option \<Rightarrow> nat \<Rightarrow> FilterSequence list \<Rightarrow> globals \<Rightarrow> nat list" where
  "visible_loop rx L p q i [] g = []"
| "visible_loop rx L p q i (s # ss) g =
     (if \<not> nameMatches rx (fs_name s) (fp_name_filter p) (fp_name_regex p) then visible_loop rx L p q (i + 1) ss g
      else if \<not> dateFilterMatches (fs_min_ts_ns s) (fs_max_ts_ns s) (fp_date_from_ns p) (fp_date_to_ns p)
        then visible_loop rx L p q (i + 1) ss g
      else (case q of
          None \<Rightarrow> i # visible_loop rx L p q (i + 1) ss g
        | Some query \<Rightarrow>
            (let (m, g1) = engine_eval L query (engine_set (fs_metadata s) g);
                 rest = visible_loop rx L p q (i + 1) ss (engine_clear (fs_metadata s) g1)
             in if m then i # rest else rest)))"

definition computeVisibleSequences ::
  "(string \<Rightarrow> string \<Rightarrow> bool option) \<Rightarrow> Lua \<Rightarrow> FilterSequence list \<Rightarrow> FilterParams \<Rightarrow> nat list option" where
  "computeVisibleSequences rx L sequences p =
     (if fp_query_text p = [] then Some (visible_loop rx L p None 0 sequences (lua_libraries L))
      else case validate L (fp_query_text p) of
          None \<Rightarrow> None
        | Some r \<Rightarrow>
            if vr_valid r
            then map_option (\<lambda>q. visible_loop rx L p (Some q) 0 sequences (lua_libraries L)) (new_query (fp_query_text p))
            else Some (visible_loop rx L p None 0 sequences (lua_libraries L)))"

section \<open>Order of a column\<close>

definition sortedPermutation :: "'k::linorder list \<Rightarrow> bool \<Rightarrow> nat list" where
  "sortedPermutation keys ascending =
     (if ascending then sort_key (\<lambda>i. keys ! i) [0..<length keys]
      else rev (sort_key (\<lambda>i. keys ! i) (rev [0..<length keys])))"

section \<open>Fetch summary\<close>

record FetchSummary =
  status_text :: string
  error_summary :: string
  should_close :: bool
  should_import :: bool

definition error_line :: "string \<times> int \<Rightarrow> string" where
  "error_line e = (if 1 < snd e then ''['' @ int_str (snd e) @ ''x] '' else []) @ fst e"

definition summarizeErrors :: "(string \<times> int) list \<Rightarrow> string" where
  "summarizeErrors error_counts =
     fold (\<lambda>e out. out @ (if out = [] then [] else [CHR 0x0A]) @ error_line e) error_counts []"

definition buildFetchSummary ::
  "int \<Rightarrow> int \<Rightarrow> int \<Rightarrow> bool \<Rightarrow> bool \<Rightarrow> (string \<times> int) list \<Rightarrow> bool \<Rightarrow> FetchSummary" where
  "buildFetchSummary fetch_total fetch_done fetch_failed imported_any cancelling error_counts mcap_save_failed =
     (let errors = summarizeErrors error_counts in
      if cancelling then
        \<lparr>status_text = ''Download cancelled'', error_summary = errors, should_close = False, should_import = False\<rparr>
      else if imported_any then
        \<lparr>status_text = ''Imported '' @ int_str (fetch_total - fetch_failed) @ ''/'' @ int_str fetch_total @ '' topics'',
         error_summary = errors, should_close = \<not> mcap_save_failed, should_import = True\<rparr>
      else
        \<lparr>status_text = ''Fetch failed: '' @ errors, error_summary = errors, should_close = False, should_import = False\<rparr>)"


section \<open>The vocabulary\<close>

lemma map_of_map_values: "map_of (map (\<lambda>(k, v). (k, f v)) m) k = map_option f (map_of m k)"
  by (induction m) auto

lemma fold_add_value:
  assumes "map_sorted m" and "distinct (map fst kvs)"
  shows "map_sorted (fold (add_value all) kvs m) \<and>
    map_of (fold (add_value all) kvs m) k =
      (if k \<in> fst ` set kvs then
         (case map_of all k of
            None \<Rightarrow> map_of m k
          | Some v \<Rightarrow> Some ((case map_of m k of None \<Rightarrow> [] | Some vs \<Rightarrow> vs) @ [v]))
       else map_of m k)"
  using assms
proof (induction kvs arbitrary: m)
  case (Cons kv kvs)
  have s: "map_sorted (add_value all kv m)"
    using Cons.prems(1) by (simp add: add_value_def sorted_map_put split: option.split)
  have "map_of (add_value all kv m) k =
      (if k = fst kv then
         (case map_of all k of None \<Rightarrow> map_of m k | Some v \<Rightarrow> Some ((case map_of m k of None \<Rightarrow> [] | Some vs \<Rightarrow> vs) @ [v]))
       else map_of m k)"
    using Cons.prems(1) by (simp add: add_value_def map_of_map_put split: option.split)
  moreover have "fst kv \<notin> fst ` set kvs" "distinct (map fst kvs)" using Cons.prems(2) by simp_all
  moreover note Cons.IH [OF s this(2)]
  ultimately show ?case by (auto split: option.splits)
qed simp

lemma distinct_basic_keys: "distinct (map fst kBasicFilterKeys)"
  by (simp add: kBasicFilterKeys_def)

lemma add_vocabulary_values:
  assumes "map_sorted m"
  shows "map_sorted (add_vocabulary key m)"
    and "map_of (add_vocabulary key m) k =
    (if k \<in> set canonicalVocabularyKeys then
       (case map_of (parseS3KeyFields key) k of
          None \<Rightarrow> map_of m k
        | Some v \<Rightarrow> Some ((case map_of m k of None \<Rightarrow> [] | Some vs \<Rightarrow> vs) @ [v]))
     else map_of m k)"
  using fold_add_value [OF assms distinct_basic_keys] by (simp_all add: add_vocabulary_def canonicalVocabularyKeys_def)

definition field_values :: "string \<Rightarrow> string list \<Rightarrow> string list" where
  "field_values k object_keys = List.map_filter (\<lambda>key. map_of (parseS3KeyFields key) k) object_keys"

lemma vocabulary_values:
  "map_sorted (fold add_vocabulary object_keys []) \<and>
   map_of (fold add_vocabulary object_keys []) k =
     (if k \<in> set canonicalVocabularyKeys \<and> field_values k object_keys \<noteq> [] then Some (field_values k object_keys) else None)"
proof (induction object_keys rule: rev_induct)
  case (snoc key object_keys)
  then show ?case
    by (auto simp: field_values_def map_filter_def add_vocabulary_values split: option.split)
qed (simp add: field_values_def map_filter_def)

lemma set_field_values: "set (field_values k keys) = {v. \<exists>key \<in> set keys. map_of (parseS3KeyFields key) k = Some v}"
  by (force simp: field_values_def map_filter_def)

text \<open>
  The vocabulary offers for each of the four canonical fields exactly the values that some
  object key has in that field, sorted and without repetition, and no other field; a field that no
  key has is absent.
\<close>

theorem canonical_schema_exact:
  "case map_of (buildCanonicalSchema object_keys) k of
     Some vs \<Rightarrow> k \<in> set canonicalVocabularyKeys \<and> sorted vs \<and> distinct vs \<and> vs \<noteq> [] \<and>
       set vs = {v. \<exists>key \<in> set object_keys. map_of (parseS3KeyFields key) k = Some v}
   | None \<Rightarrow> k \<notin> set canonicalVocabularyKeys \<or> (\<forall>key \<in> set object_keys. map_of (parseS3KeyFields key) k = None)"
proof -
  have m: "map_of (buildCanonicalSchema object_keys) k = map_option sort_unique (map_of (fold add_vocabulary object_keys []) k)"
    unfolding buildCanonicalSchema_def by (rule map_of_map_values)
  have none: "field_values k object_keys = [] \<longleftrightarrow> (\<forall>key \<in> set object_keys. map_of (parseS3KeyFields key) k = None)"
    by (simp add: field_values_def map_filter_def filter_empty_conv)
  have ne: "sort_unique (field_values k object_keys) = [] \<longleftrightarrow> field_values k object_keys = []"
    by (metis set_empty set_sort_unique)
  show ?thesis
  proof (cases "k \<in> set canonicalVocabularyKeys \<and> field_values k object_keys \<noteq> []")
    case True
    with m vocabulary_values [of object_keys k]
    have "map_of (buildCanonicalSchema object_keys) k = Some (sort_unique (field_values k object_keys))" by simp
    with True ne show ?thesis by (simp add: set_field_values sorted_sort_unique distinct_sort_unique)
  next
    case False
    with m vocabulary_values [of object_keys k] have "map_of (buildCanonicalSchema object_keys) k = None" by auto
    with False none show ?thesis by auto
  qed
qed

definition schema_demo :: "string list" where
  "schema_demo = [''robot=r2/a.mcap'', ''robot=r1/source=lidar/b.mcap'', ''robot=r2/c.mcap'']"

theorem canonical_schema_exact_witness:
  "map_of (buildCanonicalSchema schema_demo) ''robot'' = Some [''r1'', ''r2''] \<and>
   {v. \<exists>key \<in> set schema_demo. map_of (parseS3KeyFields key) ''robot'' = Some v} = {''r1'', ''r2''}"
proof -
  have s: "map_of (buildCanonicalSchema schema_demo) ''robot'' = Some [''r1'', ''r2'']" by code_simp
  from canonical_schema_exact [where object_keys = schema_demo and k = "''robot''"] s show ?thesis by simp
qed

section \<open>Display names\<close>

lemma split_on_append: "split_on c (s @ c # p) = split_on c s @ split_on c p"
proof (induction s)
  case (Cons x s)
  then show ?case by (cases "split_on c s") auto
qed simp

lemma last_split_append:
  assumes "q = [] \<or> last q = CHR ''/''" and "CHR ''/'' \<notin> set p"
  shows "last (split_on CHR ''/'' (q @ p)) = p"
proof (cases "q = []")
  case True
  with assms show ?thesis by (simp add: split_on_no_sep)
next
  case False
  then have "q @ p = butlast q @ CHR ''/'' # p" using assms(1) by (metis append.assoc append_Cons append_Nil append_butlast_last_id)
  then show ?thesis using assms(2) by (simp only: split_on_append) (simp add: split_on_no_sep)
qed

lemma shown_segment_end: "shown_segment seg = [] \<or> last (shown_segment seg) = CHR ''/''"
  by (simp add: shown_segment_def)

lemma concat_shown_end: "concat (map shown_segment segs) = [] \<or> last (concat (map shown_segment segs)) = CHR ''/''"
  using shown_segment_end by (induction segs) (auto simp: last_append)

text \<open>The file name survives the shortening.\<close>

lemma shorten_keeps_file: "baseName (shortenSequenceName key) = baseName key"
proof -
  have "CHR ''/'' \<notin> set (last (split_on CHR ''/'' key))" by (rule split_on_free [OF last_in_set]) simp
  then show ?thesis
    unfolding baseName_def shortenSequenceName_def Let_def by (rule last_split_append [OF concat_shown_end])
qed

lemma shorten_flat: "CHR ''/'' \<notin> set key \<Longrightarrow> shortenSequenceName key = key"
  by (simp add: shortenSequenceName_def split_on_no_sep)

lemma elide_length: "length (elideMiddle s n) \<le> max 8 n"
  by (auto simp: elideMiddle_def Let_def)

lemma elide_ends:
  "8 \<le> n \<Longrightarrow> n < length s \<Longrightarrow>
   elideMiddle s n = take ((n - 3) div 2) s @ ''...'' @ drop (length s - (n - 3 - (n - 3) div 2)) s"
  unfolding elideMiddle_def Let_def by simp


section \<open>Visible rows\<close>

text \<open>What a row shows on its own: the query is run on the libraries and the fields of the row.\<close>

definition row_globals :: "globals \<Rightarrow> Metadata \<Rightarrow> globals" where
  "row_globals g m k =
     (case map_of m k of
        None \<Rightarrow> g k
      | Some v \<Rightarrow> if v \<noteq> [] \<and> strtod_consumes_all v then LuaNumber v else LuaString v)"

definition row_matches :: "Lua \<Rightarrow> Query \<Rightarrow> Metadata \<Rightarrow> bool" where
  "row_matches L q m \<longleftrightarrow> q_lua q \<noteq> [] \<and>
     (\<exists>v. fst (safe_script L (lua_wrapped (q_lua q)) (row_globals (lua_libraries L) m)) = Some v \<and> truthy v)"

definition row_visible :: "(string \<Rightarrow> string \<Rightarrow> bool option) \<Rightarrow> Lua \<Rightarrow> FilterParams \<Rightarrow> Query option \<Rightarrow> FilterSequence \<Rightarrow> bool" where
  "row_visible rx L p q s \<longleftrightarrow>
     nameMatches rx (fs_name s) (fp_name_filter p) (fp_name_regex p) \<and>
     dateFilterMatches (fs_min_ts_ns s) (fs_max_ts_ns s) (fp_date_from_ns p) (fp_date_to_ns p) \<and>
     (case q of None \<Rightarrow> True | Some query \<Rightarrow> row_matches L query (fs_metadata s))"

text \<open>The query leaves the globals alone, and no field is named like a global of the libraries.\<close>

definition query_is_pure :: "Lua \<Rightarrow> Query \<Rightarrow> bool" where
  "query_is_pure L q \<longleftrightarrow> (\<forall>g. snd (safe_script L (lua_wrapped (q_lua q)) g) = g)"

definition fields_are_fresh :: "Lua \<Rightarrow> FilterSequence list \<Rightarrow> bool" where
  "fields_are_fresh L ss \<longleftrightarrow>
     (\<forall>s \<in> set ss. distinct (map fst (fs_metadata s)) \<and> (\<forall>k \<in> fst ` set (fs_metadata s). lua_libraries L k = LuaNil))"

lemma engine_set_row: "distinct (map fst m) \<Longrightarrow> engine_set m g = row_globals g m"
proof (induction m arbitrary: g)
  case (Cons e m)
  obtain k v where e: "e = (k, v)" by (cases e)
  let ?w = "if v \<noteq> [] \<and> strtod_consumes_all v then LuaNumber v else LuaString v"
  have "engine_set (e # m) g = row_globals (g(k := ?w)) m"
    using Cons by (simp add: engine_set_def e try_number_def)
  moreover have "map_of m k = None" using Cons.prems by (simp add: e map_of_eq_None_iff)
  then have "row_globals (g(k := ?w)) m = row_globals g (e # m)"
    by (auto simp: row_globals_def e fun_eq_iff split: option.split)
  ultimately show ?case by simp
qed (simp add: engine_set_def row_globals_def fun_eq_iff)

lemma engine_clear_row:
  assumes "\<forall>k \<in> fst ` set m. g k = LuaNil"
  shows "engine_clear m (row_globals g m) = g"
proof -
  have "engine_clear m h = (\<lambda>k. if k \<in> fst ` set m then LuaNil else h k)" for h
    unfolding engine_clear_def by (induction m arbitrary: h) (auto simp: fun_eq_iff)
  moreover have "row_globals g m k = g k" if "k \<notin> fst ` set m" for k
    using that by (simp add: row_globals_def map_of_eq_None_iff [symmetric])
  ultimately show ?thesis using assms by (auto simp: fun_eq_iff)
qed

lemma visible_loop_rows:
  assumes "fields_are_fresh L ss" and "\<And>query. q = Some query \<Longrightarrow> query_is_pure L query"
  shows "visible_loop rx L p q i ss (lua_libraries L) =
     map fst (filter (\<lambda>(j, s). row_visible rx L p q s) (enumerate i ss))"
  using assms(1)
proof (induction ss arbitrary: i)
  case (Cons s ss)
  let ?g = "lua_libraries L" and ?m = "fs_metadata s"
  have fresh: "distinct (map fst ?m)" "\<forall>k \<in> fst ` set ?m. ?g k = LuaNil" "fields_are_fresh L ss"
    using Cons.prems by (simp_all add: fields_are_fresh_def)
  have ev: "engine_eval L query (engine_set ?m ?g) = (row_matches L query ?m, row_globals ?g ?m)" if "q = Some query" for query
    using assms(2) [OF that]
    by (auto simp: engine_eval_def row_matches_def engine_set_row fresh(1) query_is_pure_def split_def split: option.split)
  show ?case
    using Cons.IH [OF fresh(3)] ev engine_clear_row [OF fresh(2)]
    by (cases q) (auto simp: row_visible_def)
qed simp

text \<open>
  C38: A row of the table is visible exactly when it passes the name filter, the date filter and
  the query, each judged on that row alone; an empty query and one that does not compile hide
  nothing. The rows come in the order of the table. The query is assumed not to assign to Lua
  globals, and the metadata of the rows not to use the names of the Lua libraries.
\<close>

theorem visible_rows_exact:
  assumes "fields_are_fresh L sequences"
    and "\<And>q. new_query (fp_query_text p) = Some q \<Longrightarrow> query_is_pure L q"
    and "computeVisibleSequences rx L sequences p = Some rows"
  shows "\<exists>q. rows = map fst (filter (\<lambda>(i, s). row_visible rx L p q s) (enumerate 0 sequences)) \<and>
     (q = None \<longleftrightarrow> fp_query_text p = [] \<or> (\<exists>r. validate L (fp_query_text p) = Some r \<and> \<not> vr_valid r)) \<and>
     (\<forall>query. q = Some query \<longrightarrow> new_query (fp_query_text p) = Some query)"
proof -
  let ?v = "validate L (fp_query_text p)"
  show ?thesis
  proof (cases "fp_query_text p = [] \<or> (\<exists>r. ?v = Some r \<and> \<not> vr_valid r)")
    case True
    then have "rows = visible_loop rx L p None 0 sequences (lua_libraries L)"
      using assms(3) by (auto simp: computeVisibleSequences_def split: if_splits)
    with visible_loop_rows [OF assms(1), of None rx p 0] True show ?thesis by (intro exI [of _ None]) simp
  next
    case False
    with assms(3) obtain q where q: "new_query (fp_query_text p) = Some q"
      and r: "rows = visible_loop rx L p (Some q) 0 sequences (lua_libraries L)"
      by (auto simp: computeVisibleSequences_def split: option.splits if_splits)
    with visible_loop_rows [OF assms(1), of "Some q" rx p 0] assms(2) [OF q] False show ?thesis
      by (intro exI [of _ "Some q"]) simp
  qed
qed

definition demo_row :: "string \<Rightarrow> Metadata \<Rightarrow> FilterSequence" where
  "demo_row n m = \<lparr>fs_name = n, fs_min_ts_ns = 5, fs_max_ts_ns = 9, fs_metadata = m\<rparr>"

definition demo_filter :: "string \<Rightarrow> FilterParams" where
  "demo_filter text = \<lparr>fp_name_filter = ''B'', fp_name_regex = False, fp_query_text = text, fp_date_from_ns = 6, fp_date_to_ns = 0\<rparr>"

text \<open>An interpreter for the one query that asks whether a global is not nil.\<close>

definition demo_lua :: "globals \<Rightarrow> string \<Rightarrow> Lua" where
  "demo_lua g name = \<lparr>lua_libraries = g, safe_script = (\<lambda>s g. (Some (LuaBool (g name \<noteq> LuaNil)), g)), lua_load = (\<lambda>s. None)\<rparr>"

definition demo_rows :: "FilterSequence list" where
  "demo_rows = [demo_row ''b1'' [(''robot'', ''r'')], demo_row ''b2'' [], demo_row ''c'' [(''robot'', ''r'')]]"

theorem visible_rows_exact_witness:
  "computeVisibleSequences (\<lambda>s p. None) (demo_lua (\<lambda>k. LuaNil) ''robot'') demo_rows (demo_filter ''robot'') = Some [0] \<and>
   (\<exists>q. [0] = map fst (filter (\<lambda>(i, s). row_visible (\<lambda>s p. None) (demo_lua (\<lambda>k. LuaNil) ''robot'') (demo_filter ''robot'') q s)
      (enumerate 0 demo_rows)) \<and> q \<noteq> None)"
proof -
  let ?L = "demo_lua (\<lambda>k. LuaNil) ''robot''"
  have c: "computeVisibleSequences (\<lambda>s p. None) ?L demo_rows (demo_filter ''robot'') = Some [0]" by code_simp
  have v: "map_option vr_valid (validate ?L (fp_query_text (demo_filter ''robot''))) = Some True" by code_simp
  have f: "fields_are_fresh ?L demo_rows" by (auto simp: fields_are_fresh_def demo_lua_def demo_rows_def demo_row_def)
  have pure: "query_is_pure ?L q" for q by (simp add: query_is_pure_def demo_lua_def)
  from visible_rows_exact [OF f pure c] obtain q
    where "[0] = map fst (filter (\<lambda>(i, s). row_visible (\<lambda>s p. None) ?L (demo_filter ''robot'') q s) (enumerate 0 demo_rows))"
      and "q = None \<longleftrightarrow> fp_query_text (demo_filter ''robot'') = [] \<or>
        (\<exists>r. validate ?L (fp_query_text (demo_filter ''robot'')) = Some r \<and> \<not> vr_valid r)"
    by (elim exE conjE)
  moreover have "q \<noteq> None" using v calculation(2) by (auto simp: demo_filter_def)
  ultimately show ?thesis using c by - (intro conjI exI)
qed

text \<open>
  A row with a field named like a library removes that library for the rows after it: the second
  row alone is visible, after the first one it is not.
\<close>

lemma clear_removes_library:
  "computeVisibleSequences (\<lambda>s p. None) (demo_lua (\<lambda>k. if k = ''math'' then LuaOther ''table'' else LuaNil) ''math'')
     [demo_row ''b2'' []] (demo_filter ''math'') = Some [0]"
  "computeVisibleSequences (\<lambda>s p. None) (demo_lua (\<lambda>k. if k = ''math'' then LuaOther ''table'' else LuaNil) ''math'')
     [demo_row ''b1'' [(''math'', ''x'')], demo_row ''b2'' []] (demo_filter ''math'') = Some [0]"
  by code_simp+

section \<open>Order of a column\<close>

text \<open>A stable order: by key, and by position where the keys agree.\<close>

definition stable_order :: "('k::linorder) list \<Rightarrow> bool \<Rightarrow> nat list \<Rightarrow> bool" where
  "stable_order keys asc perm \<longleftrightarrow>
     sorted_wrt (\<lambda>i j. (if asc then keys ! i < keys ! j else keys ! j < keys ! i) \<or> keys ! i = keys ! j \<and> i < j) perm"

lemma insort_stable:
  fixes f :: "'a \<Rightarrow> 'k::linorder"
  assumes "sorted_wrt (\<lambda>x y. f x < f y \<or> f x = f y \<and> R x y) ys" and "\<forall>y \<in> set ys. R x y"
  shows "sorted_wrt (\<lambda>x y. f x < f y \<or> f x = f y \<and> R x y) (insort_key f x ys)"
  using assms by (induction ys) (auto simp: set_insort_key)

lemma sort_stable:
  fixes f :: "'a \<Rightarrow> 'k::linorder"
  shows "sorted_wrt R xs \<Longrightarrow> sorted_wrt (\<lambda>x y. f x < f y \<or> f x = f y \<and> R x y) (sort_key f xs)"
  by (induction xs) (auto intro: insort_stable)

text \<open>
  Sorting a column yields every row once, in ascending or descending order of the column, and
  rows that agree in it keep the order of the table.
\<close>

theorem sorted_permutation_stable:
  "mset (sortedPermutation keys asc) = mset [0..<length keys] \<and> stable_order keys asc (sortedPermutation keys asc)"
proof (cases asc)
  case True
  then show ?thesis using sort_stable [of "(<)" "[0..<length keys]" "\<lambda>i. keys ! i"]
    by (simp add: sortedPermutation_def stable_order_def)
next
  case False
  have "sorted_wrt (\<lambda>i j. j < i) (rev [0..<length keys])" by (simp add: sorted_wrt_rev)
  from sort_stable [OF this, of "\<lambda>i. keys ! i"] False show ?thesis
    by (auto simp: sortedPermutation_def stable_order_def sorted_wrt_rev elim: sorted_wrt_mono_rel [rotated])
qed

end
