(* ===== verification/Time_Format.thy ===== *)
theory Time_Format
  imports Prelude "HOL-Library.Monad_Syntax" "HOL-Library.Code_Target_Nat"
begin

text \<open>
  \<open>core/time_format.cpp\<close>: the calendar computation, the formatting of times and durations and the
  parser of ISO 8601 times. The reference for the calendar is the day after a Gregorian date.
\<close>

section \<open>Calendar\<close>

definition kNsPerSecond :: int where "kNsPerSecond = 1000000000"
definition kSecondsPerDay :: int where "kSecondsPerDay = 24 * 60 * 60"

record UtcTime =
  utc_year :: int
  utc_month :: int
  utc_day :: int
  utc_hour :: int
  utc_minute :: int
  utc_second :: int

definition floorDiv :: "int \<Rightarrow> int \<Rightarrow> int" where
  "floorDiv value divisor =
     (let quotient = cdiv value divisor; remainder = cmod value divisor
      in if remainder < 0 then quotient - 1 else quotient)"

text \<open>Year of the era and day of the year, counted from 1 March, of a day of the era.\<close>

definition year_of_era :: "int \<Rightarrow> int" where
  "year_of_era doe = cdiv (doe - cdiv doe 1460 + cdiv doe 36524 - cdiv doe 146096) 365"

definition day_of_year :: "int \<Rightarrow> int" where
  "day_of_year doe =
     (let yoe = year_of_era doe in doe - (365 * yoe + cdiv yoe 4 - cdiv yoe 100))"

definition utcFromUnixSeconds :: "int \<Rightarrow> UtcTime" where
  "utcFromUnixSeconds secs =
     (let days = floorDiv secs kSecondsPerDay;
          seconds_of_day = secs - days * kSecondsPerDay;
          z = days + 719468;
          era = cdiv (if 0 \<le> z then z else z - 146096) 146097;
          doe = z - era * 146097;
          yoe = year_of_era doe;
          doy = day_of_year doe;
          mp = cdiv (5 * doy + 2) 153;
          month = mp + (if mp < 10 then 3 else -9)
      in \<lparr>utc_year = yoe + era * 400 + (if month \<le> 2 then 1 else 0),
          utc_month = month,
          utc_day = doy - cdiv (153 * mp + 2) 5 + 1,
          utc_hour = cdiv seconds_of_day 3600,
          utc_minute = cdiv (cmod seconds_of_day 3600) 60,
          utc_second = cmod seconds_of_day 60\<rparr>)"

definition utcFromNanoseconds :: "int \<Rightarrow> UtcTime" where
  "utcFromNanoseconds ts_ns = utcFromUnixSeconds (floorDiv ts_ns kNsPerSecond)"

definition daysFromCivil :: "int \<Rightarrow> int \<Rightarrow> int \<Rightarrow> int" where
  "daysFromCivil year month day =
     (let year = year - (if month \<le> 2 then 1 else 0);
          era = cdiv (if 0 \<le> year then year else year - 399) 400;
          yoe = year - era * 400;
          doy = cdiv (153 * (month + (if 2 < month then -3 else 9)) + 2) 5 + day - 1;
          doe = yoe * 365 + cdiv yoe 4 - cdiv yoe 100 + doy
      in era * 146097 + doe - 719468)"

section \<open>Formatting\<close>

text \<open>\<open>setfill('0') << setw(w)\<close>\<close>

definition padded :: "nat \<Rightarrow> int \<Rightarrow> string" where
  "padded w n = replicate (w - length (int_str n)) CHR ''0'' @ int_str n"

definition formatDate :: "UtcTime \<Rightarrow> char \<Rightarrow> bool \<Rightarrow> string" where
  "formatDate utc separator day_first =
     (if day_first then padded 2 (utc_day utc) @ [separator] @ padded 2 (utc_month utc) @ [separator] @ padded 4 (utc_year utc)
      else padded 4 (utc_year utc) @ [separator] @ padded 2 (utc_month utc) @ [separator] @ padded 2 (utc_day utc))"

definition formatTime :: "UtcTime \<Rightarrow> string" where
  "formatTime utc = padded 2 (utc_hour utc) @ '':'' @ padded 2 (utc_minute utc) @ '':'' @ padded 2 (utc_second utc)"

definition formatTimestamp :: "int \<Rightarrow> bool \<Rightarrow> string" where
  "formatTimestamp ts_ns long_format =
     (let utc = utcFromNanoseconds ts_ns in
      (if long_format then padded 2 (utc_day utc) @ ''/'' @ padded 2 (utc_month utc) @ '' '' else []) @
      padded 2 (utc_hour utc) @ '':'' @ padded 2 (utc_minute utc) @ '':'' @ padded 2 (utc_second utc))"

definition formatDuration :: "int \<Rightarrow> string" where
  "formatDuration duration_ns =
     (let total_secs = cdiv duration_ns 1000000000 in
      if total_secs < 60 then int_str total_secs @ ''s''
      else let days = cdiv total_secs 86400;
               hours = cdiv (cmod total_secs 86400) 3600;
               minutes = cdiv (cmod total_secs 3600) 60;
               secs = cmod total_secs 60
           in if 0 < days then int_str days @ ''d '' @ int_str hours @ ''h '' @ int_str minutes @ ''m''
              else if 0 < hours then int_str hours @ ''h '' @ int_str minutes @ ''m''
              else int_str minutes @ ''m '' @ int_str secs @ ''s'')"

definition needsLongFormat :: "int \<Rightarrow> bool" where
  "needsLongFormat span_ns \<longleftrightarrow> 24 * 3600 * 1000000000 < span_ns"

definition formatIso8601Utc :: "int \<Rightarrow> string" where
  "formatIso8601Utc ns = (let utc = utcFromNanoseconds ns in formatDate utc CHR ''-'' False @ ''T'' @ formatTime utc)"

definition formatDateTimeUtc :: "int \<Rightarrow> string" where
  "formatDateTimeUtc ns =
     (let utc = utcFromNanoseconds ns in formatDate utc CHR ''/'' True @ '' '' @ formatTime utc @ '' UTC'')"

definition formatDateDDMMYYYY :: "int \<Rightarrow> string" where
  "formatDateDDMMYYYY ns = formatDate (utcFromNanoseconds ns) CHR ''/'' True"

definition formatDateOnlyIso :: "int \<Rightarrow> string" where
  "formatDateOnlyIso ns = formatDate (utcFromNanoseconds ns) CHR ''-'' False"

section \<open>Parsing\<close>

definition parseFixedDigits :: "string \<Rightarrow> nat \<Rightarrow> nat \<Rightarrow> int option" where
  "parseFixedDigits text offset cnt =
     (if length text < offset + cnt then None
      else let ds = take cnt (drop offset text) in
        if list_all is_digit ds then Some (int (digits_val 0 ds)) else None)"

text \<open>The fraction: its value in nanoseconds and what follows it.\<close>

definition parse_fraction :: "string \<Rightarrow> (int \<times> string) option" where
  "parse_fraction rest =
     (if rest \<noteq> [] \<and> hd rest = CHR ''.'' then
        let ds = takeWhile is_digit (tl rest) in
        if 9 < length ds \<or> ds = [] then None
        else Some (int (digits_val 0 ds) * 10 ^ (9 - length ds), dropWhile is_digit (tl rest))
      else Some (0, rest))"

definition parse_zone :: "string \<Rightarrow> (int \<times> string) option" where
  "parse_zone rest =
     (if rest \<noteq> [] \<and> hd rest = CHR ''Z'' then Some (0, tl rest)
      else if rest \<noteq> [] \<and> (hd rest = CHR ''+'' \<or> hd rest = CHR ''-'') then
        do {
          let sign = (if hd rest = CHR ''-'' then -1 else 1);
          hours \<leftarrow> parseFixedDigits (tl rest) 0 2;
          let r = drop 2 (tl rest);
          let r = (if r \<noteq> [] \<and> hd r = CHR '':'' then tl r else r);
          (minutes, r) \<leftarrow> (if r \<noteq> [] \<and> is_digit (hd r)
            then map_option (\<lambda>m. (m, drop 2 r)) (parseFixedDigits r 0 2) else Some (0, r));
          if 23 < hours \<or> 59 < minutes then None
          else Some (sign * (hours * 3600 + minutes * 60), r)
        }
      else Some (0, rest))"

definition parseIso8601Utc :: "string \<Rightarrow> int option" where
  "parseIso8601Utc text =
     (if length text < 19 then None
      else if text ! 4 \<noteq> CHR ''-'' \<or> text ! 7 \<noteq> CHR ''-'' \<or> text ! 10 \<noteq> CHR ''T'' \<or>
          text ! 13 \<noteq> CHR '':'' \<or> text ! 16 \<noteq> CHR '':'' then None
      else do {
        year \<leftarrow> parseFixedDigits text 0 4;
        month \<leftarrow> parseFixedDigits text 5 2;
        day \<leftarrow> parseFixedDigits text 8 2;
        hour \<leftarrow> parseFixedDigits text 11 2;
        minute \<leftarrow> parseFixedDigits text 14 2;
        second \<leftarrow> parseFixedDigits text 17 2;
        if month < 1 \<or> 12 < month \<or> day < 1 \<or> 31 < day \<or> 23 < hour \<or> 59 < minute \<or> 59 < second then None
        else do {
          (fractional_ns, rest) \<leftarrow> parse_fraction (drop 19 text);
          (offset_seconds, rest) \<leftarrow> parse_zone rest;
          if rest \<noteq> [] then None
          else do {
            let days = daysFromCivil year month day;
            let normalized = utcFromUnixSeconds (days * kSecondsPerDay);
            if utc_year normalized \<noteq> year \<or> utc_month normalized \<noteq> month \<or> utc_day normalized \<noteq> day then None
            else do {
              let seconds = days * kSecondsPerDay + hour * 3600 + minute * 60 + second - offset_seconds;
              if cdiv INT64_MAX kNsPerSecond < seconds \<or> seconds < cdiv INT64_MIN kNsPerSecond then None
              else Some (seconds * kNsPerSecond + fractional_ns)
            }
          }
        }
      })"

section \<open>Days and dates\<close>

lemma cdiv_nonneg: "0 \<le> a \<Longrightarrow> 0 < b \<Longrightarrow> cdiv a b = a div b"
  by (cases "a = 0") (auto simp: cdiv_def sgn_if)

lemma cmod_nonneg: "0 \<le> a \<Longrightarrow> 0 < b \<Longrightarrow> cmod a b = a mod b"
  by (simp add: cmod_def cdiv_nonneg minus_div_mult_eq_mod)

lemma floorDiv_div:
  assumes "0 < d"
  shows "floorDiv v d = v div d"
proof (cases "0 \<le> v")
  case True
  moreover have "\<not> v mod d < 0" using pos_mod_sign [OF assms, of v] by linarith
  ultimately show ?thesis using assms by (simp add: floorDiv_def Let_def cdiv_nonneg cmod_nonneg)
next
  case False
  have c: "cdiv v d = - ((- v) div d)" using False assms by (simp add: cdiv_def sgn_if)
  have "cmod v d = - ((- v) - (- v) div d * d)" unfolding cmod_def c by (simp add: algebra_simps)
  then have r: "cmod v d = - ((- v) mod d)" by (simp only: minus_div_mult_eq_mod)
  have "cmod v d < 0 \<longleftrightarrow> (- v) mod d \<noteq> 0" unfolding r using assms pos_mod_sign [of d "- v"] by linarith
  then have "floorDiv v d = (if (- v) mod d = 0 then - ((- v) div d) else - ((- v) div d) - 1)"
    by (simp only: floorDiv_def Let_def c split: if_split) simp
  also have "\<dots> = v div d" using zdiv_zminus1_eq_if [of d "- v", unfolded minus_minus] assms by linarith
  finally show ?thesis .
qed

text \<open>The first day of a year of the era, counted from 1 March, and the number of its days.\<close>

definition era_start :: "int \<Rightarrow> int" where
  "era_start y = 365 * y + y div 4 - y div 100"

definition leap :: "int \<Rightarrow> bool" where
  "leap y \<longleftrightarrow> y mod 4 = 0 \<and> (y mod 100 \<noteq> 0 \<or> y mod 400 = 0)"

definition era_days :: "int \<Rightarrow> int" where
  "era_days y = (if leap (y + 1) then 366 else 365)"

definition scaled :: "int \<Rightarrow> int" where
  "scaled d = d - d div 1460 + d div 36524 - d div 146096"

lemma scaled_table:
  "\<forall>y \<in> set [0..399]. 365 * y \<le> scaled (era_start y) \<and> scaled (era_start y + era_days y - 1) < 365 * y + 365 \<and>
     era_start y + era_days y = (if y = 399 then 146097 else era_start (y + 1))"
  by code_simp


lemma year_table:
  assumes "0 \<le> y" and "y < 400"
  shows "365 * y \<le> scaled (era_start y)" and "scaled (era_start y + era_days y - 1) < 365 * y + 365"
    and "era_start y + era_days y = (if y = 399 then 146097 else era_start (y + 1))"
proof -
  have "y \<in> set [0..399]" using assms by simp
  note b = bspec [OF scaled_table this]
  show "365 * y \<le> scaled (era_start y)" by (rule conjunct1 [OF b])
  show "scaled (era_start y + era_days y - 1) < 365 * y + 365" by (rule conjunct1 [OF conjunct2 [OF b]])
  show "era_start y + era_days y = (if y = 399 then 146097 else era_start (y + 1))" by (rule conjunct2 [OF conjunct2 [OF b]])
qed

lemma scaled_step: "0 \<le> d \<Longrightarrow> scaled d \<le> scaled (d + 1)"
proof -
  assume "0 \<le> d"
  have "(d + 1) div 1460 \<le> d div 1460 + 1" "d div 36524 \<le> (d + 1) div 36524" by linarith+
  moreover have "(d + 1) div 146096 - d div 146096 \<le> (d + 1) div 36524 - d div 36524"
  proof -
    have e: "x div 146096 = x div 36524 div 4" for x :: int using zdiv_zmult2_eq [of 4 x 36524] by simp
    have "(d + 1) div 36524 = d div 36524 \<or> (d + 1) div 36524 = d div 36524 + 1" by linarith
    then show ?thesis unfolding e by (elim disjE) (simp, linarith)
  qed
  ultimately show ?thesis by (simp add: scaled_def)
qed

lemma scaled_mono: "0 \<le> a \<Longrightarrow> a \<le> b \<Longrightarrow> scaled a \<le> scaled b"
proof (induction "nat (b - a)" arbitrary: b)
  case (Suc n)
  then have "scaled a \<le> scaled (b - 1)" by (intro Suc.hyps) auto
  also have "\<dots> \<le> scaled b" using scaled_step [of "b - 1"] Suc by auto
  finally show ?case .
qed simp

text \<open>A year of the era and a day in it, decoded and encoded.\<close>

definition in_year :: "int \<Rightarrow> int \<Rightarrow> bool" where
  "in_year y n \<longleftrightarrow> 0 \<le> y \<and> y < 400 \<and> 0 \<le> n \<and> n < era_days y"

lemma era_start_nonneg: "0 \<le> y \<Longrightarrow> 0 \<le> era_start y"
  by (simp add: era_start_def)

lemma year_of_era_decode:
  assumes "in_year y n"
  shows "year_of_era (era_start y + n) = y" and "day_of_year (era_start y + n) = n"
proof -
  let ?d = "era_start y + n"
  have t: "365 * y \<le> scaled (era_start y)" "scaled (era_start y + era_days y - 1) < 365 * y + 365"
    using year_table(1,2) [of y] assms unfolding in_year_def by blast+
  have d: "0 \<le> ?d" "0 \<le> era_start y" using assms era_start_nonneg by (auto simp: in_year_def)
  have "scaled (era_start y) \<le> scaled ?d" "scaled ?d \<le> scaled (era_start y + era_days y - 1)"
    using assms d by (auto simp: in_year_def intro!: scaled_mono)
  with t have s: "365 * y \<le> scaled ?d" "scaled ?d < 365 * y + 365" by linarith+
  have "year_of_era ?d = scaled ?d div 365"
    using s assms d by (simp add: year_of_era_def cdiv_nonneg scaled_def in_year_def)
  then show y: "year_of_era ?d = y" using s by linarith
  show "day_of_year ?d = n"
    unfolding day_of_year_def y Let_def using assms by (simp add: era_start_def in_year_def cdiv_nonneg)
qed

lemma year_exists: "0 \<le> d \<Longrightarrow> d < 146097 \<Longrightarrow> \<exists>y n. in_year y n \<and> d = era_start y + n"
proof (induction "nat d" arbitrary: d)
  case 0
  then show ?case by (intro exI [of _ 0]) (auto simp: in_year_def era_start_def era_days_def)
next
  case (Suc k)
  then have "\<exists>y n. in_year y n \<and> d - 1 = era_start y + n" by (intro Suc.hyps) auto
  then obtain y n where yn: "in_year y n" "d = era_start y + n + 1" by force
  have t: "era_start y + era_days y = (if y = 399 then 146097 else era_start (y + 1))"
    using year_table(3) yn(1) unfolding in_year_def by blast
  show ?case
  proof (cases "n + 1 < era_days y")
    case True
    then show ?thesis using yn by (intro exI [of _ y] exI [of _ "n + 1"]) (auto simp: in_year_def)
  next
    case False
    then have "d = era_start y + era_days y" using yn by (auto simp: in_year_def)
    with t Suc.prems have "y \<noteq> 399" "d = era_start (y + 1)" by (auto split: if_splits)
    then show ?thesis using yn by (intro exI [of _ "y + 1"] exI [of _ 0]) (auto simp: in_year_def era_days_def)
  qed
qed


text \<open>Days within a year: the month counted from March, the day of the month.\<close>

definition month_of :: "int \<Rightarrow> int" where
  "month_of n = (let mp = (5 * n + 2) div 153 in mp + (if mp < 10 then 3 else -9))"

definition mday_of :: "int \<Rightarrow> int" where
  "mday_of n = n - (153 * ((5 * n + 2) div 153) + 2) div 5 + 1"

text \<open>The twelve months, from March: the first day of each in the year.\<close>

lemma month_cases:
  assumes "0 \<le> n" and "n < 366"
  obtains "n < 31" "month_of n = 3" "mday_of n = n + 1"
  | "31 \<le> n" "n < 61" "month_of n = 4" "mday_of n = n - 30"
  | "61 \<le> n" "n < 92" "month_of n = 5" "mday_of n = n - 60"
  | "92 \<le> n" "n < 122" "month_of n = 6" "mday_of n = n - 91"
  | "122 \<le> n" "n < 153" "month_of n = 7" "mday_of n = n - 121"
  | "153 \<le> n" "n < 184" "month_of n = 8" "mday_of n = n - 152"
  | "184 \<le> n" "n < 214" "month_of n = 9" "mday_of n = n - 183"
  | "214 \<le> n" "n < 245" "month_of n = 10" "mday_of n = n - 213"
  | "245 \<le> n" "n < 275" "month_of n = 11" "mday_of n = n - 244"
  | "275 \<le> n" "n < 306" "month_of n = 12" "mday_of n = n - 274"
  | "306 \<le> n" "n < 337" "month_of n = 1" "mday_of n = n - 305"
  | "337 \<le> n" "month_of n = 2" "mday_of n = n - 336"
proof -
  define m where "m = (5 * n + 2) div 153"
  have b: "153 * m \<le> 5 * n + 2" "5 * n + 2 < 153 * m + 153" unfolding m_def by linarith+
  have "0 \<le> m" "m \<le> 11" using assms b by linarith+
  then have "m = 0 \<or> m = 1 \<or> m = 2 \<or> m = 3 \<or> m = 4 \<or> m = 5 \<or> m = 6 \<or> m = 7 \<or> m = 8 \<or> m = 9 \<or> m = 10 \<or> m = 11"
    by presburger
  then show thesis
    using b assms that by (elim disjE) (simp_all add: month_of_def mday_of_def m_def [symmetric])
qed

lemma month_eq:
  assumes "0 \<le> n" and "n < 366"
  shows "month_of n = (if n < 31 then 3 else if n < 61 then 4 else if n < 92 then 5 else if n < 122 then 6 else if n < 153 then 7
      else if n < 184 then 8 else if n < 214 then 9 else if n < 245 then 10 else if n < 275 then 11 else if n < 306 then 12
      else if n < 337 then 1 else 2)"
    and "mday_of n = (if n < 31 then n + 1 else if n < 61 then n - 30 else if n < 92 then n - 60 else if n < 122 then n - 91
      else if n < 153 then n - 121 else if n < 184 then n - 152 else if n < 214 then n - 183 else if n < 245 then n - 213
      else if n < 275 then n - 244 else if n < 306 then n - 274 else if n < 337 then n - 305 else n - 336)"
  by (rule month_cases [OF assms]; simp)+

lemma month_facts:
  assumes "0 \<le> n" and "n < 366"
  shows "1 \<le> month_of n \<and> month_of n \<le> 12 \<and> 1 \<le> mday_of n \<and> mday_of n \<le> 31 \<and>
    (153 * (month_of n + (if 2 < month_of n then -3 else 9)) + 2) div 5 + mday_of n - 1 = n"
  using assms by (rule month_cases) (use assms in simp_all)

text \<open>The date of a day number, by the era, the year of the era and the day of the year.\<close>

lemma utc_of_day:
  assumes "in_year y n" and "days = era * 146097 + era_start y + n - 719468" and "0 \<le> s" and "s < kSecondsPerDay"
  shows "utcFromUnixSeconds (days * kSecondsPerDay + s) =
    \<lparr>utc_year = y + era * 400 + (if month_of n \<le> 2 then 1 else 0), utc_month = month_of n, utc_day = mday_of n,
     utc_hour = s div 3600, utc_minute = s mod 3600 div 60, utc_second = s mod 60\<rparr>"
proof -
  have n: "0 \<le> n" "n < 366" using assms(1) by (auto simp: in_year_def era_days_def split: if_splits)
  have fd: "floorDiv (days * kSecondsPerDay + s) kSecondsPerDay = days"
    using assms(3,4) by (simp add: floorDiv_div kSecondsPerDay_def)
  let ?z = "days + 719468" and ?doe = "era_start y + n"
  have y: "0 \<le> y" "y < 400" "n < era_days y" using assms(1) by (simp_all add: in_year_def)
  have "era_start y + era_days y \<le> 146097"
  proof -
    have "era_start (y + 1) \<le> 146097" if "y \<noteq> 399" using y that by (simp add: era_start_def)
    then show ?thesis using year_table(3) [OF y(1,2)] by auto
  qed
  then have doe: "0 \<le> ?doe" "?doe < 146097" using y n era_start_nonneg by auto
  have "cdiv (if 0 \<le> ?z then ?z else ?z - 146096) 146097 = ?z div 146097"
  proof (cases "0 \<le> ?z")
    case True
    then show ?thesis by (simp add: cdiv_nonneg)
  next
    case False
    then have "cdiv (?z - 146096) 146097 = - ((146096 - ?z) div 146097)" by (simp add: cdiv_def sgn_if)
    also have "\<dots> = ?z div 146097" by linarith
    finally show ?thesis using False by simp
  qed
  moreover have "?z div 146097 = era" unfolding assms(2) using doe by linarith
  ultimately have era: "cdiv (if 0 \<le> ?z then ?z else ?z - 146096) 146097 = era" by simp
  have z: "?z - era * 146097 = ?doe" by (simp add: assms(2))
  have md: "cdiv (5 * n + 2) 153 = (5 * n + 2) div 153" using n by (simp add: cdiv_nonneg)
  have dd: "cdiv (153 * ((5 * n + 2) div 153) + 2) 5 = (153 * ((5 * n + 2) div 153) + 2) div 5" using n by (simp add: cdiv_nonneg)
  have hms: "cdiv s 3600 = s div 3600" "cmod s 3600 = s mod 3600" "cmod s 60 = s mod 60" "cdiv (s mod 3600) 60 = s mod 3600 div 60"
    using assms(3) by (simp_all add: cdiv_nonneg cmod_nonneg)
  show ?thesis
    unfolding utcFromUnixSeconds_def fd Let_def era z year_of_era_decode [OF assms(1)] md dd
    by (simp add: hms month_of_def mday_of_def Let_def)
qed

lemma day_exists:
  "\<exists>era y n. in_year y n \<and> days = era * 146097 + era_start y + n - 719468"
proof -
  let ?z = "days + 719468"
  have "0 \<le> ?z mod 146097" "?z mod 146097 < 146097" by simp_all
  from year_exists [OF this] obtain y n where "in_year y n" "?z mod 146097 = era_start y + n" by blast
  moreover have "?z = ?z div 146097 * 146097 + ?z mod 146097" by simp
  ultimately show ?thesis by (intro exI [of _ "?z div 146097"] exI [of _ y] exI [of _ n]) linarith
qed


lemma daysFromCivil_inverse:
  assumes "in_year y n"
  shows "daysFromCivil (y + era * 400 + (if month_of n \<le> 2 then 1 else 0)) (month_of n) (mday_of n) =
    era * 146097 + era_start y + n - 719468"
proof -
  have n: "0 \<le> n" "n < 366" using assms by (auto simp: in_year_def era_days_def split: if_splits)
  have y: "0 \<le> y" "y < 400" using assms by (simp_all add: in_year_def)
  note m = month_facts [OF n]
  let ?Y = "y + era * 400"
  have Y: "?Y + (if month_of n \<le> 2 then 1 else 0) - (if month_of n \<le> 2 then 1 else 0) = ?Y" by simp
  have "cdiv (if 0 \<le> ?Y then ?Y else ?Y - 399) 400 = ?Y div 400"
  proof (cases "0 \<le> ?Y")
    case True
    then show ?thesis by (simp add: cdiv_nonneg)
  next
    case False
    then have "cdiv (?Y - 399) 400 = - ((399 - ?Y) div 400)" by (simp add: cdiv_def sgn_if)
    also have "\<dots> = ?Y div 400" by linarith
    finally show ?thesis using False by simp
  qed
  moreover have "?Y div 400 = era" using y by linarith
  ultimately have e: "cdiv (if 0 \<le> ?Y then ?Y else ?Y - 399) 400 = era" by simp
  have p: "0 \<le> 153 * (month_of n + (if 2 < month_of n then - 3 else 9)) + 2" using m by (auto split: if_splits)
  have "cdiv (153 * (month_of n + (if 2 < month_of n then - 3 else 9)) + 2) 5 + mday_of n - 1 = n"
    unfolding cdiv_nonneg [OF p zero_less_numeral] using m by blast
  then show ?thesis
    unfolding daysFromCivil_def Let_def Y e using y by (simp add: cdiv_nonneg era_start_def)
qed

definition civil :: "int \<Rightarrow> int \<times> int \<times> int" where
  "civil days = (let u = utcFromUnixSeconds (days * kSecondsPerDay) in (utc_year u, utc_month u, utc_day u))"

lemma civil_of:
  "in_year y n \<Longrightarrow> civil (era * 146097 + era_start y + n - 719468) =
     (y + era * 400 + (if month_of n \<le> 2 then 1 else 0), month_of n, mday_of n)"
  using utc_of_day [of y n _ era 0] by (simp add: civil_def kSecondsPerDay_def)

text \<open>Encoding a date inverts the decoding.\<close>

lemma daysFromCivil_civil: "civil days = (y, m, d) \<Longrightarrow> daysFromCivil y m d = days"
proof -
  assume c: "civil days = (y, m, d)"
  obtain era yoe n where r: "in_year yoe n" "days = era * 146097 + era_start yoe + n - 719468"
    using day_exists by blast
  with c civil_of [OF r(1), of era] daysFromCivil_inverse [OF r(1), of era] show ?thesis by auto
qed

text \<open>The reference: the day after a date of the Gregorian calendar.\<close>

definition month_length :: "int \<Rightarrow> int \<Rightarrow> int" where
  "month_length y m =
     (if m = 2 then (if leap y then 29 else 28) else if m \<in> {4, 6, 9, 11} then 30 else 31)"

definition next_day :: "int \<times> int \<times> int \<Rightarrow> int \<times> int \<times> int" where
  "next_day = (\<lambda>(y, m, d).
     if d < month_length y m then (y, m, d + 1) else if m < 12 then (y, m + 1, 1) else (y + 1, 1, 1))"

lemma leap_era: "leap (y + 400 * k) = leap y"
proof -
  have "(y + 400 * k) mod 4 = y mod 4" "(y + 400 * k) mod 100 = y mod 100" "(y + 400 * k) mod 400 = y mod 400"
    using mod_mult_self2 [of y 4 "100 * k"] mod_mult_self2 [of y 100 "4 * k"] mod_mult_self2 [of y 400 k] by simp_all
  then show ?thesis by (simp add: leap_def)
qed

lemma next_day_in_year:
  assumes "0 \<le> n" and "n < 364"
  shows "next_day (y + (if month_of n \<le> 2 then 1 else 0), month_of n, mday_of n) =
    (y + (if month_of (n + 1) \<le> 2 then 1 else 0), month_of (n + 1), mday_of (n + 1))"
proof -
  have n: "0 \<le> n" "n < 366" "0 \<le> n + 1" "n + 1 < 366" using assms by simp_all
  show ?thesis
    unfolding month_eq [OF n(3,4)]
    by (rule month_cases [OF n(1,2)]) (use assms in \<open>simp_all add: next_day_def month_length_def\<close>)
qed


text \<open>
  C39: The calendar computation is the Gregorian calendar: day 0 is 1 January 1970, the next day
  number is the next date, and from a date the encoder gets back to its day number. The hours,
  minutes and seconds are those of the rest of the day.
\<close>

theorem civil_is_gregorian:
  "civil 0 = (1970, 1, 1) \<and> civil (days + 1) = next_day (civil days) \<and>
   (case civil days of (y, m, d) \<Rightarrow> daysFromCivil y m d = days)"
proof (intro conjI)
  show "case civil days of (y, m, d) \<Rightarrow> daysFromCivil y m d = days" by (auto intro: daysFromCivil_civil)
  have "in_year 369 306" by (simp add: in_year_def era_days_def leap_def)
  from civil_of [OF this, of 4] show "civil 0 = (1970, 1, 1)" by (simp add: era_start_def month_eq)
  obtain era y n where r: "in_year y n" "days = era * 146097 + era_start y + n - 719468"
    using day_exists by blast
  have n: "0 \<le> n" "n < era_days y" "0 \<le> y" "y < 400" using r(1) by (simp_all add: in_year_def)
  have n366: "n < 366" using n(2) by (simp add: era_days_def split: if_splits)
  note c = civil_of [OF r(1), of era, folded r(2)]
  have lp: "leap (y + era * 400 + 1) \<longleftrightarrow> era_days y = 366"
    using leap_era [of "y + 1" era] by (simp add: era_days_def algebra_simps)
  show "civil (days + 1) = next_day (civil days)"
  proof (cases "n + 1 < era_days y")
    case True
    have "in_year y (n + 1)" using r(1) True by (simp add: in_year_def)
    from civil_of [OF this, of era]
    have c1: "civil (days + 1) = (y + era * 400 + (if month_of (n + 1) \<le> 2 then 1 else 0), month_of (n + 1), mday_of (n + 1))"
      by (simp add: r(2) algebra_simps)
    show ?thesis
    proof (cases "n < 364")
      case t: True
      show ?thesis unfolding c c1 by (rule next_day_in_year [symmetric, OF n(1) t])
    next
      case False
      with True have "n = 364" "era_days y = 366" by (auto simp: era_days_def split: if_splits)
      then show ?thesis using lp unfolding c c1 by (simp add: month_eq next_day_def month_length_def)
    qed
  next
    case False
    then have e: "n + 1 = era_days y" using n by simp
    have c1: "civil (days + 1) = (y + 1 + era * 400, 3, 1)"
    proof (cases "y = 399")
      case True
      have "in_year 0 0" by (simp add: in_year_def era_days_def)
      from civil_of [OF this, of "era + 1"] show ?thesis
        using e year_table(3) [OF n(3,4)] True by (simp add: r(2) month_eq era_start_def algebra_simps)
    next
      case y: False
      have "in_year (y + 1) 0" using n y by (simp add: in_year_def era_days_def)
      have d: "days + 1 = era * 146097 + era_start (y + 1) + 0 - 719468"
        using e year_table(3) [OF n(3,4)] y r(2) by simp
      show ?thesis unfolding d civil_of [OF \<open>in_year (y + 1) 0\<close>] by (simp add: month_eq)
    qed
    have "n = 364 \<or> n = 365" using e by (auto simp: era_days_def split: if_splits)
    then show ?thesis using lp e unfolding c c1 by (auto simp: month_eq next_day_def month_length_def)
  qed
qed


section \<open>Round trip\<close>

lemma padded_small:
  assumes "0 \<le> n" and "n < 10 ^ w" and "0 < w"
  shows "length (padded w n) = w" and "list_all is_digit (padded w n)" and "digits_val 0 (padded w n) = nat n"
proof -
  have i: "int_str n = nat_str (nat n)" using assms(1) by (simp add: int_str_def)
  have "nat n < 10 ^ w" using assms by (simp add: nat_less_iff)
  then have l: "length (nat_str (nat n)) \<le> w" using nat_str_length assms(3) by blast
  then show "length (padded w n) = w" by (simp add: padded_def i)
  have z: "digits_val 0 (replicate k CHR ''0'') = 0" for k
    by (induction k) (simp_all add: digit_val_def char_val_def)
  show "digits_val 0 (padded w n) = nat n" by (simp add: padded_def i digits_val_append z digits_val_nat_str)
  show "list_all is_digit (padded w n)"
    by (auto simp: padded_def i list_all_iff is_digit_def char_val_def dest: nat_str_digits)
qed

lemma parse_at:
  assumes "text = a @ padded w n @ b" and "0 \<le> n" and "n < 10 ^ w" and "0 < w" and "length a = k"
  shows "parseFixedDigits text k w = Some n"
proof -
  have "take w (drop k text) = padded w n" using assms padded_small(1) [OF assms(2-4)] by simp
  then show ?thesis
    using padded_small [OF assms(2-4)] assms by (simp add: parseFixedDigits_def Let_def)
qed


text \<open>The text of a time: six fields with fixed separators.\<close>

definition iso_text :: "int \<Rightarrow> int \<Rightarrow> int \<Rightarrow> int \<Rightarrow> int \<Rightarrow> int \<Rightarrow> string" where
  "iso_text Y M D h m s = padded 4 Y @ ''-'' @ padded 2 M @ ''-'' @ padded 2 D @ ''T'' @
     padded 2 h @ '':'' @ padded 2 m @ '':'' @ padded 2 s"

lemma iso_text_parse:
  assumes "0 \<le> Y" "Y < 10000" "1 \<le> M" "M \<le> 12" "1 \<le> D" "D \<le> 31" "0 \<le> h" "h < 24" "0 \<le> m" "m < 60" "0 \<le> s" "s < 60"
    and "parse_fraction rest = Some (frac, rest')" and "parse_zone rest' = Some (off, [])"
    and "civil (daysFromCivil Y M D) = (Y, M, D)"
    and "secs = daysFromCivil Y M D * kSecondsPerDay + h * 3600 + m * 60 + s - off"
    and "-9223372036 \<le> secs" and "secs \<le> 9223372036"
  shows "parseIso8601Utc (iso_text Y M D h m s @ rest) = Some (secs * kNsPerSecond + frac)"
proof -
  let ?t = "iso_text Y M D h m s @ rest"
  note pad = padded_small(1) [of _ 4, simplified] padded_small(1) [of _ 2, simplified]
  have len: "length (padded 4 Y) = 4" "length (padded 2 M) = 2" "length (padded 2 D) = 2" "length (padded 2 h) = 2"
    "length (padded 2 m) = 2" "length (padded 2 s) = 2"
    using assms(1-12) by (simp_all add: pad)
  have sep: "?t ! 4 = CHR ''-''" "?t ! 7 = CHR ''-''" "?t ! 10 = CHR ''T''" "?t ! 13 = CHR '':''" "?t ! 16 = CHR '':''"
    by (simp_all add: iso_text_def nth_append len)
  have long: "\<not> length ?t < 19" "drop 19 ?t = rest" by (simp_all add: iso_text_def len)
  have fields: "parseFixedDigits ?t 0 4 = Some Y" "parseFixedDigits ?t 5 2 = Some M" "parseFixedDigits ?t 8 2 = Some D"
    "parseFixedDigits ?t 11 2 = Some h" "parseFixedDigits ?t 14 2 = Some m" "parseFixedDigits ?t 17 2 = Some s"
    using assms(1-12)
      parse_at [of ?t "[]" 4 Y "drop 4 ?t" 0]
      parse_at [of ?t "take 5 ?t" 2 M "drop 7 ?t" 5] parse_at [of ?t "take 8 ?t" 2 D "drop 10 ?t" 8]
      parse_at [of ?t "take 11 ?t" 2 h "drop 13 ?t" 11] parse_at [of ?t "take 14 ?t" 2 m "drop 16 ?t" 14]
      parse_at [of ?t "take 17 ?t" 2 s "drop 19 ?t" 17]
    by (simp_all add: iso_text_def len)
  have norm: "utc_year (utcFromUnixSeconds (daysFromCivil Y M D * kSecondsPerDay)) = Y"
    "utc_month (utcFromUnixSeconds (daysFromCivil Y M D * kSecondsPerDay)) = M"
    "utc_day (utcFromUnixSeconds (daysFromCivil Y M D * kSecondsPerDay)) = D"
    using assms(15) by (simp_all add: civil_def Let_def)
  have lim: "cdiv INT64_MAX kNsPerSecond = 9223372036" "cdiv INT64_MIN kNsPerSecond = -9223372036"
    by (simp_all add: cdiv_def kNsPerSecond_def)
  show ?thesis
    unfolding parseIso8601Utc_def using assms long sep fields norm lim by (simp add: Let_def)
qed


lemma utc_range:
  assumes "-106752 \<le> days" and "days \<le> 106752" and "civil days = (Y, M, D)"
  shows "0 \<le> Y" "Y < 10000" "1 \<le> M" "M \<le> 12" "1 \<le> D" "D \<le> 31"
proof -
  obtain era y n where r: "in_year y n" "days = era * 146097 + era_start y + n - 719468"
    using day_exists by blast
  have y: "0 \<le> y" "y < 400" "0 \<le> n" "n < 366"
    using r(1) by (auto simp: in_year_def era_days_def split: if_splits)
  have "era_start y \<le> 146096" using y by (simp add: era_start_def)
  then have "4 \<le> era" "era \<le> 5" using assms(1,2) r(2) y era_start_nonneg [of y] by linarith+
  moreover have "Y = y + era * 400 + (if month_of n \<le> 2 then 1 else 0)" "M = month_of n" "D = mday_of n"
    using civil_of [OF r(1), of era] assms(3) r(2) by auto
  ultimately show "0 \<le> Y" "Y < 10000" "1 \<le> M" "M \<le> 12" "1 \<le> D" "D \<le> 31"
    using y month_facts [OF y(3,4)] by (auto split: if_splits)
qed

lemma format_text:
  assumes "civil days = (Y, M, D)" and "0 \<le> s" and "s < kSecondsPerDay" and "ns div kNsPerSecond = days * kSecondsPerDay + s"
  shows "formatIso8601Utc ns = iso_text Y M D (s div 3600) (s mod 3600 div 60) (s mod 60)"
proof -
  obtain era y n where r: "in_year y n" "days = era * 146097 + era_start y + n - 719468"
    using day_exists by blast
  have "utcFromNanoseconds ns = utcFromUnixSeconds (days * kSecondsPerDay + s)"
    using assms(4) by (simp add: utcFromNanoseconds_def floorDiv_div kNsPerSecond_def)
  with utc_of_day [OF r assms(2,3)] civil_of [OF r(1), of era] assms(1) r(2) show ?thesis
    by (auto simp: formatIso8601Utc_def formatDate_def formatTime_def iso_text_def)
qed

text \<open>
  C40: Formatting a time and parsing the text gets back the second of the time, whichever zone
  designator for UTC is added to it, for every 64-bit time whose second the parser can represent.
\<close>

theorem iso8601_roundtrip:
  assumes "-9223372036 * kNsPerSecond \<le> ns" and "ns \<le> INT64_MAX"
    and "zone \<in> {[], ''Z'', ''+00:00'', ''-00:00'', ''+0000'', ''+00''}"
  shows "parseIso8601Utc (formatIso8601Utc ns @ zone) = Some (ns div kNsPerSecond * kNsPerSecond)"
proof -
  define secs where "secs = ns div kNsPerSecond"
  define days where "days = secs div kSecondsPerDay"
  define s where "s = secs mod kSecondsPerDay"
  obtain Y M D where c: "civil days = (Y, M, D)" by (metis prod_cases3)
  have s: "0 \<le> s" "s < kSecondsPerDay" by (simp_all add: s_def kSecondsPerDay_def)
  have secs: "secs = days * kSecondsPerDay + s" by (simp add: days_def s_def)
  have r: "-9223372036 \<le> secs" "secs \<le> 9223372036"
    using assms(1,2) by (simp_all add: secs_def kNsPerSecond_def)
  have "-106752 \<le> days" "days \<le> 106752"
    using r by (simp_all add: days_def kSecondsPerDay_def)
  note u = utc_range [OF this c]
  have e: "daysFromCivil Y M D = days" by (rule daysFromCivil_civil [OF c])
  have hms: "0 \<le> s div 3600" "s div 3600 < 24" "0 \<le> s mod 3600 div 60" "s mod 3600 div 60 < 60" "0 \<le> s mod 60" "s mod 60 < 60"
    using s by (simp_all add: kSecondsPerDay_def)
  have "s mod 3600 mod 60 = s mod 60" by (simp add: mod_mod_cancel)
  then have t: "s div 3600 * 3600 + s mod 3600 div 60 * 60 + s mod 60 = s"
    using div_mult_mod_eq [of "s mod 3600" 60] div_mult_mod_eq [of s 3600] by linarith
  have z: "parse_fraction zone = Some (0, zone)" "parse_zone zone = Some (0, [])"
    using assms(3) by (auto simp: parse_fraction_def parse_zone_def parseFixedDigits_def is_digit_def char_val_def digit_val_def)
  have "parseIso8601Utc (iso_text Y M D (s div 3600) (s mod 3600 div 60) (s mod 60) @ zone) = Some (secs * kNsPerSecond + 0)"
    by (rule iso_text_parse [OF u hms z]) (use e c t secs r in simp_all)
  then show ?thesis using format_text [OF c s] secs by (simp add: secs_def)
qed

theorem iso8601_roundtrip_witness:
  "-9223372036 * kNsPerSecond \<le> (1780000000123456789 :: int) \<and>
   parseIso8601Utc (formatIso8601Utc 1780000000123456789 @ ''Z'') = Some 1780000000000000000"
proof -
  have r: "-9223372036 * kNsPerSecond \<le> (1780000000123456789 :: int)" "(1780000000123456789 :: int) \<le> INT64_MAX"
    by (simp_all add: kNsPerSecond_def)
  from iso8601_roundtrip [OF r, of "''Z''"] r(1) show ?thesis by (simp add: kNsPerSecond_def)
qed

text \<open>
  The check before the final sum leaves out the fraction: the last representable second with a
  fraction beyond the range passes it, and the sum overflows.
\<close>

lemma fraction_overflows:
  "parseIso8601Utc ''2262-04-11T23:47:16.999999999Z'' = Some 9223372036999999999"
  "\<not> in_int64 9223372036999999999"
  by code_simp+

end
