(* ===== verification/File_Lock.thy ===== *)
theory File_Lock
  imports Prelude "HOL-Library.AList"
begin

text \<open>
  Advisory file locks (\<open>core/file_lock.cpp\<close>, POSIX branch) on the side-car files of one
  directory. The kernel's lock table and the directory are explicit state shared by all
  processes. A lock is named by its open file description, a handle that is never reused while
  it is held; \<open>flock\<close> conflicts are between handles, so two locks of one process contend as
  well. The conversion of a lock is not atomic: the old lock is dropped first, and other
  processes may act before the new one is asked for.
\<close>

section \<open>The directory and the lock table\<close>

record FsNode =
  node_bytes :: string
  node_mtime :: int
  node_mode :: nat

record Flock =
  fl_handle :: nat
  fl_name :: string
  fl_exclusive :: bool

record World =
  w_dir :: "nat option"
  w_files :: "(string \<times> FsNode) list"
  w_locks :: "Flock list"
  w_next :: nat
  w_now :: int

text \<open>What the operating system may answer to the calls of one operation.\<close>

record Faults =
  f_open :: "string \<Rightarrow> string option"
  f_flock :: "string option"
  f_remove :: "string \<Rightarrow> bool"
  f_fsync :: "string option"
  f_rename :: "string option"
  f_mkdir :: bool
  f_chmod :: bool
  f_touch :: bool
  f_read :: "string \<Rightarrow> string option"
  f_space :: "World \<Rightarrow> nat option"

definition no_faults :: Faults where
  "no_faults = \<lparr>f_open = \<lambda>_. None, f_flock = None, f_remove = \<lambda>_. False, f_fsync = None, f_rename = None,
     f_mkdir = False, f_chmod = False, f_touch = False, f_read = \<lambda>_. None, f_space = \<lambda>_. None\<rparr>"

definition path_join :: "string \<Rightarrow> string \<Rightarrow> string" where
  "path_join root name = (if last root = CHR ''/'' then root @ name else root @ ''/'' @ name)"

abbreviation node_of :: "World \<Rightarrow> string \<Rightarrow> FsNode option" where
  "node_of w name \<equiv> map_of (w_files w) name"

definition put_node :: "string \<Rightarrow> FsNode \<Rightarrow> World \<Rightarrow> World" where
  "put_node name node w = w\<lparr>w_files := AList.update name node (w_files w)\<rparr>"

definition unlink :: "string \<Rightarrow> World \<Rightarrow> World" where
  "unlink name w = w\<lparr>w_files := AList.delete name (w_files w)\<rparr>"

section \<open>Locks\<close>

definition conflicts :: "string \<Rightarrow> bool \<Rightarrow> Flock \<Rightarrow> bool" where
  "conflicts name exclusive l \<longleftrightarrow> fl_name l = name \<and> (exclusive \<or> fl_exclusive l)"

definition tryAcquireHandle ::
  "Faults \<Rightarrow> string \<Rightarrow> string \<Rightarrow> bool \<Rightarrow> World \<Rightarrow> (string \<times> bool + nat) \<times> World" where
  "tryAcquireHandle F root name exclusive w =
     (case if w_dir w = None then Some ''No such file or directory'' else f_open F name of
        Some e \<Rightarrow> (Inl (''could not open lock file '' @ path_join root name @ '': '' @ e, False), w)
      | None \<Rightarrow>
          let w1 = (if node_of w name = None
                    then put_node name \<lparr>node_bytes = [], node_mtime = w_now w, node_mode = 384\<rparr> w else w) in
          if \<exists>l \<in> set (w_locks w1). conflicts name exclusive l
          then (Inl (''lock is held elsewhere: '' @ path_join root name, True), w1)
          else (case f_flock F of
              Some e \<Rightarrow> (Inl (''flock failed on '' @ path_join root name @ '': '' @ e, False), w1)
            | None \<Rightarrow>
                (Inr (w_next w1),
                 w1\<lparr>w_locks := \<lparr>fl_handle = w_next w1, fl_name = name, fl_exclusive = exclusive\<rparr> # w_locks w1,
                    w_next := w_next w1 + 1\<rparr>)))"

definition tryExclusive :: "Faults \<Rightarrow> string \<Rightarrow> string \<Rightarrow> World \<Rightarrow> (string \<times> bool + nat) \<times> World" where
  "tryExclusive F root name w = tryAcquireHandle F root name True w"

definition tryShared :: "Faults \<Rightarrow> string \<Rightarrow> string \<Rightarrow> World \<Rightarrow> (string + nat) \<times> World" where
  "tryShared F root name w =
     (case tryAcquireHandle F root name False w of
        (Inl (e, contended), w') \<Rightarrow> (Inl e, w')
      | (Inr h, w') \<Rightarrow> (Inr h, w'))"

text \<open>The handle of a \<open>FileLock\<close> object is \<^const>\<open>None\<close> once it is released or moved from.\<close>

definition release_handle :: "nat \<Rightarrow> World \<Rightarrow> World" where
  "release_handle h w = w\<lparr>w_locks := filter (\<lambda>l. fl_handle l \<noteq> h) (w_locks w)\<rparr>"

definition release :: "nat option \<Rightarrow> World \<Rightarrow> World" where
  "release handle w = (case handle of None \<Rightarrow> w | Some h \<Rightarrow> release_handle h w)"

definition lock_named :: "nat \<Rightarrow> World \<Rightarrow> string option" where
  "lock_named h w = map_option fl_name (find (\<lambda>l. fl_handle l = h) (w_locks w))"

text \<open>
  The lock converted by \<open>flock(fd, LOCK_SH | LOCK_NB)\<close>; \<open>others\<close> is what other processes do
  between its two halves.
\<close>

definition downgradeToShared ::
  "Faults \<Rightarrow> (World \<Rightarrow> World) \<Rightarrow> nat option \<Rightarrow> World \<Rightarrow> (string + unit) \<times> nat option \<times> World" where
  "downgradeToShared F others handle w =
     (case handle of
        None \<Rightarrow> (Inl ''downgrade on a released lock'', None, w)
      | Some h \<Rightarrow>
          (case lock_named h w of
             None \<Rightarrow> (Inl ''shared downgrade lost the conversion race: Bad file descriptor'', None, w)
           | Some name \<Rightarrow>
               let w1 = others (release_handle h w) in
               case f_flock F of
                 Some e \<Rightarrow> (Inl (''shared downgrade lost the conversion race: '' @ e), None, w1)
               | None \<Rightarrow>
                   if \<exists>l \<in> set (w_locks w1). conflicts name False l
                   then (Inl ''shared downgrade lost the conversion race: Resource temporarily unavailable'', None, w1)
                   else (Inr (), Some h,
                     w1\<lparr>w_locks := \<lparr>fl_handle = h, fl_name = name, fl_exclusive = False\<rparr> # w_locks w1\<rparr>)))"

section \<open>The interface\<close>

text \<open>
  What the users of the locks rely on: an exclusive lock is granted only on a name nobody holds,
  attempts and releases leave the other holders alone. A client states in \<open>same\<close> what it wants
  left unchanged while it holds a lock on a name; the lemmas are proved once from these laws.
\<close>

locale advisory_lock =
  fixes ok :: "'w \<Rightarrow> bool"
    and holders :: "string \<Rightarrow> 'w \<Rightarrow> nat set"
    and try_excl :: "string \<Rightarrow> 'w \<Rightarrow> ('e + nat) \<times> 'w"
    and free :: "nat \<Rightarrow> 'w \<Rightarrow> 'w"
  assumes granted: "ok w \<Longrightarrow> try_excl p w = (Inr h, w') \<Longrightarrow>
      ok w' \<and> holders p w = {} \<and> (\<forall>q. h \<notin> holders q w) \<and>
      (\<forall>q. holders q w' = (if q = p then {h} else holders q w))"
    and refused: "ok w \<Longrightarrow> try_excl p w = (Inl e, w') \<Longrightarrow> ok w' \<and> holders q w' = holders q w"
    and freed: "ok w \<Longrightarrow> ok (free h w) \<and> holders q (free h w) = holders q w - {h}"

locale lock_client = advisory_lock ok holders try_excl free
  for ok :: "'w \<Rightarrow> bool" and holders and try_excl :: "string \<Rightarrow> 'w \<Rightarrow> ('e + nat) \<times> 'w" and free +
  fixes lock_file :: "string \<Rightarrow> bool" and same :: "'w \<Rightarrow> 'w \<Rightarrow> bool"
  assumes same_refl: "same w w"
    and same_trans: "same w w' \<Longrightarrow> same w' w'' \<Longrightarrow> same w w''"
    and same_try: "lock_file p \<Longrightarrow> same w (snd (try_excl p w))"
    and same_free: "same w (free h w)"
begin

definition kept :: "string \<Rightarrow> nat \<Rightarrow> 'w \<Rightarrow> 'w \<Rightarrow> bool" where
  "kept p h w w' \<longleftrightarrow> (ok w \<and> h \<in> holders p w \<longrightarrow> ok w' \<and> h \<in> holders p w' \<and> same w w')"

lemma kept_refl: "kept p h w w"
  by (simp add: kept_def same_refl)

lemma kept_trans: "kept p h w w' \<Longrightarrow> kept p h w' w'' \<Longrightarrow> kept p h w w''"
  by (auto simp: kept_def intro: same_trans)

lemma kept_refused: "lock_file q \<Longrightarrow> try_excl q w = (Inl e, w') \<Longrightarrow> kept p h w w'"
  using refused [of w q e w' p] same_try [of q w] by (auto simp: kept_def)

lemma kept_free: "h' \<noteq> h \<Longrightarrow> kept p h w (free h' w)"
  using freed [of w h' p] same_free [of w h'] by (auto simp: kept_def)

lemma kept_guarded:
  assumes "lock_file q" "try_excl q w = (Inr h', w1)"
    and "q \<noteq> p \<Longrightarrow> h' \<noteq> h \<Longrightarrow> kept p h w1 w2"
  shows "kept p h w (free h' w2)"
proof (cases "ok w \<and> h \<in> holders p w")
  case True
  with granted [of w q h' w1] assms(2) have g: "ok w1" "q \<noteq> p" "h' \<noteq> h" "h \<in> holders p w1" by auto
  have "same w w1" using same_try [OF assms(1), of w] assms(2) by simp
  with g True have "kept p h w w1" by (simp add: kept_def)
  from kept_trans [OF kept_trans [OF this assms(3) [OF g(2,3)]] kept_free [OF g(3)]] show ?thesis .
qed (auto simp: kept_def)

end

section \<open>The lock table keeps the laws\<close>

definition lock_ok :: "World \<Rightarrow> bool" where
  "lock_ok w \<longleftrightarrow> distinct (map fl_handle (w_locks w)) \<and> (\<forall>l \<in> set (w_locks w). fl_handle l < w_next w) \<and>
     (\<forall>l \<in> set (w_locks w). \<forall>l' \<in> set (w_locks w). fl_name l = fl_name l' \<and> fl_exclusive l \<longrightarrow> l = l')"

definition holders :: "string \<Rightarrow> World \<Rightarrow> nat set" where
  "holders name w = fl_handle ` set (filter (\<lambda>l. fl_name l = name) (w_locks w))"

lemma put_node_simps [simp]:
  "w_dir (put_node n x w) = w_dir w" "w_locks (put_node n x w) = w_locks w" "w_next (put_node n x w) = w_next w"
  "w_now (put_node n x w) = w_now w"
  "node_of (put_node n x w) m = (if m = n then Some x else node_of w m)"
  by (simp_all add: put_node_def update_conv')

lemma unlink_simps [simp]:
  "w_dir (unlink n w) = w_dir w" "w_locks (unlink n w) = w_locks w" "w_next (unlink n w) = w_next w"
  "w_now (unlink n w) = w_now w"
  "node_of (unlink n w) m = (if m = n then None else node_of w m)"
  by (simp_all add: unlink_def delete_conv')

lemma release_simps [simp]:
  "w_dir (release_handle h w) = w_dir w" "w_files (release_handle h w) = w_files w"
  "w_next (release_handle h w) = w_next w" "w_now (release_handle h w) = w_now w"
  by (simp_all add: release_handle_def)

lemma lock_ok_cong: "w_locks w' = w_locks w \<Longrightarrow> w_next w' = w_next w \<Longrightarrow> lock_ok w' = lock_ok w"
  by (simp add: lock_ok_def)

lemma holders_cong: "w_locks w' = w_locks w \<Longrightarrow> holders p w' = holders p w"
  by (simp add: holders_def)

lemma acquire_refused:
  "tryAcquireHandle F root name x w = (Inl e, w') \<Longrightarrow> w_locks w' = w_locks w \<and> w_next w' = w_next w"
  by (auto simp: tryAcquireHandle_def Let_def split: option.splits if_splits)

lemma acquire_granted:
  assumes "tryAcquireHandle F root name x w = (Inr h, w')"
  shows "h = w_next w" "w_locks w' = \<lparr>fl_handle = h, fl_name = name, fl_exclusive = x\<rparr> # w_locks w"
    "w_next w' = w_next w + 1" "\<forall>l \<in> set (w_locks w). \<not> conflicts name x l"
  using assms by (auto simp: tryAcquireHandle_def Let_def split: option.splits if_splits)

lemma acquire_files:
  "w_files (snd (tryAcquireHandle F root name x w)) = w_files w \<or>
   node_of w name = None \<and>
   w_files (snd (tryAcquireHandle F root name x w)) = AList.update name \<lparr>node_bytes = [], node_mtime = w_now w, node_mode = 384\<rparr> (w_files w)"
  by (auto simp: tryAcquireHandle_def Let_def put_node_def split: option.splits)

lemma acquire_keeps [simp]:
  "w_dir (snd (tryAcquireHandle F root name x w)) = w_dir w" "w_now (snd (tryAcquireHandle F root name x w)) = w_now w"
  by (auto simp: tryAcquireHandle_def Let_def split: option.splits)

lemma lock_ok_add:
  assumes "lock_ok w" "h \<notin> fl_handle ` set (w_locks w)" "h < w_next w'" "w_next w \<le> w_next w'"
    "\<forall>l \<in> set (w_locks w). \<not> conflicts name x l"
    and "w_locks w' = \<lparr>fl_handle = h, fl_name = name, fl_exclusive = x\<rparr> # w_locks w"
  shows "lock_ok w'"
  using assms by (fastforce simp: lock_ok_def conflicts_def)

lemma lock_ok_acquire:
  assumes "lock_ok w" shows "lock_ok (snd (tryAcquireHandle F root name x w))"
proof (cases "tryAcquireHandle F root name x w")
  case (Pair r w')
  show ?thesis
  proof (cases r)
    case (Inl e)
    with Pair acquire_refused [of F root name x w e w'] assms show ?thesis by (simp add: lock_ok_def)
  next
    case (Inr h)
    note g = acquire_granted [OF Pair [unfolded Inr]]
    have "h \<notin> fl_handle ` set (w_locks w)" using assms g(1) by (fastforce simp: lock_ok_def)
    then have "lock_ok w'" by (rule lock_ok_add [OF assms]) (use g in simp_all)
    with Pair show ?thesis by simp
  qed
qed

lemma lock_ok_release: "lock_ok w \<Longrightarrow> lock_ok (release_handle h w)"
  by (auto simp: lock_ok_def release_handle_def distinct_map_filter)

lemma holders_release: "holders p (release_handle h w) = holders p w - {h}"
  by (auto simp: holders_def release_handle_def)

interpretation fl: advisory_lock lock_ok holders "tryExclusive F root" release_handle for F root
proof unfold_locales
  fix w p h w'
  assume ok: "lock_ok w" and t: "tryExclusive F root p w = (Inr h, w')"
  note g = acquire_granted [OF t [unfolded tryExclusive_def]]
  have "lock_ok w'" using lock_ok_acquire [OF ok, of F root p True] t by (simp add: tryExclusive_def)
  moreover have none: "holders p w = {}" using g(4) by (auto simp: holders_def conflicts_def)
  moreover have "h \<notin> holders q w" for q using ok g(1) by (auto simp: holders_def lock_ok_def)
  moreover have "holders q w' = (if q = p then {h} else holders q w)" for q
    using none by (auto simp: holders_def g(2))
  ultimately show "lock_ok w' \<and> holders p w = {} \<and> (\<forall>q. h \<notin> holders q w) \<and>
      (\<forall>q. holders q w' = (if q = p then {h} else holders q w))" by blast
next
  fix w p e w' q
  assume ok: "lock_ok w" and t: "tryExclusive F root p w = (Inl e, w')"
  from acquire_refused [OF t [unfolded tryExclusive_def]] ok
  show "lock_ok w' \<and> holders q w' = holders q w" by (simp add: lock_ok_def holders_def)
qed (simp add: lock_ok_release holders_release)

end
