(* ===== verification/Session_File_Cache.thy ===== *)
theory Session_File_Cache
  imports File_Lock Source_Descriptor Sha256_Vector
begin

text \<open>
  The request-addressed cache of session files (\<open>session_file_cache.cpp\<close>). The files of the
  cache directory are named relative to its root. The MCAP reader is the library's; its calls are
  a record of functions of the file's bytes. Each operation reads a file's bytes once: a validation
  sees one version of the file.

  Other processes use the same directory. What they do while an operation runs is a script of
  actions, taken in turns between the system calls of the operation; an action that removes or
  replaces a recording or a partial file needs the exclusive lock of its identity, as the
  operations here do.
\<close>

section \<open>Names\<close>

definition kIdentityPrefix :: string where
  "kIdentityPrefix = ''mcap-cloud:v1:sha256/128:''"

definition kDigestHexChars :: nat where
  "kDigestHexChars = 32"

definition kProvenanceName :: string where
  "kProvenanceName = ''mcap_cloud/source_descriptor''"

definition identityHex :: "string \<Rightarrow> string option" where
  "identityHex identity =
     (if length identity \<noteq> length kIdentityPrefix + kDigestHexChars then None
      else if take (length kIdentityPrefix) identity \<noteq> kIdentityPrefix then None
      else let hex = drop (length kIdentityPrefix) identity in
        if list_all (\<lambda>c. (CHR ''0'' \<le> c \<and> c \<le> CHR ''9'') \<or> (CHR ''a'' \<le> c \<and> c \<le> CHR ''f'')) hex then Some hex else None)"

definition touchPathFor :: "string \<Rightarrow> string" where
  "touchPathFor file = file @ ''.touch''"

definition lockPathFor :: "string \<Rightarrow> string" where
  "lockPathFor file = file @ ''.lock''"

definition pathFor :: "string \<Rightarrow> string \<Rightarrow> string" where
  "pathFor root identity =
     (case identityHex identity of
        None \<Rightarrow> []
      | Some hex \<Rightarrow> if root = [] then [] else path_join root (hex @ ''.mcap''))"

text \<open>\<open>PJ::sdk::getEnv\<close> is the host's; the root is empty when no variable is set.\<close>

definition standard :: "(string \<Rightarrow> string option) \<Rightarrow> string + string" where
  "standard getEnv =
     (case getEnv ''MCAP_CLOUD_CACHE_DIR'' of
        Some v \<Rightarrow> Inr v
      | None \<Rightarrow>
          (case getEnv ''XDG_CACHE_HOME'' of
             Some v \<Rightarrow> Inr (path_join (path_join v ''mcap_cloud'') ''sessions'')
           | None \<Rightarrow>
               (case getEnv ''HOME'' of
                  Some v \<Rightarrow> Inr (path_join (path_join (path_join v ''.cache'') ''mcap_cloud'') ''sessions'')
                | None \<Rightarrow> Inl ''cache root unresolvable (MCAP_CLOUD_CACHE_DIR, XDG_CACHE_HOME and HOME all unset)'')))"

section \<open>Small file operations\<close>

definition chmod0600 :: "Faults \<Rightarrow> string \<Rightarrow> World \<Rightarrow> World" where
  "chmod0600 F name w =
     (case node_of w name of
        Some node \<Rightarrow> if f_chmod F then w else put_node name (node\<lparr>node_mode := 384\<rparr>) w
      | None \<Rightarrow> w)"

definition ensureDir0700 :: "Faults \<Rightarrow> World \<Rightarrow> World" where
  "ensureDir0700 F w =
     (let w1 = (if w_dir w = None \<and> \<not> f_mkdir F then w\<lparr>w_dir := Some 493\<rparr> else w) in
      if w_dir w1 = None \<or> f_chmod F then w1 else w1\<lparr>w_dir := Some 448\<rparr>)"

definition touchStamp :: "Faults \<Rightarrow> string \<Rightarrow> World \<Rightarrow> World" where
  "touchStamp F file w =
     (let stamp = touchPathFor file in
      if f_touch F then chmod0600 F stamp w
      else chmod0600 F stamp
        (put_node stamp \<lparr>node_bytes = [], node_mtime = w_now w,
           node_mode = (case node_of w stamp of Some node \<Rightarrow> node_mode node | None \<Rightarrow> 420)\<rparr> w))"

section \<open>Validation\<close>

record MetadataIndex =
  mi_offset :: u64
  mi_length :: u64

record McapSummary =
  ms_statistics :: "(u64 \<times> u32) option"
  ms_metadata_indexes :: "(string \<times> MetadataIndex) list"

text \<open>
  \<open>McapReader::open\<close>, \<open>readSummary\<close>, \<open>ReadRecord\<close> and \<open>ParseMetadata\<close>; an error is the message of
  the status.
\<close>

record McapLib =
  mcap_open :: "string \<Rightarrow> string option"
  mcap_summary :: "string \<Rightarrow> string + McapSummary"
  mcap_read_record :: "string \<Rightarrow> u64 \<Rightarrow> string + string"
  mcap_parse_metadata :: "string \<Rightarrow> string + (string \<times> string) list"

record ExpectedContent =
  message_count :: u64
  channel_count :: u64

definition kQuerySummaryBudget :: nat where
  "kQuerySummaryBudget = 16 * 1024 * 1024"

definition kQueryMetadataBudget :: u64 where
  "kQueryMetadataBudget = 1 * 1024 * 1024"

definition kMcapTailBytes :: nat where
  "kMcapTailBytes = 29 + 8"

definition byte_at :: "string \<Rightarrow> nat \<Rightarrow> nat" where
  "byte_at s i = char_val (s ! i)"

definition le64 :: "string \<Rightarrow> nat \<Rightarrow> u64" where
  "le64 s k = fold (\<lambda>i acc. or acc (push_bit (8 * i) (word_of_nat (byte_at s (k + i))))) [0..<8] 0"

definition summarySpanWithinBudget :: "Faults \<Rightarrow> string \<Rightarrow> World \<Rightarrow> string + unit" where
  "summarySpanWithinBudget F name w =
     (case node_of w name of
        None \<Rightarrow> Inl ''not a readable MCAP: too small''
      | Some node \<Rightarrow>
          let bytes = node_bytes node; size = length bytes in
          if size < kMcapTailBytes + 8 then Inl ''not a readable MCAP: too small''
          else if f_read F name \<noteq> None then Inl ''not a readable MCAP: open failed''
          else
            let tail = drop (size - kMcapTailBytes) bytes in
            if byte_at tail 0 \<noteq> 2 then Inl ''not a readable MCAP: footer opcode mismatch''
            else
              let summary_start = unat (le64 tail 9); footer_offset = size - kMcapTailBytes in
              if summary_start = 0 then Inr ()
              else if footer_offset < summary_start then Inl ''forged summary offset (past the footer)''
              else if kQuerySummaryBudget < footer_offset - summary_start
              then Inl (''summary section exceeds the bounded query budget ('' @ nat_str (footer_offset - summary_start) @ '' bytes)'')
              else Inr ())"

text \<open>Seeking takes the offset as a signed 64-bit value; a negative one and a short read fail.\<close>

definition read_at :: "string \<Rightarrow> u64 \<Rightarrow> nat \<Rightarrow> string option" where
  "read_at bytes offset n =
     (if unat offset < 2 ^ 63 \<and> unat offset + n \<le> length bytes then Some (take n (drop (unat offset) bytes)) else None)"

definition raw_preflight :: "Faults \<Rightarrow> string \<Rightarrow> string \<Rightarrow> MetadataIndex \<Rightarrow> bool" where
  "raw_preflight F name bytes index =
     (let file_bytes = word_of_nat (length bytes) :: u64;
          header = (if f_read F name = None \<and> mi_offset index + 9 \<le> file_bytes then read_at bytes (mi_offset index) 9 else None) in
      case header of
        None \<Rightarrow> False
      | Some h \<Rightarrow>
          let declared = le64 h 1 in
          byte_at h 0 = 12 \<and> declared \<le> kQueryMetadataBudget \<and> declared + 9 \<le> mi_length index \<and>
          mi_offset index + 9 + declared \<le> file_bytes)"

definition check_expected :: "ExpectedContent option \<Rightarrow> u64 \<times> u32 \<Rightarrow> string + unit" where
  "check_expected expected stats =
     (case expected of
        None \<Rightarrow> Inr ()
      | Some e \<Rightarrow>
          guardR (fst stats = message_count e \<and> ucast (snd stats) = channel_count e)
            (''Statistics mismatch: file has '' @ nat_str (unat (fst stats)) @ '' message(s) / '' @ nat_str (unat (snd stats)) @
             '' channel(s), expected '' @ nat_str (unat (message_count e)) @ '' / '' @ nat_str (unat (channel_count e)) @
             '' (incomplete or foreign session content)''))"

definition on_error :: "string \<Rightarrow> string + 'a \<Rightarrow> string + 'a" where
  "on_error prefix r = (case r of Inl e \<Rightarrow> Inl (prefix @ e) | Inr x \<Rightarrow> Inr x)"

definition of_option :: "string \<Rightarrow> 'a option \<Rightarrow> string + 'a" where
  "of_option e m = (case m of None \<Rightarrow> Inl e | Some x \<Rightarrow> Inr x)"

text \<open>The steps of \<open>validateMcap\<close> from the open of the reader on; \<open>bytes\<close> is the file.\<close>

definition validate_bytes ::
  "McapLib \<Rightarrow> Faults \<Rightarrow> string \<Rightarrow> string \<Rightarrow> string \<Rightarrow> ExpectedContent option \<Rightarrow> string + unit" where
  "validate_bytes M F name bytes hex expected =
     bindR (case mcap_open M bytes of Some e \<Rightarrow> Inl (''not a readable MCAP: '' @ e) | None \<Rightarrow> Inr ()) (\<lambda>_.
     bindR (on_error ''summary unreadable: '' (mcap_summary M bytes)) (\<lambda>summary.
     bindR (of_option ''missing Statistics record'' (ms_statistics summary)) (\<lambda>stats.
     bindR (check_expected expected stats) (\<lambda>_.
     bindR (of_option (''missing embedded source descriptor ('' @ kProvenanceName @ '')'')
              (map_of (ms_metadata_indexes summary) kProvenanceName)) (\<lambda>index.
     bindR (guardR (mi_length index \<le> kQueryMetadataBudget)
              ''embedded descriptor record exceeds the bounded query budget'') (\<lambda>_.
     bindR (guardR (raw_preflight F name bytes index)
              ''embedded descriptor record failed the bounded raw preflight'') (\<lambda>_.
     bindR (on_error ''embedded descriptor unreadable: '' (mcap_read_record M bytes (mi_offset index))) (\<lambda>rec.
     bindR (on_error ''embedded descriptor unparsable: '' (mcap_parse_metadata M rec)) (\<lambda>metadata.
     bindR (of_option ''embedded descriptor record has no json entry'' (map_of metadata ''json'')) (\<lambda>json_text.
     guardR (sha256HexPrefix (str_bytes json_text) (kDigestHexChars div 2) = hex)
       ''embedded descriptor identity mismatch''))))))))))"

definition validateMcap ::
  "McapLib \<Rightarrow> Faults \<Rightarrow> string \<Rightarrow> string \<Rightarrow> ExpectedContent option \<Rightarrow> World \<Rightarrow> string + unit" where
  "validateMcap M F name hex expected w =
     bindR (summarySpanWithinBudget F name w) (\<lambda>_.
     (case node_of w name of
        None \<Rightarrow> Inl ''not a readable MCAP: open failed''
      | Some node \<Rightarrow> validate_bytes M F name (node_bytes node) hex expected))"

section \<open>Lookup, locks and leases\<close>

definition lookup_file :: "McapLib \<Rightarrow> Faults \<Rightarrow> string \<Rightarrow> string \<Rightarrow> World \<Rightarrow> string option \<times> World" where
  "lookup_file M F root identity w =
     (case identityHex identity of
        None \<Rightarrow> (None, w)
      | Some hex \<Rightarrow>
          if root = [] then (None, w)
          else let file = hex @ ''.mcap'' in
            if node_of w file = None then (None, w)
            else (case validateMcap M F file hex None w of
                Inl error \<Rightarrow> (None, w)
              | Inr _ \<Rightarrow> (Some (path_join root file), touchStamp F file w)))"

record MaterializeLock =
  ml_lock :: "nat option"
  ml_hex :: string
  ml_partial :: string

definition identity_error :: string where
  "identity_error = ''invalid descriptor identity (want mcap-cloud:v1:sha256/128:<32 lowercase hex>)''"

definition tryLockForMaterialize ::
  "Faults \<Rightarrow> string \<Rightarrow> nat \<Rightarrow> string \<Rightarrow> World \<Rightarrow> (string \<times> bool + MaterializeLock) \<times> World" where
  "tryLockForMaterialize F root pid identity w =
     (case identityHex identity of
        None \<Rightarrow> (Inl (identity_error, False), w)
      | Some hex \<Rightarrow>
          if root = [] then (Inl (''cache root is not configured'', False), w)
          else (case tryExclusive F root (hex @ ''.mcap.lock'') (ensureDir0700 F w) of
              (Inl (lock_error, contended), w') \<Rightarrow> (Inl (''cache materialize lock unavailable: '' @ lock_error, contended), w')
            | (Inr h, w') \<Rightarrow>
                (Inr \<lparr>ml_lock = Some h, ml_hex = hex, ml_partial = hex @ ''.mcap.partial.'' @ nat_str pid\<rparr>, w')))"

definition acquireReadLease :: "Faults \<Rightarrow> string \<Rightarrow> string \<Rightarrow> World \<Rightarrow> (string + nat) \<times> World" where
  "acquireReadLease F root identity w =
     (case identityHex identity of
        None \<Rightarrow> (Inl identity_error, w)
      | Some hex \<Rightarrow>
          if root = [] then (Inl ''cache root is not configured'', w)
          else (case tryShared F root (hex @ ''.mcap.lock'') (ensureDir0700 F w) of
              (Inl lock_error, w') \<Rightarrow> (Inl (''cache read lease unavailable: '' @ lock_error), w')
            | (Inr h, w') \<Rightarrow> (Inr h, w')))"

definition toSharedLease ::
  "Faults \<Rightarrow> (World \<Rightarrow> World) \<Rightarrow> MaterializeLock \<Rightarrow> World \<Rightarrow> (string + nat) \<times> World" where
  "toSharedLease F others lock w =
     (case downgradeToShared F others (ml_lock lock) w of
        (Inr _, Some h, w') \<Rightarrow> (Inr h, w')
      | (Inr _, None, w') \<Rightarrow> (Inl [], w')
      | (Inl e, held, w') \<Rightarrow> (Inl e, release held w'))"

section \<open>Publishing a finished file\<close>

definition syncFile :: "Faults \<Rightarrow> string \<Rightarrow> string \<Rightarrow> World \<Rightarrow> string + unit" where
  "syncFile F root name w =
     (case if node_of w name = None then Some ''No such file or directory'' else f_read F name of
        Some e \<Rightarrow> Inl (''could not reopen for fsync: '' @ path_join root name @ '': '' @ e)
      | None \<Rightarrow>
          (case f_fsync F of
             Some e \<Rightarrow> Inl (''fsync failed: '' @ path_join root name @ '': '' @ e)
           | None \<Rightarrow> Inr ()))"

definition rename_file :: "string \<Rightarrow> string \<Rightarrow> World \<Rightarrow> World" where
  "rename_file from to w =
     (case node_of w from of Some node \<Rightarrow> put_node to node (unlink from w) | None \<Rightarrow> w)"

definition fail_finalize :: "Faults \<Rightarrow> string \<Rightarrow> string \<Rightarrow> World \<Rightarrow> (string + unit) \<times> World" where
  "fail_finalize F partial reason w = (Inl reason, if f_remove F partial then w else unlink partial w)"

definition finalize_file ::
  "McapLib \<Rightarrow> Faults \<Rightarrow> string \<Rightarrow> MaterializeLock \<Rightarrow> ExpectedContent option \<Rightarrow> World \<Rightarrow> (string + unit) \<times> World" where
  "finalize_file M F root lock expected w =
     (let partial = ml_partial lock; final_path = ml_hex lock @ ''.mcap'' in
      case validateMcap M F partial (ml_hex lock) expected w of
        Inl reason \<Rightarrow> fail_finalize F partial (''cache finalize rejected '' @ partial @ '': '' @ reason) w
      | Inr _ \<Rightarrow>
          let w1 = chmod0600 F partial w in
          (case syncFile F root partial w1 of
             Inl reason \<Rightarrow> fail_finalize F partial reason w1
           | Inr _ \<Rightarrow>
               (case f_rename F of
                  Some e \<Rightarrow> fail_finalize F partial (''atomic rename failed: '' @ e) w1
                | None \<Rightarrow> (Inr (), touchStamp F final_path (rename_file partial final_path w1)))))"

section \<open>Other processes\<close>

text \<open>
  What another process may do between two calls. Removing or replacing a recording or a partial
  file needs an exclusive lock that guards its name; lock files are never removed.
\<close>

datatype act =
  AAcquire string bool
| ARelease nat
| AUnlink nat string
| APublish nat string string
| AWrite nat string string
| AStamp string
| ATick nat

definition partial_base :: "string \<Rightarrow> string option" where
  "partial_base name = map_option (\<lambda>pos. take pos name @ ''.mcap'') (find_sub ''.mcap.partial.'' name)"

definition ends_with :: "string \<Rightarrow> string \<Rightarrow> bool" where
  "ends_with s p \<longleftrightarrow> starts_with (rev s) (rev p)"

definition guards :: "nat \<Rightarrow> string \<Rightarrow> World \<Rightarrow> bool" where
  "guards h name w \<longleftrightarrow>
     (\<exists>l \<in> set (w_locks w). fl_handle l = h \<and> fl_exclusive l \<and>
        (ends_with name ''.mcap'' \<and> fl_name l = lockPathFor name \<or>
         (case partial_base name of None \<Rightarrow> False | Some base \<Rightarrow> fl_name l = lockPathFor base)))"

fun act_run :: "act \<Rightarrow> World \<Rightarrow> World" where
  "act_run (AAcquire base exclusive) w = snd (tryAcquireHandle no_faults [] (lockPathFor base) exclusive w)"
| "act_run (ARelease h) w = release_handle h w"
| "act_run (AUnlink h name) w = (if guards h name w then unlink name w else w)"
| "act_run (APublish h partial file) w =
     (if guards h partial w \<and> guards h file w then rename_file partial file w else w)"
| "act_run (AWrite h partial bytes) w =
     (if guards h partial w \<and> partial_base partial \<noteq> None
      then put_node partial \<lparr>node_bytes = bytes, node_mtime = w_now w, node_mode = 420\<rparr> w else w)"
| "act_run (AStamp file) w = touchStamp no_faults file w"
| "act_run (ATick n) w = w\<lparr>w_now := w_now w + int n\<rparr>"

fun act_handle :: "act \<Rightarrow> nat option" where
  "act_handle (ARelease h) = Some h"
| "act_handle (AUnlink h name) = Some h"
| "act_handle (APublish h partial file) = Some h"
| "act_handle (AWrite h partial bytes) = Some h"
| "act_handle _ = None"

text \<open>A turn of the others: they cannot use the handles of this process, \<open>mine\<close>.\<close>

definition turn :: "nat list \<Rightarrow> act list \<Rightarrow> World \<Rightarrow> World" where
  "turn mine acts w = fold act_run (filter (\<lambda>a. act_handle a \<notin> Some ` set mine) acts) w"

type_synonym script = "act list list"

fun next_turn :: "script \<Rightarrow> act list \<times> script" where
  "next_turn [] = ([], [])"
| "next_turn (a # s) = (a, s)"

section \<open>Cleanup\<close>

record Config =
  max_total_bytes :: nat
  min_free_bytes :: nat
  orphan_partial_age :: int

definition sweep_partial ::
  "Faults \<Rightarrow> string \<Rightarrow> Config \<Rightarrow> int \<Rightarrow> string \<Rightarrow> World \<times> script \<Rightarrow> World \<times> script" where
  "sweep_partial F root cfg now name ws =
     (let (a, s) = next_turn (snd ws); w = turn [] a (fst ws) in
      case node_of w name of
        None \<Rightarrow> (w, s)
      | Some node \<Rightarrow>
          (case partial_base name of
             None \<Rightarrow> (w, s)
           | Some base \<Rightarrow>
               if now - node_mtime node < orphan_partial_age cfg then (w, s)
               else (case tryExclusive F root (lockPathFor base) w of
                   (Inl lock_error, w1) \<Rightarrow> (w1, s)
                 | (Inr h, w1) \<Rightarrow>
                     let (b, s1) = next_turn s; w2 = turn [h] b w1 in
                     (release (Some h) (if f_remove F name then w2 else unlink name w2), s1))))"

record Candidate =
  cand_file :: string
  cand_size :: nat
  cand_stamp :: int

definition list_candidate ::
  "string \<Rightarrow> (World \<times> script) \<times> Candidate list \<Rightarrow> (World \<times> script) \<times> Candidate list" where
  "list_candidate name st =
     (let (a, s) = next_turn (snd (fst st)); w = turn [] a (fst (fst st)) in
      case node_of w name of
        None \<Rightarrow> ((w, s), snd st)
      | Some node \<Rightarrow>
          if \<not> ends_with name ''.mcap'' then ((w, s), snd st)
          else ((w, s), snd st @
             [\<lparr>cand_file = name, cand_size = length (node_bytes node),
               cand_stamp = (case node_of w (touchPathFor name) of Some t \<Rightarrow> node_mtime t | None \<Rightarrow> node_mtime node)\<rparr>]))"

definition overBudget :: "Faults \<Rightarrow> Config \<Rightarrow> nat \<Rightarrow> World \<Rightarrow> bool" where
  "overBudget F cfg total_bytes w \<longleftrightarrow>
     max_total_bytes cfg < total_bytes \<or>
     (case f_space F w of None \<Rightarrow> False | Some available \<Rightarrow> available < min_free_bytes cfg)"

fun evict_files ::
  "Faults \<Rightarrow> string \<Rightarrow> Config \<Rightarrow> Candidate list \<Rightarrow> nat \<Rightarrow> World \<times> script \<Rightarrow> World \<times> script" where
  "evict_files F root cfg [] total_bytes ws = ws"
| "evict_files F root cfg (victim # rest) total_bytes ws =
     (let (a, s) = next_turn (snd ws); w = turn [] a (fst ws) in
      if \<not> overBudget F cfg total_bytes w then (w, s)
      else (case tryExclusive F root (lockPathFor (cand_file victim)) w of
          (Inl lock_error, w1) \<Rightarrow> evict_files F root cfg rest total_bytes (w1, s)
        | (Inr h, w1) \<Rightarrow>
            let (b, s1) = next_turn s; w2 = turn [h] b w1 in
            if f_remove F (cand_file victim) \<or> node_of w2 (cand_file victim) = None
            then evict_files F root cfg rest total_bytes (release (Some h) w2, s1)
            else
              let (c, s2) = next_turn s1; w3 = turn [h] c (unlink (cand_file victim) w2);
                  stamp = touchPathFor (cand_file victim);
                  w4 = (if f_remove F stamp then w3 else unlink stamp w3) in
              evict_files F root cfg rest (total_bytes - cand_size victim) (release (Some h) w4, s2)))"

definition total_size :: "Candidate list \<Rightarrow> nat" where
  "total_size cs = sum_list (map cand_size cs)"

definition cleanup :: "Faults \<Rightarrow> string \<Rightarrow> Config \<Rightarrow> script \<Rightarrow> World \<Rightarrow> World" where
  "cleanup F root cfg script w =
     (if root = [] \<or> w_dir w = None then w
      else
        let (w1, s1) = fold (sweep_partial F root cfg (w_now w)) (map fst (w_files w)) (w, script);
            (ws, candidates) = fold list_candidate (map fst (w_files w1)) ((w1, s1), []) in
        fst (evict_files F root cfg (sort_key cand_stamp candidates) (total_size candidates) ws))"

section \<open>What happens to a leased file\<close>

definition hex_name :: "string \<Rightarrow> bool" where
  "hex_name hex \<longleftrightarrow> CHR ''.'' \<notin> set hex"

definition is_lock_name :: "string \<Rightarrow> bool" where
  "is_lock_name name \<longleftrightarrow> ends_with name ''.lock''"

text \<open>The recording of an identity is untouched and its lock file is still there.\<close>

definition same_recording :: "string \<Rightarrow> World \<Rightarrow> World \<Rightarrow> bool" where
  "same_recording hex w w' \<longleftrightarrow>
     node_of w' (hex @ ''.mcap'') = node_of w (hex @ ''.mcap'') \<and>
     (node_of w (hex @ ''.mcap.lock'') \<noteq> None \<longrightarrow> node_of w' (hex @ ''.mcap.lock'') \<noteq> None)"

lemma ends_with_iff: "ends_with s p \<longleftrightarrow> (\<exists>r. s = r @ p)"
  by (auto simp: ends_with_def starts_with_iff) (metis rev_append rev_rev_ident)

lemma find_sub_Some: "find_sub p s = Some i \<Longrightarrow> \<exists>r. s = take i s @ p @ r"
proof (induction s arbitrary: i)
  case (Cons x xs)
  then show ?case
    by (auto simp: starts_with_iff split: if_splits)
qed (auto split: if_splits)

lemma count_list_dots: "count_list (''.mcap.partial.'' @ r) CHR ''.'' = 3 + count_list r CHR ''.''"
  by simp

lemma partial_base_None:
  assumes "count_list s CHR ''.'' < 3" shows "partial_base s = None"
proof (rule ccontr)
  assume "partial_base s \<noteq> None"
  then obtain i r where "s = take i s @ ''.mcap.partial.'' @ r"
    by (auto simp: partial_base_def dest: find_sub_Some)
  then have "count_list s CHR ''.'' = count_list (take i s) CHR ''.'' + (3 + count_list r CHR ''.'')"
    by (metis (no_types, opaque_lifting) count_list_append count_list_dots)
  with assms show False by simp
qed

lemma count_hex: "hex_name hex \<Longrightarrow> count_list hex CHR ''.'' = 0"
  by (simp add: hex_name_def count_list_0_iff)

lemma identity_not_partial:
  "hex_name hex \<Longrightarrow> partial_base (hex @ ''.mcap'') = None"
  "hex_name hex \<Longrightarrow> partial_base (hex @ ''.mcap.lock'') = None"
  by (rule partial_base_None, simp add: count_hex)+

lemma sidecar_names [simp]:
  "touchPathFor n \<noteq> hex @ ''.mcap''" "touchPathFor n \<noteq> hex @ ''.mcap.lock''" "lockPathFor n \<noteq> hex @ ''.mcap''"
  "\<not> ends_with (hex @ ''.mcap.lock'') ''.mcap''" "is_lock_name (lockPathFor n)" "is_lock_name (hex @ ''.mcap.lock'')"
  "\<not> is_lock_name (hex @ ''.mcap'')"
  by (auto simp: touchPathFor_def lockPathFor_def ends_with_def is_lock_name_def starts_with_def
      dest: arg_cong [where f = last])

lemma lockPathFor_file [simp]: "lockPathFor n = hex @ ''.mcap.lock'' \<longleftrightarrow> n = hex @ ''.mcap''"
  using append_same_eq [of n "''.lock''" "hex @ ''.mcap''"] by (simp add: lockPathFor_def)

interpretation lease: lock_client lock_ok holders "tryExclusive F root" release_handle is_lock_name "same_recording hex" for F root hex
proof unfold_locales
  fix p w
  assume "is_lock_name p"
  then show "same_recording hex w (snd (tryExclusive F root p w))"
    using acquire_files [of F root p True w]
    by (auto simp: same_recording_def tryExclusive_def update_conv')
qed (auto simp: same_recording_def)

abbreviation lease_kept :: "string \<Rightarrow> nat \<Rightarrow> World \<Rightarrow> World \<Rightarrow> bool" where
  "lease_kept hex h \<equiv> lock_client.kept lock_ok holders (same_recording hex) (hex @ ''.mcap.lock'') h"

lemma kept_world:
  assumes "w_locks w' = w_locks w" "w_next w' = w_next w" "same_recording hex w w'"
  shows "lease_kept hex h w w'"
  unfolding lease.kept_def using assms lock_ok_cong [of w' w] holders_cong [of w' w] by simp

lemma kept_put: "name \<noteq> hex @ ''.mcap'' \<Longrightarrow> lease_kept hex h w (put_node name node w)"
  by (rule kept_world) (simp_all add: same_recording_def)

lemma kept_unlink:
  "name \<noteq> hex @ ''.mcap'' \<Longrightarrow> name \<noteq> hex @ ''.mcap.lock'' \<Longrightarrow> lease_kept hex h w (unlink name w)"
  by (rule kept_world) (simp_all add: same_recording_def)

lemma kept_chmod: "name \<noteq> hex @ ''.mcap'' \<Longrightarrow> lease_kept hex h w (chmod0600 F name w)"
  by (auto simp: chmod0600_def kept_put lease.kept_refl split: option.split)

lemma kept_touch: "lease_kept hex h w (touchStamp F file w)"
  unfolding touchStamp_def Let_def
  by (auto intro: lease.kept_trans [OF kept_put kept_chmod] kept_chmod)

lemma kept_rename:
  "from \<noteq> hex @ ''.mcap'' \<Longrightarrow> from \<noteq> hex @ ''.mcap.lock'' \<Longrightarrow> to \<noteq> hex @ ''.mcap'' \<Longrightarrow>
   lease_kept hex h w (rename_file from to w)"
  by (auto simp: rename_file_def lease.kept_refl intro: lease.kept_trans [OF kept_unlink kept_put] split: option.split)

lemma kept_ensureDir: "lease_kept hex h w (ensureDir0700 F w)"
  by (rule kept_world) (simp_all add: ensureDir0700_def Let_def same_recording_def)

lemma kept_acquire: "is_lock_name p \<Longrightarrow> lease_kept hex h w (snd (tryAcquireHandle F root p x w))"
proof -
  assume p: "is_lock_name p"
  have "same_recording hex w (snd (tryAcquireHandle F root p x w))"
    using acquire_files [of F root p x w] p by (auto simp: same_recording_def update_conv')
  moreover have "holders q w \<subseteq> holders q (snd (tryAcquireHandle F root p x w))" for q
  proof (cases "tryAcquireHandle F root p x w")
    case (Pair r w')
    then show ?thesis
      by (cases r) (auto dest!: acquire_refused acquire_granted(2) simp: holders_def)
  qed
  ultimately show ?thesis using lock_ok_acquire [of w F root p x] by (auto simp: lease.kept_def)
qed

lemma guards_other:
  assumes "lock_ok w" "h \<in> holders (hex @ ''.mcap.lock'') w" "hex_name hex" "guards h' name w" "h' \<noteq> h"
  shows "name \<noteq> hex @ ''.mcap'' \<and> name \<noteq> hex @ ''.mcap.lock''"
proof -
  have "name \<noteq> hex @ ''.mcap''"
  proof
    assume n: "name = hex @ ''.mcap''"
    from assms(4) identity_not_partial [OF assms(3)] obtain l where
      l: "l \<in> set (w_locks w)" "fl_handle l = h'" "fl_exclusive l" "fl_name l = hex @ ''.mcap.lock''"
      by (auto simp: guards_def n lockPathFor_def)
    from assms(2) obtain l' where "l' \<in> set (w_locks w)" "fl_handle l' = h" "fl_name l' = hex @ ''.mcap.lock''"
      by (auto simp: holders_def)
    with l assms(1,5) show False by (force simp: lock_ok_def)
  qed
  moreover have "name \<noteq> hex @ ''.mcap.lock''"
    using assms(4) identity_not_partial [OF assms(3)] by (auto simp: guards_def)
  ultimately show ?thesis ..
qed

lemma kept_if_leased:
  "(lock_ok w \<Longrightarrow> h \<in> holders (hex @ ''.mcap.lock'') w \<Longrightarrow> lease_kept hex h w w') \<Longrightarrow> lease_kept hex h w w'"
  by (auto simp: lease.kept_def)

lemma kept_act:
  assumes "act_handle a \<noteq> Some h" "hex_name hex" shows "lease_kept hex h w (act_run a w)"
proof (rule kept_if_leased)
  assume leased: "lock_ok w" "h \<in> holders (hex @ ''.mcap.lock'') w"
  note g = guards_other [OF leased assms(2)]
  show "lease_kept hex h w (act_run a w)"
  proof (cases a)
    case (ATick n)
    then show ?thesis by (auto intro!: kept_world simp: same_recording_def)
  qed (use assms(1) g in \<open>auto simp: kept_acquire kept_touch lease.kept_refl
      intro: kept_put kept_unlink kept_rename lease.kept_free\<close>)
qed

lemma kept_turn:
  assumes "hex_name hex" "\<forall>a \<in> set acts. act_handle a \<noteq> Some h"
  shows "lease_kept hex h w (turn mine acts w)"
proof -
  have "lease_kept hex h w (fold act_run xs w)" if "set xs \<subseteq> set acts" for xs
    using that
  proof (induction xs arbitrary: w)
    case (Cons a xs)
    then show ?case using lease.kept_trans [OF kept_act [of a h hex w] Cons.IH] assms by simp
  qed (simp add: lease.kept_refl)
  then show ?thesis by (simp add: turn_def)
qed

definition foreign :: "nat \<Rightarrow> script \<Rightarrow> bool" where
  "foreign h script \<longleftrightarrow> (\<forall>acts \<in> set script. \<forall>a \<in> set acts. act_handle a \<noteq> Some h)"

lemma foreign_next:
  "foreign h script \<Longrightarrow> next_turn script = (a, s) \<Longrightarrow> foreign h s \<and> (\<forall>x \<in> set a. act_handle x \<noteq> Some h)"
  by (cases script) (auto simp: foreign_def)

lemma next_turn_obtain: obtains a s where "next_turn script = (a, s)"
  by (cases "next_turn script")

lemma sweep_kept:
  assumes hex: "hex_name hex" and f: "foreign h (snd ws)"
  shows "lease_kept hex h (fst ws) (fst (sweep_partial F root cfg now name ws)) \<and>
    foreign h (snd (sweep_partial F root cfg now name ws))"
proof -
  obtain a s where a: "next_turn (snd ws) = (a, s)" by (rule next_turn_obtain)
  obtain b s1 where b: "next_turn s = (b, s1)" by (rule next_turn_obtain)
  note fa = foreign_next [OF f a] and fb = foreign_next [OF conjunct1 [OF foreign_next [OF f a]] b]
  let ?w = "turn [] a (fst ws)"
  note ta = kept_turn [OF hex conjunct2 [OF fa], of "fst ws" "[]"]
  have body: "lease_kept hex h w1 (if f_remove F name then turn [h'] b w1 else unlink name (turn [h'] b w1))"
    if "partial_base name \<noteq> None" for h' w1
  proof -
    have "name \<noteq> hex @ ''.mcap''" "name \<noteq> hex @ ''.mcap.lock''"
      using that identity_not_partial [OF hex] by auto
    from lease.kept_trans [OF kept_turn [OF hex conjunct2 [OF fb]] kept_unlink [OF this]]
      kept_turn [OF hex conjunct2 [OF fb]]
    show ?thesis by simp
  qed
  have "lease_kept hex h ?w w1"
    if "tryExclusive F root (lockPathFor base) ?w = (Inl e, w1)" for base e w1
    using lease.kept_refused [OF _ that] by simp
  moreover have "lease_kept hex h ?w (release_handle h' (if f_remove F name then turn [h'] b w1 else unlink name (turn [h'] b w1)))"
    if "tryExclusive F root (lockPathFor base) ?w = (Inr h', w1)" "partial_base name = Some base" for base h' w1
    by (rule lease.kept_guarded [OF _ that(1)]) (use body that(2) in simp_all)
  ultimately show ?thesis
    using fa fb ta
    by (auto simp: sweep_partial_def Let_def a b release_def intro: lease.kept_trans [OF ta]
        split: option.split prod.split sum.split)
qed

lemma list_kept:
  assumes "hex_name hex" and f: "foreign h (snd (fst st))"
  shows "lease_kept hex h (fst (fst st)) (fst (fst (list_candidate name st))) \<and>
    foreign h (snd (fst (list_candidate name st)))"
proof -
  obtain a s where a: "next_turn (snd (fst st)) = (a, s)" by (rule next_turn_obtain)
  from foreign_next [OF f a] kept_turn [OF assms(1), of a h] show ?thesis
    by (auto simp: list_candidate_def Let_def a split: option.split)
qed

lemma fold_kept:
  assumes "\<And>x ws. foreign h (snd (proj ws)) \<Longrightarrow>
      lease_kept hex h (fst (proj ws)) (fst (proj (f x ws))) \<and> foreign h (snd (proj (f x ws)))"
  shows "foreign h (snd (proj ws)) \<Longrightarrow>
    lease_kept hex h (fst (proj ws)) (fst (proj (fold f xs ws))) \<and> foreign h (snd (proj (fold f xs ws)))"
proof (induction xs arbitrary: ws)
  case (Cons x xs)
  from assms [OF Cons.prems, of x] Cons.IH [of "f x ws"] show ?case
    by (auto intro: lease.kept_trans)
qed (simp add: lease.kept_refl)

lemma evict_kept:
  assumes hex: "hex_name hex"
  shows "\<forall>v \<in> set cs. ends_with (cand_file v) ''.mcap'' \<Longrightarrow> foreign h (snd ws) \<Longrightarrow>
    lease_kept hex h (fst ws) (fst (evict_files F root cfg cs total_bytes ws))"
proof (induction cs arbitrary: total_bytes ws)
  case (Cons v cs)
  obtain a s where a: "next_turn (snd ws) = (a, s)" by (rule next_turn_obtain)
  obtain b s1 where b: "next_turn s = (b, s1)" by (rule next_turn_obtain)
  obtain c s2 where c: "next_turn s1 = (c, s2)" by (rule next_turn_obtain)
  note fa = foreign_next [OF Cons.prems(2) a]
  note fb = foreign_next [OF conjunct1 [OF fa] b]
  note fc = foreign_next [OF conjunct1 [OF fb] c]
  let ?f = "cand_file v" and ?w = "turn [] a (fst ws)"
  note ta = kept_turn [OF hex conjunct2 [OF fa], of "fst ws" "[]"]
  note tb = kept_turn [OF hex conjunct2 [OF fb]] and tc = kept_turn [OF hex conjunct2 [OF fc]]
  have refused: "lease_kept hex h ?w w1" if "tryExclusive F root (lockPathFor ?f) ?w = (Inl e, w1)" for e w1
    using lease.kept_refused [OF _ that] by simp
  have skipped: "lease_kept hex h ?w (release_handle h' (turn [h'] b w1))"
    if "tryExclusive F root (lockPathFor ?f) ?w = (Inr h', w1)" for h' w1
    by (rule lease.kept_guarded [OF _ that]) (simp_all add: tb)
  have removed: "lease_kept hex h ?w (release_handle h'
      (let w3 = turn [h'] c (unlink ?f (turn [h'] b w1)) in if r then w3 else unlink (touchPathFor ?f) w3))"
    if t: "tryExclusive F root (lockPathFor ?f) ?w = (Inr h', w1)" for h' w1 r
  proof (rule lease.kept_guarded [OF _ t])
    assume n: "lockPathFor ?f \<noteq> hex @ ''.mcap.lock''"
    have "lease_kept hex h (turn [h'] b w1) (unlink ?f (turn [h'] b w1))"
      using n Cons.prems(1) by (intro kept_unlink) auto
    from lease.kept_trans [OF lease.kept_trans [OF tb this] tc]
    have w3: "lease_kept hex h w1 (turn [h'] c (unlink ?f (turn [h'] b w1)))" .
    from w3 lease.kept_trans [OF w3 kept_unlink [of "touchPathFor ?f" hex]]
    show "lease_kept hex h w1 (let w3 = turn [h'] c (unlink ?f (turn [h'] b w1)) in if r then w3 else unlink (touchPathFor ?f) w3)"
      by (simp add: Let_def)
  qed simp
  have step: "lease_kept hex h (fst ws) (fst (evict_files F root cfg cs n (w', s')))"
    if "lease_kept hex h ?w w'" "foreign h s'" for n w' s'
    using Cons.IH [of "(w', s')" n] Cons.prems(1) that lease.kept_trans [OF lease.kept_trans [OF ta]] by simp
  show ?case
  proof (cases "overBudget F cfg total_bytes ?w")
    case True
    show ?thesis
    proof (cases "tryExclusive F root (lockPathFor ?f) ?w")
      case (Pair r w1)
      show ?thesis
      proof (cases r)
        case (Inl e)
        with Pair True show ?thesis by (simp add: Let_def a step refused fa)
      next
        case (Inr h')
        with Pair True skipped removed [unfolded Let_def] fb fc show ?thesis
          by (simp add: Let_def a b c release_def step del: unlink_simps)
      qed
    qed
  next
    case False
    with ta show ?thesis by (simp add: Let_def a)
  qed
qed (simp add: lease.kept_refl)

lemma candidates_mcap:
  "\<forall>v \<in> set (snd st). ends_with (cand_file v) ''.mcap'' \<Longrightarrow>
   \<forall>v \<in> set (snd (fold list_candidate names st)). ends_with (cand_file v) ''.mcap''"
proof (induction names arbitrary: st)
  case (Cons n names)
  have "\<forall>v \<in> set (snd (list_candidate n st)). ends_with (cand_file v) ''.mcap''"
    using Cons.prems by (auto simp: list_candidate_def Let_def split: option.splits prod.splits)
  from Cons.IH [OF this] show ?case by simp
qed simp

lemma cleanup_kept:
  assumes hex: "hex_name hex" and f: "foreign h script"
  shows "lease_kept hex h w (cleanup F root cfg script w)"
proof (cases "root = [] \<or> w_dir w = None")
  case False
  obtain w1 s1 where 1: "fold (sweep_partial F root cfg (w_now w)) (map fst (w_files w)) (w, script) = (w1, s1)" by fastforce
  obtain w2 s2 cs where 2: "fold list_candidate (map fst (w_files w1)) ((w1, s1), []) = ((w2, s2), cs)" by (metis prod_cases3 prod.collapse)
  have k1: "lease_kept hex h w w1" "foreign h s1"
    using fold_kept [where proj = "\<lambda>x. x" and f = "sweep_partial F root cfg (w_now w)" and ws = "(w, script)"
        and xs = "map fst (w_files w)", OF sweep_kept [OF hex]] f 1 by simp_all
  have k2: "lease_kept hex h w1 w2" "foreign h s2"
    using fold_kept [where proj = fst and f = list_candidate and ws = "((w1, s1), [])"
        and xs = "map fst (w_files w1)", OF list_kept [OF hex]] k1 2 by simp_all
  have cs: "\<forall>v \<in> set (sort_key cand_stamp cs). ends_with (cand_file v) ''.mcap''"
    using candidates_mcap [of "((w1, s1), [])" "map fst (w_files w1)"] 2 by simp
  from lease.kept_trans [OF lease.kept_trans [OF k1(1) k2(1)]]
    evict_kept [OF hex cs, of h "(w2, s2)"] k2(2) False 1 2
  show ?thesis by (auto simp: cleanup_def)
qed (simp add: cleanup_def lease.kept_refl)

section \<open>Runs of operations\<close>

text \<open>
  The operations of any number of processes on one cache, each with the faults it meets. A
  \<open>MaterializeLock\<close> exists only while its lock is held, which guards the publication.
\<close>

datatype cache_op =
  OpAct act
| OpLookup string
| OpTryLock nat string
| OpLease string
| OpShare MaterializeLock "act list"
| OpFinalize MaterializeLock "ExpectedContent option"
| OpCleanup Config script

definition lock_valid :: "MaterializeLock \<Rightarrow> World \<Rightarrow> bool" where
  "lock_valid lock w \<longleftrightarrow>
     (case ml_lock lock of None \<Rightarrow> False | Some h \<Rightarrow> guards h (ml_hex lock @ ''.mcap'') w) \<and>
     partial_base (ml_partial lock) = Some (ml_hex lock @ ''.mcap'')"

fun run_op :: "McapLib \<Rightarrow> string \<Rightarrow> Faults \<times> cache_op \<Rightarrow> World \<Rightarrow> World" where
  "run_op M root (F, OpAct a) w = act_run a w"
| "run_op M root (F, OpLookup identity) w = snd (lookup_file M F root identity w)"
| "run_op M root (F, OpTryLock pid identity) w = snd (tryLockForMaterialize F root pid identity w)"
| "run_op M root (F, OpLease identity) w = snd (acquireReadLease F root identity w)"
| "run_op M root (F, OpShare lock acts) w =
     snd (toSharedLease F (turn (case ml_lock lock of Some h \<Rightarrow> [h] | None \<Rightarrow> []) acts) lock w)"
| "run_op M root (F, OpFinalize lock expected) w =
     (if lock_valid lock w then snd (finalize_file M F root lock expected w) else w)"
| "run_op M root (F, OpCleanup cfg script) w = cleanup F root cfg script w"

fun op_uses :: "nat \<Rightarrow> cache_op \<Rightarrow> bool" where
  "op_uses h (OpAct a) \<longleftrightarrow> act_handle a = Some h"
| "op_uses h (OpShare lock acts) \<longleftrightarrow> ml_lock lock = Some h \<or> (\<exists>a \<in> set acts. act_handle a = Some h)"
| "op_uses h (OpFinalize lock expected) \<longleftrightarrow> ml_lock lock = Some h"
| "op_uses h (OpCleanup cfg script) \<longleftrightarrow> \<not> foreign h script"
| "op_uses h _ \<longleftrightarrow> False"

definition run_ops :: "McapLib \<Rightarrow> string \<Rightarrow> (Faults \<times> cache_op) list \<Rightarrow> World \<Rightarrow> World" where
  "run_ops M root ops w = fold (run_op M root) ops w"

subsection \<open>The lock table\<close>

named_theorems lock_keep \<open>the lock table stays well-formed\<close>

lemma lock_ok_put [simp]: "lock_ok (put_node n x w) = lock_ok w"
  by (rule lock_ok_cong) simp_all

lemma lock_ok_unlink [simp]: "lock_ok (unlink n w) = lock_ok w"
  by (rule lock_ok_cong) simp_all

lemma lock_ok_chmod [simp]: "lock_ok (chmod0600 F n w) = lock_ok w"
  by (simp add: chmod0600_def split: option.split)

lemma lock_ok_touch [simp]: "lock_ok (touchStamp F n w) = lock_ok w"
  by (simp add: touchStamp_def Let_def)

lemma lock_ok_rename [simp]: "lock_ok (rename_file a b w) = lock_ok w"
  by (simp add: rename_file_def split: option.split)

lemma lock_ok_ensureDir [simp]: "lock_ok (ensureDir0700 F w) = lock_ok w"
  by (rule lock_ok_cong) (simp_all add: ensureDir0700_def Let_def)

lemma lock_ok_tick [simp]: "lock_ok (w\<lparr>w_now := t\<rparr>) = lock_ok w"
  by (rule lock_ok_cong) simp_all

lemma lock_ok_act [lock_keep]: "lock_ok w \<Longrightarrow> lock_ok (act_run a w)"
  by (cases a) (simp_all add: lock_ok_acquire lock_ok_release)

lemma lock_ok_turn [lock_keep]: "lock_ok w \<Longrightarrow> lock_ok (turn mine acts w)"
  unfolding turn_def by (rule fold_invariant [where Q = "\<lambda>_. True"]) (simp_all add: lock_ok_act)

lemma lock_ok_try:
  "lock_ok w \<Longrightarrow> tryExclusive F root p w = (r, w') \<Longrightarrow> lock_ok w'"
  "lock_ok w \<Longrightarrow> tryShared F root p w = (r', w') \<Longrightarrow> lock_ok w'"
  using lock_ok_acquire [of w F root p]
  by (auto simp: tryExclusive_def tryShared_def split: prod.splits sum.splits) (metis snd_conv)+

lemma lock_ok_released [lock_keep]: "lock_ok w \<Longrightarrow> lock_ok (release h w)"
  by (simp add: release_def lock_ok_release split: option.split)

lemma lock_ok_sweep: "lock_ok (fst ws) \<Longrightarrow> lock_ok (fst (sweep_partial F root cfg now name ws))"
  by (auto simp: sweep_partial_def Let_def split: option.split prod.split sum.split
      dest!: lock_ok_try(1) [rotated] intro!: lock_keep)

lemma lock_ok_list: "lock_ok (fst (fst st)) \<Longrightarrow> lock_ok (fst (fst (list_candidate name st)))"
  by (auto simp: list_candidate_def Let_def split: option.split prod.split intro!: lock_keep)

lemma lock_ok_evict: "lock_ok (fst ws) \<Longrightarrow> lock_ok (fst (evict_files F root cfg cs n ws))"
proof (induction cs arbitrary: n ws)
  case (Cons v cs)
  then show ?case
    by (auto simp: Let_def split: prod.split sum.split dest!: lock_ok_try(1) [rotated] intro!: lock_keep Cons.IH)
qed simp

lemma lock_ok_cleanup:
  assumes "lock_ok w" shows "lock_ok (cleanup F root cfg script w)"
proof -
  have 1: "lock_ok (fst (fold (sweep_partial F root cfg now) names (w, script)))" for now names
    by (rule fold_invariant [where Q = "\<lambda>_. True"]) (simp_all add: assms lock_ok_sweep)
  have 2: "lock_ok (fst (fst (fold list_candidate names ((w1, s1), []))))" if "lock_ok w1" for w1 s1 names
    by (rule fold_invariant [where Q = "\<lambda>_. True"]) (simp_all add: that lock_ok_list)
  show ?thesis using assms 1 2
    by (auto simp: cleanup_def Let_def split: prod.split intro!: lock_ok_evict) (metis fst_conv)
qed

definition unused :: "nat \<Rightarrow> World \<Rightarrow> bool" where
  "unused h w \<longleftrightarrow> h < w_next w \<and> h \<notin> fl_handle ` set (w_locks w)"

lemma unused_acquire: "unused h w \<Longrightarrow> unused h (snd (tryAcquireHandle F root p x w))"
proof (cases "tryAcquireHandle F root p x w")
  case (Pair r w')
  assume "unused h w"
  with Pair show ?thesis
    by (cases r) (auto simp: unused_def acquire_granted(2,3) dest: acquire_granted(1) acquire_refused)
qed

lemma unused_cong: "w_locks w' = w_locks w \<Longrightarrow> w_next w' = w_next w \<Longrightarrow> unused h w' = unused h w"
  by (simp add: unused_def)

lemma touch_locks [simp]: "w_locks (touchStamp F n w) = w_locks w" "w_next (touchStamp F n w) = w_next w"
  by (simp_all add: touchStamp_def chmod0600_def Let_def split: option.split)

lemma rename_locks [simp]: "w_locks (rename_file a b w) = w_locks w" "w_next (rename_file a b w) = w_next w"
  by (simp_all add: rename_file_def split: option.split)

lemma unused_act: "unused h w \<Longrightarrow> unused h (act_run a w)"
  by (cases a) (auto simp: unused_acquire, auto simp: unused_def release_handle_def)

lemma unused_turn: "unused h w \<Longrightarrow> unused h (turn mine acts w)"
  unfolding turn_def by (rule fold_invariant [where Q = "\<lambda>_. True"]) (simp_all add: unused_act)

lemma lock_named_in: "lock_named h w = Some name \<Longrightarrow> \<exists>l \<in> set (w_locks w). fl_handle l = h \<and> fl_name l = name"
  by (auto simp: lock_named_def find_Some_iff)

lemma unused_release: "lock_ok w \<Longrightarrow> lock_named h w = Some name \<Longrightarrow> unused h (release_handle h w)"
  by (auto simp: unused_def release_handle_def lock_ok_def dest!: lock_named_in)

text \<open>A conversion changes nothing, loses the lock, or has it as a shared one after the turn of the others.\<close>

lemma share_cases:
  assumes "toSharedLease F (turn mine acts) lock w = (r, w')"
  obtains (none) "w' = w"
  | (lost) h name where "ml_lock lock = Some h" "lock_named h w = Some name" "w' = turn mine acts (release_handle h w)"
  | (shared) h name t where "ml_lock lock = Some h" "lock_named h w = Some name" "t = turn mine acts (release_handle h w)"
      "w' = t\<lparr>w_locks := \<lparr>fl_handle = h, fl_name = name, fl_exclusive = False\<rparr> # w_locks t\<rparr>"
      "\<forall>l \<in> set (w_locks t). \<not> conflicts name False l"
proof (cases "ml_lock lock")
  case None
  with assms none show ?thesis by (simp add: toSharedLease_def downgradeToShared_def release_def)
next
  case (Some h)
  note h = Some
  show ?thesis
  proof (cases "lock_named h w")
    case None
    with h assms none show ?thesis by (simp add: toSharedLease_def downgradeToShared_def release_def)
  next
    case (Some name)
    define t where "t = turn mine acts (release_handle h w)"
    have "w' = t \<or> (\<forall>l \<in> set (w_locks t). \<not> conflicts name False l) \<and>
        w' = t\<lparr>w_locks := \<lparr>fl_handle = h, fl_name = name, fl_exclusive = False\<rparr> # w_locks t\<rparr>"
      using assms h Some
      by (simp add: toSharedLease_def downgradeToShared_def release_def Let_def split: option.splits if_splits flip: t_def)
    with lost [OF h Some] shared [OF h Some t_def] show ?thesis unfolding t_def by blast
  qed
qed

lemma lock_ok_share:
  assumes ok: "lock_ok w" shows "lock_ok (snd (toSharedLease F (turn mine acts) lock w))"
proof -
  obtain r w' where e: "toSharedLease F (turn mine acts) lock w = (r, w')" by fastforce
  have "lock_ok w'"
    using e
  proof (cases rule: share_cases)
    case (shared h name t)
    have "unused h t" using ok shared by (simp add: unused_turn unused_release)
    moreover have "lock_ok t" using ok shared by (simp add: lock_ok_turn lock_ok_release)
    ultimately show ?thesis using shared by (intro lock_ok_add [of t h w' name False]) (simp_all add: unused_def)
  qed (simp_all add: ok lock_ok_turn lock_ok_release)
  with e show ?thesis by simp
qed

lemma kept_share:
  assumes hex: "hex_name hex" and h: "ml_lock lock \<noteq> Some h" "\<forall>a \<in> set acts. act_handle a \<noteq> Some h"
  shows "lease_kept hex h w (snd (toSharedLease F (turn mine acts) lock w))"
proof -
  obtain r w' where e: "toSharedLease F (turn mine acts) lock w = (r, w')" by fastforce
  have k: "lease_kept hex h w (turn mine acts (release_handle h' w))" if "ml_lock lock = Some h'" for h'
    using that h(1) by (intro lease.kept_trans [OF lease.kept_free kept_turn [OF hex h(2)]]) auto
  have "lease_kept hex h w w'"
    using e
  proof (cases rule: share_cases)
    case (shared h' name t)
    have "lock_ok w'" if "lock_ok w" using lock_ok_share [OF that, of F mine acts lock] e by simp
    with k [OF shared(1)] shared(3,4) show ?thesis by (auto simp: lease.kept_def holders_def same_recording_def)
  qed (simp_all add: k lease.kept_refl)
  with e show ?thesis by simp
qed

lemma partial_of_other:
  "partial_base n = Some base \<Longrightarrow> hex_name hex \<Longrightarrow> n \<noteq> hex @ ''.mcap'' \<and> n \<noteq> hex @ ''.mcap.lock''"
  using identity_not_partial [of hex] by auto

lemma kept_finalize:
  assumes hex: "hex_name hex" and l: "lock_valid lock w" "ml_lock lock \<noteq> Some h"
  shows "lease_kept hex h w (snd (finalize_file M F root lock expected w))"
proof (rule kept_if_leased)
  assume leased: "lock_ok w" "h \<in> holders (hex @ ''.mcap.lock'') w"
  have to: "ml_hex lock @ ''.mcap'' \<noteq> hex @ ''.mcap''"
    using guards_other [OF leased hex] l by (auto simp: lock_valid_def split: option.splits)
  have from_partial: "ml_partial lock \<noteq> hex @ ''.mcap''" "ml_partial lock \<noteq> hex @ ''.mcap.lock''"
    using partial_of_other [OF _ hex] l(1) by (auto simp: lock_valid_def)
  note c = kept_chmod [OF from_partial(1)] and u = kept_unlink [OF from_partial]
  note r = lease.kept_trans [OF c lease.kept_trans [OF kept_rename [OF from_partial to] kept_touch]]
  from c u r lease.kept_trans [OF c u] show "lease_kept hex h w (snd (finalize_file M F root lock expected w))"
    by (auto simp: finalize_file_def fail_finalize_def Let_def lease.kept_refl split: sum.split option.split)
qed

lemma kept_try: "is_lock_name p \<Longrightarrow> tryExclusive F root p w = (r, w') \<Longrightarrow> lease_kept hex h w w'"
  "is_lock_name p \<Longrightarrow> tryShared F root p w = (r', w') \<Longrightarrow> lease_kept hex h w w'"
  using kept_acquire [of p hex h w F root]
  by (auto simp: tryExclusive_def tryShared_def split: prod.splits sum.splits) (metis snd_conv)+

lemma kept_op:
  assumes hex: "hex_name hex" and op: "\<not> op_uses h (snd op)"
  shows "lease_kept hex h w (run_op M root op w)"
proof -
  obtain F p where op': "op = (F, p)" by fastforce
  note e = kept_ensureDir [of hex h w F]
  show ?thesis
  proof (cases p)
    case (OpTryLock pid identity)
    then show ?thesis
      by (auto simp: op' tryLockForMaterialize_def lease.kept_refl split: option.split prod.split sum.split
          dest!: kept_try(1) [rotated, where hex = hex and h = h] intro: lease.kept_trans [OF e])
  next
    case (OpLease identity)
    then show ?thesis
      by (auto simp: op' acquireReadLease_def lease.kept_refl split: option.split prod.split sum.split
          dest!: kept_try(2) [rotated, where hex = hex and h = h] intro: lease.kept_trans [OF e])
  next
    case (OpLookup identity)
    then show ?thesis
      by (auto simp: op' lookup_file_def Let_def lease.kept_refl kept_touch split: option.split sum.split)
  qed (use op hex in \<open>auto simp: op' lease.kept_refl intro: kept_act kept_share kept_finalize cleanup_kept\<close>)
qed

lemma lock_ok_op: "lock_ok w \<Longrightarrow> lock_ok (run_op M root op w)"
proof -
  assume ok: "lock_ok w"
  obtain F p where op: "op = (F, p)" by fastforce
  show ?thesis
  proof (cases p)
    case (OpTryLock pid identity)
    then show ?thesis using ok
      by (auto simp: op tryLockForMaterialize_def split: option.split prod.split sum.split dest!: lock_ok_try(1) [rotated])
  next
    case (OpLease identity)
    then show ?thesis using ok
      by (auto simp: op acquireReadLease_def split: option.split prod.split sum.split dest!: lock_ok_try(2) [rotated])
  qed (use ok in \<open>auto simp: op lock_ok_act lock_ok_share lock_ok_cleanup lookup_file_def finalize_file_def fail_finalize_def
      Let_def split: option.split sum.split\<close>)
qed

lemma lock_ok_ops: "lock_ok w \<Longrightarrow> lock_ok (run_ops M root ops w)"
  unfolding run_ops_def by (rule fold_invariant [where Q = "\<lambda>_. True"]) (simp_all add: lock_ok_op)

lemma kept_ops:
  "hex_name hex \<Longrightarrow> \<forall>op \<in> set ops. \<not> op_uses h (snd op) \<Longrightarrow> lease_kept hex h w (run_ops M root ops w)"
proof (induction ops arbitrary: w)
  case (Cons op ops)
  then show ?case using lease.kept_trans [OF kept_op [of hex h op w M root]] by (simp add: run_ops_def)
qed (simp add: run_ops_def lease.kept_refl)

lemma identityHex_Some:
  assumes "identityHex identity = Some hex"
  shows "identity = kIdentityPrefix @ hex" "length hex = 32" "hex_name hex"
proof -
  have h: "hex = drop (length kIdentityPrefix) identity" "take (length kIdentityPrefix) identity = kIdentityPrefix"
      "length identity = length kIdentityPrefix + 32"
    using assms by (auto simp: identityHex_def kDigestHexChars_def Let_def split: if_splits)
  then show "identity = kIdentityPrefix @ hex" "length hex = 32" by (metis append_take_drop_id, simp)
  have "\<not> (CHR ''0'' \<le> CHR ''.'' \<and> CHR ''.'' \<le> CHR ''9'' \<or> CHR ''a'' \<le> CHR ''.'' \<and> CHR ''.'' \<le> CHR ''f'')"
    by (simp add: less_eq_char_def)
  then show "hex_name hex" using assms
    by (auto simp: identityHex_def hex_name_def Let_def list_all_iff split: if_splits)
qed

text \<open>
  C5: A leased recording is neither removed nor replaced. Whatever operations ran before from an
  empty lock table, once a process has taken a read lease of an identity, no sequence of lookups,
  locks, leases, publications and cleanups of other processes, with any faults and with any
  interleaving inside the cleanups, changes the recording, and nobody can lock it for
  materialization while the lease is held.
\<close>

theorem leased_recording_kept:
  assumes "w_locks w0 = []" and "w = run_ops M root before w0"
    and "identityHex identity = Some hex" and "acquireReadLease F root identity w = (Inr h, w1)"
    and "\<forall>op \<in> set ops. \<not> op_uses h (snd op)" and "w2 = run_ops M root ops w1"
  shows "node_of w2 (hex @ ''.mcap'') = node_of w1 (hex @ ''.mcap'') \<and> node_of w2 (hex @ ''.mcap.lock'') \<noteq> None \<and>
    h \<in> holders (hex @ ''.mcap.lock'') w2 \<and> (\<exists>e. fst (tryLockForMaterialize F' root pid identity w2) = Inl e)"
proof -
  have ok: "lock_ok w" using assms(1,2) lock_ok_ops [of w0] by (simp add: lock_ok_def)
  have root: "root \<noteq> []" using assms(3,4) by (auto simp: acquireReadLease_def split: if_splits)
  then obtain w' where w': "w' = ensureDir0700 F w" "tryAcquireHandle F root (hex @ ''.mcap.lock'') False w' = (Inr h, w1)"
    using assms(3,4) by (auto simp: acquireReadLease_def tryShared_def split: prod.splits sum.splits)
  have ok1: "lock_ok w1" using lock_ok_acquire [of w' F root "hex @ ''.mcap.lock''" False] ok w' by simp
  have h1: "h \<in> holders (hex @ ''.mcap.lock'') w1" using acquire_granted(2) [OF w'(2)] by (simp add: holders_def)
  have lf: "node_of w1 (hex @ ''.mcap.lock'') \<noteq> None"
    using w'(2) by (auto simp: tryAcquireHandle_def Let_def split: option.splits if_splits)
  from kept_ops [OF identityHex_Some(3) [OF assms(3)] assms(5), of w1 M root] ok1 h1 assms(6)
  have k: "lock_ok w2" "h \<in> holders (hex @ ''.mcap.lock'') w2" "same_recording hex w1 w2" by (simp_all add: lease.kept_def)
  have "lock_ok (ensureDir0700 F' w2)" "holders (hex @ ''.mcap.lock'') (ensureDir0700 F' w2) \<noteq> {}"
    using k by (simp, auto simp: holders_def ensureDir0700_def Let_def)
  then have "tryExclusive F' root (hex @ ''.mcap.lock'') (ensureDir0700 F' w2) \<noteq> (Inr h', v)" for h' v
    by (metis fl.granted)
  then have "\<exists>e. fst (tryLockForMaterialize F' root pid identity w2) = Inl e"
    using assms(3) root by (auto simp: tryLockForMaterialize_def split: prod.split sum.split)
  with k lf show ?thesis by (auto simp: same_recording_def)
qed

section \<open>Lookup and publication\<close>

text \<open>What a file that passes the validation is.\<close>

definition genuine :: "McapLib \<Rightarrow> string \<Rightarrow> string \<Rightarrow> ExpectedContent option \<Rightarrow> bool" where
  "genuine M bytes hex expected \<longleftrightarrow>
     (\<exists>summary stats index rec metadata json_text declared.
        mcap_open M bytes = None \<and> mcap_summary M bytes = Inr summary \<and> ms_statistics summary = Some stats \<and>
        (\<forall>e. expected = Some e \<longrightarrow> fst stats = message_count e \<and> ucast (snd stats) = channel_count e) \<and>
        map_of (ms_metadata_indexes summary) kProvenanceName = Some index \<and>
        declared = le64 (take 9 (drop (unat (mi_offset index)) bytes)) 1 \<and>
        unat declared \<le> 1024 * 1024 \<and> unat (mi_offset index) + 9 + unat declared \<le> length bytes \<and>
        mcap_read_record M bytes (mi_offset index) = Inr rec \<and> mcap_parse_metadata M rec = Inr metadata \<and>
        map_of metadata ''json'' = Some json_text \<and> sha256HexPrefix (str_bytes json_text) 16 = hex)"

lemma on_error_Inr [simp]: "on_error p r = Inr x \<longleftrightarrow> r = Inr x"
  by (simp add: on_error_def split: sum.split)

lemma of_option_Inr [simp]: "of_option e m = Inr x \<longleftrightarrow> m = Some x"
  by (simp add: of_option_def split: option.split)

lemma preflight_bounds:
  assumes "raw_preflight F name bytes index" and "length bytes < 2 ^ 64"
  shows "unat (le64 (take 9 (drop (unat (mi_offset index)) bytes)) 1) \<le> 1024 * 1024 \<and>
    unat (mi_offset index) + 9 + unat (le64 (take 9 (drop (unat (mi_offset index)) bytes)) 1) \<le> length bytes"
proof -
  define d where "d = le64 (take 9 (drop (unat (mi_offset index)) bytes)) 1"
  let ?o = "mi_offset index"
  have r: "unat ?o < 2 ^ 63" "d \<le> 1048576" "?o + 9 + d \<le> word_of_nat (length bytes)"
    using assms(1) by (auto simp: raw_preflight_def read_at_def Let_def d_def kQueryMetadataBudget_def
        split: option.splits if_splits)
  have d: "unat d \<le> 1048576" using r(2) by (simp add: word_le_nat_alt)
  have 1: "unat (?o + 9) = unat ?o + 9" using r(1) by (subst unat_add_lem [THEN iffD1]) simp_all
  have "unat (?o + 9 + d) = unat ?o + 9 + unat d" using r(1) d 1 by (subst unat_add_lem [THEN iffD1]) simp_all
  moreover have "unat (word_of_nat (length bytes) :: u64) = length bytes"
    using assms(2) by (simp add: unat_of_nat)
  ultimately show ?thesis using r(3) d unfolding d_def [symmetric] by (simp add: word_le_nat_alt)
qed

lemma validate_genuine:
  assumes "validate_bytes M F name bytes hex expected = Inr u" and "length bytes < 2 ^ 64"
  shows "genuine M bytes hex expected"
proof -
  from assms(1) obtain summary stats index rec metadata json_text where
    v: "mcap_open M bytes = None" "mcap_summary M bytes = Inr summary" "ms_statistics summary = Some stats"
      "check_expected expected stats = Inr ()" "map_of (ms_metadata_indexes summary) kProvenanceName = Some index"
      "raw_preflight F name bytes index" "mcap_read_record M bytes (mi_offset index) = Inr rec"
      "mcap_parse_metadata M rec = Inr metadata" "map_of metadata ''json'' = Some json_text"
      "sha256HexPrefix (str_bytes json_text) 16 = hex"
    by (auto simp: validate_bytes_def bindR_Inr_iff kDigestHexChars_def split: option.splits)
  have "fst stats = message_count e \<and> ucast (snd stats) = channel_count e" if "expected = Some e" for e
    using v(4) that by (simp add: check_expected_def)
  with v preflight_bounds [OF v(6) assms(2)] show ?thesis unfolding genuine_def by blast
qed

lemma touch_other [simp]: "name \<noteq> touchPathFor file \<Longrightarrow> node_of (touchStamp F file w) name = node_of w name"
  by (simp add: touchStamp_def chmod0600_def Let_def split: option.split)

lemma file_not_touch [simp]: "hex @ ''.mcap'' \<noteq> touchPathFor n"
  using sidecar_names(1) [of n hex] by metis

text \<open>
  C7: A lookup that hits returns the path of the identity, and the file there is genuine: the reader
  opens it and finds Statistics, the embedded descriptor lies inside the file with a declared size
  within the budget, and its hash is the digest of the identity. The recording is left as it is. A
  lookup that misses changes nothing.
\<close>

theorem lookup_hit_genuine:
  assumes "\<forall>node \<in> snd ` set (w_files w). length (node_bytes node) < 2 ^ 64"
    and "lookup_file M F root identity w = (r, w')"
  shows "case r of
     None \<Rightarrow> w' = w
   | Some path \<Rightarrow> \<exists>hex node. identity = kIdentityPrefix @ hex \<and> path = pathFor root identity \<and> path \<noteq> [] \<and>
       node_of w (hex @ ''.mcap'') = Some node \<and> genuine M (node_bytes node) hex None \<and>
       node_of w' (hex @ ''.mcap'') = Some node \<and>
       (\<not> f_touch F \<longrightarrow> map_option node_mtime (node_of w' (touchPathFor (hex @ ''.mcap''))) = Some (w_now w))"
proof (cases r)
  case None
  with assms(2) show ?thesis by (auto simp: lookup_file_def Let_def split: option.splits sum.splits if_splits)
next
  case (Some path)
  then obtain hex node where h: "identityHex identity = Some hex" "root \<noteq> []" "path = path_join root (hex @ ''.mcap'')"
      "node_of w (hex @ ''.mcap'') = Some node" "validateMcap M F (hex @ ''.mcap'') hex None w = Inr ()"
      "w' = touchStamp F (hex @ ''.mcap'') w"
    using assms(2) by (auto simp: lookup_file_def Let_def split: option.splits sum.splits if_splits)
  have "node \<in> snd ` set (w_files w)" using map_of_SomeD [OF h(4)] by force
  with assms(1) have "length (node_bytes node) < 2 ^ 64" by blast
  moreover have "validate_bytes M F (hex @ ''.mcap'') (node_bytes node) hex None = Inr ()"
    using h(4,5) by (auto simp: validateMcap_def bindR_Inr_iff)
  ultimately have "genuine M (node_bytes node) hex None" by (intro validate_genuine)
  moreover have "path \<noteq> []" using h(3) by (simp add: path_join_def)
  moreover have "\<not> f_touch F \<longrightarrow> map_option node_mtime (node_of w' (touchPathFor (hex @ ''.mcap''))) = Some (w_now w)"
    by (auto simp: h(6) touchStamp_def chmod0600_def Let_def)
  ultimately show ?thesis using h Some identityHex_Some(1) [OF h(1)] by (auto simp: pathFor_def)
qed

lemma validate_other:
  assumes "validateMcap M F partial hex expected w = Inr u" "f_read F' name = None"
    and "map_option node_bytes (node_of w' name) = map_option node_bytes (node_of w partial)"
  shows "validateMcap M F' name hex None w' = Inr ()"
proof -
  from assms(1) obtain node where node: "node_of w partial = Some node"
    by (auto simp: validateMcap_def bindR_Inr_iff split: option.splits)
  with assms(3) obtain node' where node': "node_of w' name = Some node'" "node_bytes node' = node_bytes node" by auto
  have s: "summarySpanWithinBudget F' name w' = Inr ()" if "summarySpanWithinBudget F partial w = Inr ()"
    using that node node' assms(2) by (simp add: summarySpanWithinBudget_def Let_def split: if_splits)
  have p: "raw_preflight F' name b i" if "raw_preflight F partial b i" for b i
    using that assms(2) by (auto simp: raw_preflight_def Let_def split: option.splits if_splits)
  show ?thesis using assms(1) node node' s p
    by (auto simp: validateMcap_def validate_bytes_def bindR_Inr_iff check_expected_def)
qed

lemma chmod_bytes [simp]: "map_option node_bytes (node_of (chmod0600 F n w) m) = map_option node_bytes (node_of w m)"
  by (simp add: chmod0600_def split: option.split)

lemma rename_node:
  "node_of w from = Some node \<Longrightarrow> from \<noteq> to \<Longrightarrow>
   node_of (rename_file from to w) n = (if n = to then Some node else if n = from then None else node_of w n)"
  by (simp add: rename_file_def)

lemma chmod_other [simp]: "m \<noteq> n \<Longrightarrow> node_of (chmod0600 F n w) m = node_of w m"
  by (simp add: chmod0600_def split: option.split)

lemma partial_not_touch:
  assumes "partial_base (touchPathFor (hex @ ''.mcap'')) = Some b" "hex_name hex" shows False
proof -
  have "count_list (touchPathFor (hex @ ''.mcap'')) CHR ''.'' < 3"
    using assms(2) by (simp add: touchPathFor_def count_hex)
  with assms(1) partial_base_None show False by fastforce
qed

lemma finalize_published:
  assumes "finalize_file M F root lock expected w = (Inr (), w')" "hex_name (ml_hex lock)" "lock_valid lock w"
  obtains node node' where "node_of w (ml_partial lock) = Some node"
    "validateMcap M F (ml_partial lock) (ml_hex lock) expected w = Inr ()" "node_of w' (ml_hex lock @ ''.mcap'') = Some node'"
    "node_bytes node' = node_bytes node" "node_of w' (ml_partial lock) = None"
proof -
  let ?p = "ml_partial lock" and ?f = "ml_hex lock @ ''.mcap''"
  have base: "partial_base ?p = Some ?f" using assms(3) by (simp add: lock_valid_def)
  have ne: "?p \<noteq> ?f" using partial_of_other [OF base assms(2)] by simp
  have touch: "?p \<noteq> touchPathFor ?f" using partial_not_touch [OF _ assms(2)] base by metis
  have v: "validateMcap M F ?p (ml_hex lock) expected w = Inr ()"
    and w': "w' = touchStamp F ?f (rename_file ?p ?f (chmod0600 F ?p w))"
    using assms(1) by (auto simp: finalize_file_def fail_finalize_def Let_def split: sum.splits option.splits)
  from v obtain node where node: "node_of w ?p = Some node"
    by (auto simp: validateMcap_def bindR_Inr_iff split: option.splits)
  then obtain node' where n: "node_of (chmod0600 F ?p w) ?p = Some node'" "node_bytes node' = node_bytes node"
    by (cases "f_chmod F") (auto simp: chmod0600_def)
  then show ?thesis using that [OF node v, of node'] rename_node [OF n(1) ne] touch ne by (simp add: w')
qed

text \<open>
  C6: A publication either makes the validated partial file, with the message and channel counts the
  producer expects, the recording of the identity, so that the next lookup hits it, or leaves the
  recording as it was and removes the partial file, unless even the removal fails.
\<close>

theorem finalize_all_or_nothing:
  assumes "identityHex identity = Some hex" "root \<noteq> []" and "ml_hex lock = hex" "lock_valid lock w"
    and "\<forall>node \<in> snd ` set (w_files w). length (node_bytes node) < 2 ^ 64"
    and "finalize_file M F root lock expected w = (r, w')"
  shows "case r of
     Inr _ \<Rightarrow> (\<exists>node node'. node_of w (ml_partial lock) = Some node \<and> node_of w' (hex @ ''.mcap'') = Some node' \<and>
        node_bytes node' = node_bytes node \<and> genuine M (node_bytes node) hex expected \<and> node_of w' (ml_partial lock) = None \<and>
        (f_read F' (hex @ ''.mcap'') = None \<longrightarrow> fst (lookup_file M F' root identity w') = Some (pathFor root identity)))
   | Inl e \<Rightarrow> node_of w' (hex @ ''.mcap'') = node_of w (hex @ ''.mcap'') \<and>
        (\<not> f_remove F (ml_partial lock) \<longrightarrow> node_of w' (ml_partial lock) = None)"
proof -
  let ?p = "ml_partial lock" and ?f = "hex @ ''.mcap''"
  note hex = identityHex_Some(3) [OF assms(1)]
  have ne: "?p \<noteq> ?f" using partial_of_other [OF _ hex] assms(3,4) by (auto simp: lock_valid_def)
  show ?thesis
  proof (cases r)
    case (Inl e)
    with assms(3,6) ne show ?thesis
      by (auto simp: finalize_file_def fail_finalize_def Let_def split: sum.splits option.splits if_splits)
  next
    case (Inr u)
    then obtain node node' where p: "node_of w ?p = Some node" "validateMcap M F ?p hex expected w = Inr ()"
        "node_of w' ?f = Some node'" "node_bytes node' = node_bytes node" "node_of w' ?p = None"
      using finalize_published [OF _ _ assms(4)] assms(3,6) hex by (metis old.unit.exhaust)
    then have "validate_bytes M F ?p (node_bytes node) hex expected = Inr ()" by (auto simp: validateMcap_def bindR_Inr_iff)
    moreover have "node \<in> snd ` set (w_files w)" using map_of_SomeD [OF p(1)] by force
    ultimately have g: "genuine M (node_bytes node) hex expected" using assms(5) by (intro validate_genuine) auto
    have "fst (lookup_file M F' root identity w') = Some (pathFor root identity)" if "f_read F' ?f = None"
      using validate_other [OF p(2) that, of w'] p(1,3,4) assms(1,2) by (simp add: lookup_file_def pathFor_def Let_def)
    with Inr g p show ?thesis by auto
  qed
qed

section \<open>A worked example\<close>

text \<open>
  A library whose summary lists one message on one channel and the descriptor at the start of the
  file, with the text \<open>abc\<close>.
\<close>

definition demo_lib :: McapLib where
  "demo_lib = \<lparr>mcap_open = \<lambda>_. None,
     mcap_summary = \<lambda>_. Inr \<lparr>ms_statistics = Some (1, 1),
       ms_metadata_indexes = [(kProvenanceName, \<lparr>mi_offset = 0, mi_length = 40\<rparr>)]\<rparr>,
     mcap_read_record = \<lambda>_ _. Inr [], mcap_parse_metadata = \<lambda>_. Inr [(''json'', ''abc'')]\<rparr>"

definition demo_bytes :: string where
  "demo_bytes = CHR 0x0C # replicate 8 CHR 0x00 @ CHR 0x02 # replicate 36 CHR 0x00"

definition demo_hex :: string where
  "demo_hex = ''ba7816bf8f01cfea414140de5dae2223''"

definition demo_node :: FsNode where
  "demo_node = \<lparr>node_bytes = demo_bytes, node_mtime = 5, node_mode = 384\<rparr>"

definition demo_identity :: string where
  "demo_identity = kIdentityPrefix @ demo_hex"

definition demo_world :: World where
  "demo_world = \<lparr>w_dir = Some 448, w_files = [(demo_hex @ ''.mcap'', demo_node), (''old.mcap'', demo_node)],
     w_locks = [], w_next = 0, w_now = 100\<rparr>"

definition demo_lock :: MaterializeLock where
  "demo_lock = \<lparr>ml_lock = Some 0, ml_hex = demo_hex, ml_partial = demo_hex @ ''.mcap.partial.7''\<rparr>"

definition demo_partial_world :: World where
  "demo_partial_world = snd (tryLockForMaterialize no_faults ''/c'' 7 demo_identity
     \<lparr>w_dir = None, w_files = [(demo_hex @ ''.mcap.partial.7'', demo_node)], w_locks = [], w_next = 0, w_now = 100\<rparr>)"

lemma le64_zero: "\<forall>i \<in> set [0..<8]. byte_at s (k + i) = 0 \<Longrightarrow> le64 s k = 0"
  by (simp add: le64_def upt_rec)

lemma demo_validate:
  assumes "validateMcap demo_lib no_faults name demo_hex expected w = r"
    and "node_of w name = Some demo_node"
    and "expected = None \<or> expected = Some \<lparr>message_count = 1, channel_count = 1\<rparr>"
  shows "r = Inr ()"
proof -
  have "str_bytes ''abc'' = [0x61, 0x62, 0x63]" by code_simp
  then have s: "sha256HexPrefix (str_bytes ''abc'') 16 = demo_hex" using sha256_abc by (simp add: demo_hex_def)
  have z: "le64 (CHR 0x0C # replicate 8 CHR 0x00) 1 = 0" "le64 (CHR 0x02 # replicate 36 CHR 0x00) 9 = 0"
    by (rule le64_zero, code_simp)+
  have h: "take 9 demo_bytes = CHR 0x0C # replicate 8 CHR 0x00" "byte_at (CHR 0x0C # replicate 8 CHR 0x00) 0 = 12" by code_simp+
  have l: "length demo_bytes = 46" "drop 9 demo_bytes = CHR 0x02 # replicate 36 CHR 0x00"
    "byte_at (CHR 0x02 # replicate 36 CHR 0x00) 0 = 2" by code_simp+
  have p: "raw_preflight no_faults name demo_bytes \<lparr>mi_offset = 0, mi_length = 40\<rparr>"
    using z(1) h l(1) by (simp add: raw_preflight_def no_faults_def read_at_def Let_def kQueryMetadataBudget_def del: replicate.simps)
  have b: "summarySpanWithinBudget no_faults name w = Inr ()"
    using l z(2) assms(2)
    by (simp add: summarySpanWithinBudget_def demo_node_def kMcapTailBytes_def no_faults_def Let_def del: replicate.simps)
  from assms s p b show ?thesis
    by (auto simp: validateMcap_def validate_bytes_def demo_node_def demo_lib_def check_expected_def of_option_def on_error_def
        kQueryMetadataBudget_def kDigestHexChars_def no_faults_def)
qed

lemma demo_identityHex: "identityHex demo_identity = Some demo_hex"
  by code_simp

lemma demo_small: "length (node_bytes demo_node) < 2 ^ 64"
proof -
  have "length (node_bytes demo_node) = 46" by code_simp
  then show ?thesis by simp
qed

theorem lookup_hit_genuine_witness:
  "fst (lookup_file demo_lib no_faults ''/c'' demo_identity demo_world) = Some (''/c/'' @ demo_hex @ ''.mcap'') \<and>
   (\<exists>node. node_of demo_world (demo_hex @ ''.mcap'') = Some node \<and> genuine demo_lib (node_bytes node) demo_hex None)"
proof -
  have n: "node_of demo_world (demo_hex @ ''.mcap'') = Some demo_node" by (simp add: demo_world_def)
  have v: "validateMcap demo_lib no_faults (demo_hex @ ''.mcap'') demo_hex None demo_world = Inr ()"
    by (rule demo_validate [OF refl n]) simp
  obtain w' where l: "lookup_file demo_lib no_faults ''/c'' demo_identity demo_world = (Some (''/c/'' @ demo_hex @ ''.mcap''), w')"
    using v n by (simp add: lookup_file_def demo_identityHex Let_def path_join_def)
  have "\<forall>node \<in> snd ` set (w_files demo_world). length (node_bytes node) < 2 ^ 64" using demo_small by (simp add: demo_world_def)
  from lookup_hit_genuine [OF this l] l show ?thesis by (auto simp: demo_identity_def)
qed

theorem finalize_all_or_nothing_witness:
  "\<exists>w'. finalize_file demo_lib no_faults ''/c'' demo_lock (Some \<lparr>message_count = 1, channel_count = 1\<rparr>) demo_partial_world = (Inr (), w') \<and>
   map_option node_bytes (node_of w' (demo_hex @ ''.mcap'')) = Some demo_bytes \<and>
   fst (lookup_file demo_lib no_faults ''/c'' demo_identity w') = Some (pathFor ''/c'' demo_identity)"
proof -
  let ?e = "Some \<lparr>message_count = 1, channel_count = 1\<rparr>"
  have n: "node_of demo_partial_world (ml_partial demo_lock) = Some demo_node" by code_simp
  have v: "validateMcap demo_lib no_faults (ml_partial demo_lock) demo_hex ?e demo_partial_world = Inr ()"
    by (rule demo_validate [OF refl n]) simp
  have h: "ml_hex demo_lock = demo_hex" by (simp add: demo_lock_def)
  have "node_of (chmod0600 no_faults (ml_partial demo_lock) demo_partial_world) (ml_partial demo_lock) \<noteq> None" by code_simp
  then obtain w' where f: "finalize_file demo_lib no_faults ''/c'' demo_lock ?e demo_partial_world = (Inr (), w')"
    using v h by (auto simp: finalize_file_def syncFile_def no_faults_def Let_def)
  have lv: "lock_valid demo_lock demo_partial_world" by code_simp
  have "\<forall>node \<in> snd ` set (w_files demo_partial_world). node = demo_node \<or> node_bytes node = []" by code_simp
  then have "\<forall>node \<in> snd ` set (w_files demo_partial_world). length (node_bytes node) < 2 ^ 64" using demo_small by auto
  from finalize_all_or_nothing [OF demo_identityHex _ h lv this f, of no_faults] f n show ?thesis
    by (auto simp: no_faults_def demo_node_def)
qed

definition demo_config :: Config where
  "demo_config = \<lparr>max_total_bytes = 0, min_free_bytes = 0, orphan_partial_age = 1\<rparr>"

theorem leased_recording_kept_witness:
  "\<exists>w1. acquireReadLease no_faults ''/c'' demo_identity demo_world = (Inr 0, w1) \<and>
   node_of (run_ops demo_lib ''/c'' [(no_faults, OpCleanup demo_config [])] w1) (demo_hex @ ''.mcap'') = Some demo_node \<and>
   node_of (run_ops demo_lib ''/c'' [(no_faults, OpCleanup demo_config [])] w1) ''old.mcap'' = None"
proof -
  let ?ops = "[(no_faults, OpCleanup demo_config [])]"
  obtain w1 where w1: "w1 = snd (acquireReadLease no_faults ''/c'' demo_identity demo_world)" by simp
  have f: "fst (acquireReadLease no_faults ''/c'' demo_identity demo_world) = Inr 0" by code_simp
  with w1 have l: "acquireReadLease no_faults ''/c'' demo_identity demo_world = (Inr 0, w1)" by (simp add: prod_eq_iff)
  have old: "node_of (run_ops demo_lib ''/c'' ?ops w1) ''old.mcap'' = None" unfolding w1 by code_simp
  have n: "node_of w1 (demo_hex @ ''.mcap'') = Some demo_node" unfolding w1 by code_simp
  have u: "\<forall>op \<in> set ?ops. \<not> op_uses 0 (snd op)" by (simp add: foreign_def)
  have "w_locks demo_world = []" "demo_world = run_ops demo_lib ''/c'' [] demo_world"
    by (simp_all add: demo_world_def run_ops_def)
  from leased_recording_kept [OF this demo_identityHex l u refl] l n old show ?thesis by auto
qed

end
