(* ===== verification/Cache_Eviction.thy ===== *)
theory Cache_Eviction
  imports Session_File_Cache
begin

text \<open>
  What the cleanup of \<open>session_file_cache.cpp\<close> removes when nobody interferes: exactly the oldest
  recordings that nobody holds, and no more of them than the budget asks for.
\<close>

section \<open>Candidates\<close>

definition candidate_of :: "World \<Rightarrow> string \<times> FsNode \<Rightarrow> Candidate" where
  "candidate_of w nn =
     \<lparr>cand_file = fst nn, cand_size = length (node_bytes (snd nn)),
      cand_stamp = (case node_of w (touchPathFor (fst nn)) of Some t \<Rightarrow> node_mtime t | None \<Rightarrow> node_mtime (snd nn))\<rparr>"

text \<open>The recordings in the directory, in its order.\<close>

definition recordings :: "World \<Rightarrow> Candidate list" where
  "recordings w = map (candidate_of w) (filter (\<lambda>nn. ends_with (fst nn) ''.mcap'') (w_files w))"

text \<open>No call fails and the disk has room.\<close>

definition calm :: "Faults \<Rightarrow> Config \<Rightarrow> bool" where
  "calm F cfg \<longleftrightarrow> (\<forall>n. f_open F n = None \<and> \<not> f_remove F n) \<and> f_flock F = None \<and>
     (\<forall>w. case f_space F w of None \<Rightarrow> True | Some available \<Rightarrow> min_free_bytes cfg \<le> available)"

text \<open>Every partial file is younger than the threshold.\<close>

definition no_orphans :: "Config \<Rightarrow> World \<Rightarrow> bool" where
  "no_orphans cfg w \<longleftrightarrow>
     (\<forall>(n, node) \<in> set (w_files w). partial_base n = None \<or> w_now w - node_mtime node < orphan_partial_age cfg)"

definition unheld :: "World \<Rightarrow> Candidate \<Rightarrow> bool" where
  "unheld w c \<longleftrightarrow> holders (lockPathFor (cand_file c)) w = {}"

lemma turn_Nil [simp]: "turn mine [] w = w"
  by (simp add: turn_def)

lemma sweep_none:
  assumes "no_orphans cfg w" "distinct (map fst (w_files w))" "n \<in> set (map fst (w_files w))"
  shows "sweep_partial F root cfg (w_now w) n (w, []) = (w, [])"
proof -
  obtain node where "node_of w n = Some node" "(n, node) \<in> set (w_files w)" using assms(2,3) by auto
  with assms(1) show ?thesis by (auto simp: sweep_partial_def no_orphans_def split: option.split)
qed

lemma list_recordings:
  assumes "distinct (map fst (w_files w))" "set nns \<subseteq> set (w_files w)"
  shows "fold list_candidate (map fst nns) ((w, []), cs) =
    ((w, []), cs @ map (candidate_of w) (filter (\<lambda>nn. ends_with (fst nn) ''.mcap'') nns))"
  using assms(2)
proof (induction nns arbitrary: cs)
  case (Cons nn nns)
  then have "node_of w (fst nn) = Some (snd nn)" using assms(1) by simp
  with Cons show ?case by (simp add: list_candidate_def candidate_of_def)
qed simp

lemma fold_fixed: "(\<And>x. x \<in> set xs \<Longrightarrow> f x s = s) \<Longrightarrow> fold f xs s = s"
  by (induction xs) simp_all

lemma cleanup_calm:
  assumes "no_orphans cfg w" "distinct (map fst (w_files w))" "root \<noteq> []" "w_dir w \<noteq> None"
  shows "cleanup F root cfg [] w =
    fst (evict_files F root cfg (sort_key cand_stamp (recordings w)) (total_size (recordings w)) (w, []))"
proof -
  have "fold (sweep_partial F root cfg (w_now w)) (map fst (w_files w)) (w, []) = (w, [])"
    using sweep_none [OF assms(1,2)] by (rule fold_fixed)
  with list_recordings [OF assms(2) subset_refl, of "[]"] assms(3,4) show ?thesis
    by (auto simp: cleanup_def recordings_def)
qed

section \<open>Eviction\<close>

lemma mcap_no_sidecar: "ends_with m ''.mcap'' \<Longrightarrow> m \<noteq> touchPathFor n \<and> m \<noteq> lockPathFor n"
  using sidecar_names(1,3) by (metis ends_with_iff)

lemma acquire_grants:
  assumes "w_dir w \<noteq> None" "f_open F p = None" "f_flock F = None" "\<not> (\<exists>l \<in> set (w_locks w). conflicts p x l)"
  obtains w' where "tryAcquireHandle F root p x w = (Inr (w_next w), w')"
proof (cases "node_of w p = None")
  case True
  with assms that show ?thesis by (auto simp: tryAcquireHandle_def Let_def)
next
  case False
  with assms that show ?thesis by (auto simp: tryAcquireHandle_def Let_def)
qed

lemma try_dir: "tryExclusive F root p w = (r, w') \<Longrightarrow> w_dir w' = w_dir w"
  by (metis acquire_keeps(1) snd_conv tryExclusive_def)

lemma acquire_contended:
  assumes "\<exists>l \<in> set (w_locks w). conflicts p x l"
  obtains e w' where "tryAcquireHandle F root p x w = (Inl e, w')"
  using assms acquire_granted(4) by (metis surj_pair sum.exhaust)

text \<open>One attempt on a victim nobody holds, and on one that is held.\<close>

lemma evict_free:
  assumes "calm F cfg" "lock_ok w" "w_dir w \<noteq> None" "unheld w v" "max_total_bytes cfg < n" "node_of w (cand_file v) \<noteq> None"
  obtains w' where
    "evict_files F root cfg (v # cs) n (w, []) = evict_files F root cfg cs (n - cand_size v) (w', [])"
    "w_locks w' = w_locks w" "w_dir w' \<noteq> None" "lock_ok w'"
    "\<forall>m. ends_with m ''.mcap'' \<longrightarrow> node_of w' m = (if m = cand_file v then None else node_of w m)"
proof -
  let ?lock = "lockPathFor (cand_file v)" and ?h = "w_next w"
  have c: "\<not> (\<exists>l \<in> set (w_locks w). conflicts ?lock True l)"
    using assms(4) by (auto simp: unheld_def holders_def conflicts_def)
  obtain w1 where t: "tryExclusive F root ?lock w = (Inr ?h, w1)"
    using acquire_grants [OF assms(3) _ _ c] assms(1) unfolding tryExclusive_def calm_def by metis
  note g = acquire_granted [OF t [unfolded tryExclusive_def]]
  have files: "node_of w1 m = node_of w m" if "m \<noteq> ?lock" for m
    using acquire_files [of F root ?lock True w] t that by (auto simp: tryExclusive_def update_conv')
  define w' where "w' = release_handle ?h (unlink (touchPathFor (cand_file v)) (unlink (cand_file v) w1))"
  have "cand_file v \<noteq> ?lock" by (simp add: lockPathFor_def)
  then have "evict_files F root cfg (v # cs) n (w, []) = evict_files F root cfg cs (n - cand_size v) (w', [])"
    using assms(1,5,6) t files by (auto simp: overBudget_def calm_def release_def w'_def)
  moreover have "w_locks w' = w_locks w"
  proof -
    have "filter (\<lambda>l. fl_handle l \<noteq> ?h) (w_locks w) = w_locks w" using assms(2) by (intro filter_True) (auto simp: lock_ok_def)
    with g(2) show ?thesis by (simp add: w'_def release_handle_def)
  qed
  moreover have "w_dir w' \<noteq> None" using assms(3) try_dir [OF t] by (simp add: w'_def)
  moreover have "lock_ok w'" using lock_ok_try(1) [OF assms(2) t] by (simp add: w'_def lock_ok_release)
  moreover have "node_of w' m = (if m = cand_file v then None else node_of w m)" if "ends_with m ''.mcap''" for m
    using mcap_no_sidecar [OF that] files by (simp add: w'_def)
  ultimately show ?thesis using that by blast
qed

lemma evict_held:
  assumes "calm F cfg" "lock_ok w" "w_dir w \<noteq> None" "\<not> unheld w v" "max_total_bytes cfg < n"
  obtains w' where
    "evict_files F root cfg (v # cs) n (w, []) = evict_files F root cfg cs n (w', [])"
    "w_locks w' = w_locks w" "w_dir w' \<noteq> None" "lock_ok w'"
    "\<forall>m. ends_with m ''.mcap'' \<longrightarrow> node_of w' m = node_of w m"
proof -
  let ?lock = "lockPathFor (cand_file v)"
  have "\<exists>l \<in> set (w_locks w). conflicts ?lock True l"
    using assms(4) by (auto simp: unheld_def holders_def conflicts_def)
  then obtain e w' where t: "tryExclusive F root ?lock w = (Inl e, w')"
    using acquire_contended unfolding tryExclusive_def by metis
  have "evict_files F root cfg (v # cs) n (w, []) = evict_files F root cfg cs n (w', [])"
    using assms(5) t by (simp add: overBudget_def)
  moreover have "node_of w' m = node_of w m" if "ends_with m ''.mcap''" for m
    using acquire_files [of F root ?lock True w] t mcap_no_sidecar [OF that]
    by (auto simp: tryExclusive_def update_conv')
  moreover have "w_dir w' \<noteq> None" using assms(3) try_dir [OF t] by simp
  ultimately show ?thesis
    using that acquire_refused [OF t [unfolded tryExclusive_def]] lock_ok_try(1) [OF assms(2) t] by blast
qed

text \<open>The victims are a prefix of the free candidates, the shortest that meets the budget.\<close>

definition least_prefix :: "nat \<Rightarrow> nat \<Rightarrow> Candidate list \<Rightarrow> nat \<Rightarrow> bool" where
  "least_prefix limit n cs k \<longleftrightarrow> k \<le> length cs \<and> (\<forall>j < k. limit < n - total_size (take j cs)) \<and>
     (k = length cs \<or> n - total_size (take k cs) \<le> limit)"

lemma least_prefix_0: "n \<le> limit \<Longrightarrow> least_prefix limit n cs 0"
  by (simp add: least_prefix_def total_size_def)

lemma least_prefix_Suc:
  assumes "limit < n" "least_prefix limit (n - cand_size c) cs k" shows "least_prefix limit n (c # cs) (Suc k)"
proof -
  have "limit < n - total_size (take j (c # cs))" if "j < Suc k" for j
    using assms that by (cases j) (auto simp: least_prefix_def total_size_def)
  with assms(2) show ?thesis by (auto simp: least_prefix_def total_size_def)
qed

lemma evict_exact:
  assumes calm: "calm F cfg"
  shows "lock_ok w \<Longrightarrow> w_dir w \<noteq> None \<Longrightarrow> distinct (map cand_file cs) \<Longrightarrow>
     \<forall>c \<in> set cs. ends_with (cand_file c) ''.mcap'' \<and> node_of w (cand_file c) \<noteq> None \<Longrightarrow>
     \<exists>k. least_prefix (max_total_bytes cfg) n (filter (unheld w) cs) k \<and>
       (\<forall>m. ends_with m ''.mcap'' \<longrightarrow> node_of (fst (evict_files F root cfg cs n (w, []))) m =
          (if m \<in> cand_file ` set (take k (filter (unheld w) cs)) then None else node_of w m))"
proof (induction cs arbitrary: n w)
  case Nil
  then show ?case by (auto simp: least_prefix_def)
next
  case (Cons v cs)
  show ?case
  proof (cases "max_total_bytes cfg < n")
    case False
    then have "evict_files F root cfg (v # cs) n (w, []) = (w, [])"
      using calm by (auto simp: overBudget_def calm_def split: option.split) (metis leD option.simps(5))
    with False show ?thesis by (intro exI [of _ 0]) (simp add: least_prefix_0 del: evict_files.simps)
  next
    case over: True
    show ?thesis
    proof (cases "unheld w v")
      case True
      have node: "node_of w (cand_file v) \<noteq> None" using Cons.prems(4) by simp
      obtain w' where w': "evict_files F root cfg (v # cs) n (w, []) = evict_files F root cfg cs (n - cand_size v) (w', [])"
          "w_locks w' = w_locks w" "w_dir w' \<noteq> None" "lock_ok w'"
          "\<forall>m. ends_with m ''.mcap'' \<longrightarrow> node_of w' m = (if m = cand_file v then None else node_of w m)"
        by (rule evict_free [OF calm Cons.prems(1,2) True over node, of root cs])
      have u: "unheld w' = unheld w" using w'(2) by (simp add: unheld_def holders_def fun_eq_iff)
      have "\<forall>c \<in> set cs. ends_with (cand_file c) ''.mcap'' \<and> node_of w' (cand_file c) \<noteq> None"
        using Cons.prems(3,4) w'(5) by (auto simp: image_iff)
      moreover have "distinct (map cand_file cs)" using Cons.prems(3) by simp
      ultimately obtain k where
        k: "least_prefix (max_total_bytes cfg) (n - cand_size v) (filter (unheld w) cs) k"
          "\<forall>m. ends_with m ''.mcap'' \<longrightarrow> node_of (fst (evict_files F root cfg cs (n - cand_size v) (w', []))) m =
            (if m \<in> cand_file ` set (take k (filter (unheld w) cs)) then None else node_of w' m)"
        using Cons.IH [OF w'(4,3), of "n - cand_size v"] unfolding u by blast
      from least_prefix_Suc [OF over k(1)] k(2) w'(1,5) True show ?thesis
        by (intro exI [of _ "Suc k"]) (simp del: evict_files.simps)
    next
      case False
      obtain w' where w': "evict_files F root cfg (v # cs) n (w, []) = evict_files F root cfg cs n (w', [])"
          "w_locks w' = w_locks w" "w_dir w' \<noteq> None" "lock_ok w'" "\<forall>m. ends_with m ''.mcap'' \<longrightarrow> node_of w' m = node_of w m"
        by (rule evict_held [OF calm Cons.prems(1,2) False over, of root cs])
      have u: "unheld w' = unheld w" using w'(2) by (simp add: unheld_def holders_def fun_eq_iff)
      have "\<forall>c \<in> set cs. ends_with (cand_file c) ''.mcap'' \<and> node_of w' (cand_file c) \<noteq> None"
        using Cons.prems(4) w'(5) by auto
      moreover have "distinct (map cand_file cs)" using Cons.prems(3) by simp
      ultimately obtain k where
        k: "least_prefix (max_total_bytes cfg) n (filter (unheld w) cs) k"
          "\<forall>m. ends_with m ''.mcap'' \<longrightarrow> node_of (fst (evict_files F root cfg cs n (w', []))) m =
            (if m \<in> cand_file ` set (take k (filter (unheld w) cs)) then None else node_of w' m)"
        using Cons.IH [OF w'(4,3), of n] unfolding u by blast
      with False w'(1,5) show ?thesis by (intro exI [of _ k]) (simp del: evict_files.simps)
    qed
  qed
qed

section \<open>The property\<close>

lemma recordings_files:
  assumes "distinct (map fst (w_files w))"
  shows "distinct (map cand_file (recordings w))"
    and "\<forall>c \<in> set (recordings w). ends_with (cand_file c) ''.mcap'' \<and> node_of w (cand_file c) \<noteq> None"
proof -
  have "map cand_file (recordings w) = map fst (filter (\<lambda>nn. ends_with (fst nn) ''.mcap'') (w_files w))"
    by (simp add: recordings_def candidate_of_def o_def)
  with assms show "distinct (map cand_file (recordings w))" by (simp add: distinct_map_filter)
  show "\<forall>c \<in> set (recordings w). ends_with (cand_file c) ''.mcap'' \<and> node_of w (cand_file c) \<noteq> None"
    using assms by (auto simp: recordings_def candidate_of_def)
qed

lemma total_size_sort [simp]: "total_size (sort_key f cs) = total_size cs"
  unfolding total_size_def by (metis mset_map mset_sort sum_mset_sum_list)

text \<open>
  C19: When no other process interferes and no call fails, a cleanup removes the least recently used
  recordings that nobody holds, in the order of their stamps, and no more of them than it takes to
  come down to the budget: before each removal the rest is over the budget, and afterwards it is
  within it or only held recordings are left. Every other recording stays.
\<close>

theorem cleanup_evicts_lru:
  assumes "calm F cfg" "lock_ok w" "root \<noteq> []" "w_dir w \<noteq> None"
    and "distinct (map fst (w_files w))" "no_orphans cfg w"
  shows "\<exists>k. let free = filter (unheld w) (sort_key cand_stamp (recordings w)) in
     least_prefix (max_total_bytes cfg) (total_size (recordings w)) free k \<and>
     (\<forall>c \<in> set (recordings w). node_of (cleanup F root cfg [] w) (cand_file c) =
        (if c \<in> set (take k free) then None else node_of w (cand_file c)))"
proof -
  let ?cs = "sort_key cand_stamp (recordings w)"
  note r = recordings_files [OF assms(5)]
  have d: "distinct (map cand_file ?cs)" using r(1) by (metis distinct_map distinct_sort set_sort)
  have "\<forall>c \<in> set ?cs. ends_with (cand_file c) ''.mcap'' \<and> node_of w (cand_file c) \<noteq> None" using r(2) by simp
  from evict_exact [OF assms(1,2,4) d this, of "total_size (recordings w)" root] obtain k where
    k: "least_prefix (max_total_bytes cfg) (total_size (recordings w)) (filter (unheld w) ?cs) k"
      "\<forall>m. ends_with m ''.mcap'' \<longrightarrow> node_of (cleanup F root cfg [] w) m =
         (if m \<in> cand_file ` set (take k (filter (unheld w) ?cs)) then None else node_of w m)"
    using cleanup_calm [OF assms(6,5,3,4), of F] by auto
  have "cand_file c \<in> cand_file ` set (take k (filter (unheld w) ?cs)) \<longleftrightarrow> c \<in> set (take k (filter (unheld w) ?cs))"
    if "c \<in> set (recordings w)" for c
  proof -
    have "inj_on cand_file (set (recordings w))" using r(1) by (simp add: distinct_map)
    moreover have "set (take k (filter (unheld w) ?cs)) \<subseteq> set (recordings w)"
      using set_take_subset [of k "filter (unheld w) ?cs"] by auto
    ultimately show ?thesis using that by (meson inj_on_image_mem_iff)
  qed
  with k r(2) show ?thesis by (auto simp: Let_def)
qed

text \<open>Three recordings; the oldest is leased, the budget has room for two.\<close>

definition lru_world :: World where
  "lru_world = \<lparr>w_dir = Some 448,
     w_files = [(''a.mcap'', \<lparr>node_bytes = ''aaaa'', node_mtime = 1, node_mode = 384\<rparr>),
        (''a.mcap.lock'', \<lparr>node_bytes = [], node_mtime = 1, node_mode = 384\<rparr>),
        (''b.mcap'', \<lparr>node_bytes = ''bb'', node_mtime = 9, node_mode = 384\<rparr>),
        (''b.mcap.touch'', \<lparr>node_bytes = [], node_mtime = 5, node_mode = 384\<rparr>),
        (''c.mcap'', \<lparr>node_bytes = ''ccc'', node_mtime = 7, node_mode = 384\<rparr>)],
     w_locks = [\<lparr>fl_handle = 0, fl_name = ''a.mcap.lock'', fl_exclusive = False\<rparr>], w_next = 1, w_now = 20\<rparr>"

definition lru_config :: Config where
  "lru_config = \<lparr>max_total_bytes = 7, min_free_bytes = 0, orphan_partial_age = 10\<rparr>"

theorem cleanup_evicts_lru_witness:
  "lock_ok lru_world \<and> no_orphans lru_config lru_world \<and>
   (\<exists>k. least_prefix 7 9 (filter (unheld lru_world) (sort_key cand_stamp (recordings lru_world))) k) \<and>
   node_of (cleanup no_faults ''/c'' lru_config [] lru_world) ''a.mcap'' \<noteq> None \<and>
   node_of (cleanup no_faults ''/c'' lru_config [] lru_world) ''b.mcap'' = None \<and>
   node_of (cleanup no_faults ''/c'' lru_config [] lru_world) ''c.mcap'' \<noteq> None"
proof -
  have c: "calm no_faults lru_config" by (simp add: calm_def no_faults_def)
  have l: "lock_ok lru_world" "no_orphans lru_config lru_world" by code_simp+
  have p: "''/c'' \<noteq> []" "w_dir lru_world \<noteq> None" "distinct (map fst (w_files lru_world))" by code_simp+
  have t: "total_size (recordings lru_world) = 9" "max_total_bytes lru_config = 7" by code_simp+
  have "map (\<lambda>n. node_of (cleanup no_faults ''/c'' lru_config [] lru_world) n = None) [''a.mcap'', ''b.mcap'', ''c.mcap''] =
    [False, True, False]" by code_simp
  with cleanup_evicts_lru [OF c l(1) p l(2)] l t show ?thesis by (auto simp: Let_def)
qed

end
