(* ===== verification/Admission.thy ===== *)
theory Admission
  imports Prelude
begin

text \<open>
  The pull-admission gate of \<open>import_runtime.cpp\<close>: one pull at a time, in the order of arrival. A
  pull is a number, used for one call of \<open>acquireAdmission\<close>. Each critical section of the gate's
  mutex is a function; the calls of all threads interleave in runs of these steps. A waiter is
  woken at the latest when its poll interval is over, so a waiting pull can take its step at any
  time.
\<close>

section \<open>The gate\<close>

text \<open>\<open>adm_granted\<close> holds the waiters whose record says granted and who have not looked yet.\<close>

record Gate =
  adm_held :: bool
  adm_queue :: "nat list"
  adm_granted :: "nat list"

datatype admission = Admitted | Cancelled | StillWaiting

definition releaseAdmission :: "Gate \<Rightarrow> Gate" where
  "releaseAdmission g =
     (case adm_queue g of
        next # rest \<Rightarrow> g\<lparr>adm_queue := rest, adm_granted := adm_granted g @ [next]\<rparr>
      | [] \<Rightarrow> g\<lparr>adm_held := False\<rparr>)"

text \<open>The call up to its wait, and one turn of its loop.\<close>

definition acquire_enter :: "nat \<Rightarrow> Gate \<Rightarrow> admission \<times> Gate" where
  "acquire_enter p g =
     (if \<not> adm_held g \<and> adm_queue g = [] then (Admitted, g\<lparr>adm_held := True\<rparr>)
      else (StillWaiting, g\<lparr>adm_queue := adm_queue g @ [p]\<rparr>))"

definition acquire_poll :: "bool \<Rightarrow> nat \<Rightarrow> Gate \<Rightarrow> admission \<times> Gate" where
  "acquire_poll cancelled p g =
     (if p \<in> set (adm_granted g) then (Admitted, g\<lparr>adm_granted := remove1 p (adm_granted g)\<rparr>)
      else if cancelled then
        (let g1 = g\<lparr>adm_queue := remove1 p (adm_queue g)\<rparr> in
         if p \<in> set (adm_granted g1) then (Cancelled, releaseAdmission (g1\<lparr>adm_granted := remove1 p (adm_granted g1)\<rparr>))
         else (Cancelled, g1))
      else (StillWaiting, g))"

section \<open>Runs\<close>

text \<open>
  The gate together with the tickets in use and the history: who arrived, who was admitted and who
  gave up.
\<close>

record Pulls =
  gate :: Gate
  tickets :: "nat list"
  arrived :: "nat list"
  admitted :: "nat list"
  gave_up :: "nat list"
  releases :: nat

definition idle :: Pulls where
  "idle = \<lparr>gate = \<lparr>adm_held = False, adm_queue = [], adm_granted = []\<rparr>, tickets = [], arrived = [], admitted = [],
     gave_up = [], releases = 0\<rparr>"

definition settle_pull :: "nat \<Rightarrow> admission \<times> Gate \<Rightarrow> Pulls \<Rightarrow> Pulls" where
  "settle_pull p r s =
     (case fst r of
        Admitted \<Rightarrow> s\<lparr>gate := snd r, tickets := p # tickets s, admitted := admitted s @ [p]\<rparr>
      | Cancelled \<Rightarrow> s\<lparr>gate := snd r, gave_up := p # gave_up s\<rparr>
      | StillWaiting \<Rightarrow> s\<lparr>gate := snd r\<rparr>)"

inductive pull_step :: "Pulls \<Rightarrow> Pulls \<Rightarrow> bool" where
  Enter: "p \<notin> set (arrived s) \<Longrightarrow> pull_step s (settle_pull p (acquire_enter p (gate s)) (s\<lparr>arrived := arrived s @ [p]\<rparr>))"
| Poll: "p \<in> set (adm_queue (gate s)) \<union> set (adm_granted (gate s)) \<Longrightarrow>
    pull_step s (settle_pull p (acquire_poll cancelled p (gate s)) s)"
| Release: "p \<in> set (tickets s) \<Longrightarrow>
    pull_step s (s\<lparr>gate := releaseAdmission (gate s), tickets := remove1 p (tickets s), releases := releases s + 1\<rparr>)"

inductive_cases pull_stepE: "pull_step s s'"

inductive pull_run :: "Pulls \<Rightarrow> Pulls \<Rightarrow> bool" where
  Start: "pull_run s s"
| Step: "pull_run s s' \<Longrightarrow> pull_step s' s'' \<Longrightarrow> pull_run s s''"

section \<open>The invariant\<close>

text \<open>
  At most one pull has the gate: as a ticket, or handed over and not yet noticed. The pulls that did
  not give up were admitted, are being admitted, or wait, in the order of their arrival.
\<close>

definition gate_inv :: "Pulls \<Rightarrow> bool" where
  "gate_inv s \<longleftrightarrow>
     length (tickets s) + length (adm_granted (gate s)) = (if adm_held (gate s) then 1 else 0) \<and>
     (adm_queue (gate s) \<noteq> [] \<longrightarrow> adm_held (gate s)) \<and> distinct (arrived s) \<and>
     filter (\<lambda>p. p \<notin> set (gave_up s)) (arrived s) = admitted s @ adm_granted (gate s) @ adm_queue (gate s) \<and>
     set (gave_up s) \<subseteq> set (arrived s)"

lemma inv_idle: "gate_inv idle"
  by (simp add: gate_inv_def idle_def)

lemma inv_enter:
  assumes "gate_inv s" "p \<notin> set (arrived s)"
  shows "gate_inv (settle_pull p (acquire_enter p (gate s)) (s\<lparr>arrived := arrived s @ [p]\<rparr>))"
proof -
  have "p \<notin> set (gave_up s)" using assms by (auto simp: gate_inv_def)
  with assms show ?thesis
    by (cases "adm_held (gate s)") (auto simp: gate_inv_def settle_pull_def acquire_enter_def)
qed

lemma filter_drop_one:
  assumes "filter P xs = ys @ zs" "distinct xs" "p \<in> set zs"
  shows "filter (\<lambda>q. q \<noteq> p \<and> P q) xs = ys @ remove1 p zs"
proof -
  have d: "distinct (ys @ zs)" using assms(1,2) by (metis distinct_filter)
  have c: "(\<lambda>q. q \<noteq> p) = (\<lambda>q. p \<noteq> q)" by auto
  have "filter (\<lambda>q. q \<noteq> p \<and> P q) xs = filter (\<lambda>q. q \<noteq> p) (ys @ zs)" by (simp flip: assms(1) add: conj_commute)
  also have "\<dots> = remove1 p (ys @ zs)"
    unfolding c using d by (simp add: distinct_remove1_removeAll removeAll_filter_not_eq)
  also have "\<dots> = ys @ remove1 p zs" using d assms(3) by (auto simp: remove1_append)
  finally show ?thesis .
qed

lemma inv_poll:
  assumes inv: "gate_inv s" and p: "p \<in> set (adm_queue (gate s)) \<union> set (adm_granted (gate s))"
  shows "gate_inv (settle_pull p (acquire_poll cancelled p (gate s)) s)"
proof (cases "p \<in> set (adm_granted (gate s))")
  case True
  have "length (adm_granted (gate s)) \<le> 1" using inv by (auto simp: gate_inv_def split: if_splits)
  with True have "adm_granted (gate s) = [p]" by (cases "adm_granted (gate s)") auto
  with inv show ?thesis by (auto simp: gate_inv_def settle_pull_def acquire_poll_def split: if_splits)
next
  case False
  show ?thesis
  proof (cases cancelled)
    case True
    have f: "filter (\<lambda>p. p \<notin> set (gave_up s)) (arrived s) = (admitted s @ adm_granted (gate s)) @ adm_queue (gate s)"
      "distinct (arrived s)" using inv by (simp_all add: gate_inv_def)
    have "p \<in> set (filter (\<lambda>p. p \<notin> set (gave_up s)) (arrived s))" unfolding f(1) using p by auto
    then have "p \<in> set (arrived s)" by simp
    moreover from filter_drop_one [OF f, of p] p False
    have "filter (\<lambda>q. q \<noteq> p \<and> q \<notin> set (gave_up s)) (arrived s) = admitted s @ adm_granted (gate s) @ remove1 p (adm_queue (gate s))"
      by simp
    ultimately show ?thesis using inv False True p
      by (auto simp: gate_inv_def settle_pull_def acquire_poll_def)
  qed (use inv False in \<open>simp add: settle_pull_def acquire_poll_def\<close>)
qed

lemma inv_release:
  assumes "gate_inv s" "p \<in> set (tickets s)"
  shows "gate_inv (s\<lparr>gate := releaseAdmission (gate s), tickets := remove1 p (tickets s), releases := releases s + 1\<rparr>)"
proof -
  have "length (tickets s) \<le> 1" using assms(1) by (auto simp: gate_inv_def split: if_splits)
  with assms(2) have "tickets s = [p]" by (cases "tickets s") auto
  with assms(1) show ?thesis by (auto simp: gate_inv_def releaseAdmission_def split: list.split if_splits)
qed

lemma inv_pull_step: "pull_step s s' \<Longrightarrow> gate_inv s \<Longrightarrow> gate_inv s'"
  by (induction rule: pull_step.induct) (erule (1) inv_enter inv_poll inv_release)+

lemma inv_pull_run: "pull_run s s' \<Longrightarrow> gate_inv s \<Longrightarrow> gate_inv s'"
  by (induction rule: pull_run.induct) (auto intro: inv_pull_step)

text \<open>The branch for a grant that races a cancel is never taken: the mutex is held from the first test on.\<close>

lemma racing_grant_unreachable:
  "acquire_poll cancelled p g =
     (if p \<in> set (adm_granted g) then (Admitted, g\<lparr>adm_granted := remove1 p (adm_granted g)\<rparr>)
      else if cancelled then (Cancelled, g\<lparr>adm_queue := remove1 p (adm_queue g)\<rparr>) else (StillWaiting, g))"
  by (simp add: acquire_poll_def)

text \<open>
  C12: In every interleaving of pulls that arrive, wait, give up and release, at most one has the
  gate at a time, nobody waits while the gate is free, and the pulls are admitted in the order in
  which they arrived, those that gave up left out.
\<close>

theorem admission_exclusive_fifo:
  assumes "pull_run idle s"
  shows "length (tickets s) \<le> 1 \<and> (adm_queue (gate s) \<noteq> [] \<longrightarrow> adm_held (gate s)) \<and>
     (adm_held (gate s) \<longleftrightarrow> tickets s \<noteq> [] \<or> adm_granted (gate s) \<noteq> []) \<and>
     (\<exists>waiting. filter (\<lambda>p. p \<notin> set (gave_up s)) (arrived s) = admitted s @ waiting)"
  using inv_pull_run [OF assms inv_idle] by (auto simp: gate_inv_def split: if_splits)

section \<open>Every waiting pull is served\<close>

definition position :: "nat \<Rightarrow> nat list \<Rightarrow> nat" where
  "position p xs = length (takeWhile (\<lambda>q. q \<noteq> p) xs)"

lemma position_append: "p \<in> set xs \<Longrightarrow> position p (xs @ ys) = position p xs"
  by (simp add: position_def takeWhile_append1)

lemma position_remove1: "p \<in> set xs \<Longrightarrow> q \<noteq> p \<Longrightarrow> position p (remove1 q xs) \<le> position p xs"
  by (induction xs) (auto simp: position_def)

text \<open>A pull in the queue moves forward with every release, unless it leaves the queue.\<close>

definition moved_up :: "nat \<Rightarrow> nat \<Rightarrow> nat \<Rightarrow> Pulls \<Rightarrow> bool" where
  "moved_up p start base s \<longleftrightarrow> p \<in> set (arrived s) \<and> base \<le> releases s \<and>
     (p \<in> set (adm_queue (gate s)) \<longrightarrow> position p (adm_queue (gate s)) + (releases s - base) \<le> start)"

lemma queue_distinct: "gate_inv s \<Longrightarrow> distinct (adm_queue (gate s))"
  by (metis distinct_append distinct_filter gate_inv_def)

lemma moved_up_step:
  assumes "pull_step s s'" "gate_inv s" "moved_up p start base s" shows "moved_up p start base s'"
  using assms
proof (induction rule: pull_step.induct)
  case (Enter q s)
  then show ?case
    by (auto simp: moved_up_def settle_pull_def acquire_enter_def position_append)
next
  case (Poll q s cancelled)
  have "p \<notin> set (remove1 q (adm_queue (gate s))) \<or>
      p \<in> set (adm_queue (gate s)) \<and> position p (remove1 q (adm_queue (gate s))) \<le> position p (adm_queue (gate s))"
    using queue_distinct [OF Poll(2)] position_remove1 by (cases "q = p") (auto dest: notin_set_remove1)
  with Poll show ?case
    by (auto simp: moved_up_def settle_pull_def racing_grant_unreachable)
next
  case (Release q s)
  then show ?case using queue_distinct [OF Release(2)]
    by (cases "adm_queue (gate s)") (auto simp: moved_up_def releaseAdmission_def position_def split: if_splits)
qed

lemma moved_up_run: "pull_run s s' \<Longrightarrow> gate_inv s \<Longrightarrow> moved_up p start base s \<Longrightarrow> moved_up p start base s'"
  by (induction rule: pull_run.induct) (auto intro: moved_up_step inv_pull_run)

text \<open>
  C24: A waiting pull is served: once as many tickets have been released as pulls were before it in
  the queue, and one more, it has been admitted or handed the gate, unless it gave up. Later
  arrivals cannot delay it.
\<close>

theorem admission_served:
  assumes "pull_run idle s" and "p \<in> set (adm_queue (gate s))" and "pull_run s s'"
    and "releases s + position p (adm_queue (gate s)) < releases s'"
  shows "p \<in> set (admitted s') \<union> set (adm_granted (gate s')) \<union> set (gave_up s')"
proof -
  have inv: "gate_inv s" by (rule inv_pull_run [OF assms(1) inv_idle])
  have inv': "gate_inv s'" by (rule inv_pull_run [OF assms(3) inv])
  have "set (adm_queue (gate s)) \<subseteq> set (filter (\<lambda>p. p \<notin> set (gave_up s)) (arrived s))" using inv by (auto simp: gate_inv_def simp del: set_filter)
  with assms(2) have "moved_up p (position p (adm_queue (gate s))) (releases s) s" by (auto simp: moved_up_def)
  from moved_up_run [OF assms(3) inv this] assms(4) have m: "p \<in> set (arrived s')" "p \<notin> set (adm_queue (gate s'))"
    by (auto simp: moved_up_def)
  have "set (filter (\<lambda>p. p \<notin> set (gave_up s')) (arrived s')) = set (admitted s') \<union> set (adm_granted (gate s')) \<union> set (adm_queue (gate s'))"
    using inv' by (simp add: gate_inv_def Un_assoc)
  with m show ?thesis by auto
qed

text \<open>Two pulls: the second waits, the first releases.\<close>

definition two_pulls :: Pulls where
  "two_pulls = settle_pull 1 (acquire_enter 1 \<lparr>adm_held = True, adm_queue = [], adm_granted = []\<rparr>)
     \<lparr>gate = \<lparr>adm_held = True, adm_queue = [], adm_granted = []\<rparr>, tickets = [0], arrived = [0, 1], admitted = [0], gave_up = [], releases = 0\<rparr>"

definition first_done :: Pulls where
  "first_done = two_pulls\<lparr>gate := releaseAdmission (gate two_pulls), tickets := [], releases := 1\<rparr>"

lemma two_pulls_run: "pull_run idle two_pulls"
proof -
  have "pull_run idle (settle_pull 0 (acquire_enter 0 (gate idle)) (idle\<lparr>arrived := [0]\<rparr>))" (is "pull_run _ ?s")
    using pull_run.Step [OF pull_run.Start pull_step.Enter [of 0 idle]] by (simp add: idle_def)
  from pull_run.Step [OF this pull_step.Enter [of 1 ?s]] show ?thesis
    by (simp add: idle_def settle_pull_def acquire_enter_def two_pulls_def)
qed

lemma first_done_run: "pull_run two_pulls first_done"
  using pull_run.Step [OF pull_run.Start pull_step.Release [of 0 two_pulls]]
  by (simp add: first_done_def two_pulls_def settle_pull_def acquire_enter_def)

theorem admission_exclusive_fifo_witness:
  "pull_run idle two_pulls \<and> length (tickets two_pulls) \<le> 1 \<and> adm_held (gate two_pulls)"
  using admission_exclusive_fifo [OF two_pulls_run] two_pulls_run
  by (simp add: two_pulls_def settle_pull_def acquire_enter_def)

theorem admission_served_witness:
  "1 \<in> set (adm_queue (gate two_pulls)) \<and> pull_run two_pulls first_done \<and>
   1 \<in> set (admitted first_done) \<union> set (adm_granted (gate first_done)) \<union> set (gave_up first_done)"
proof -
  have "1 \<in> set (adm_queue (gate two_pulls))" "releases two_pulls + position 1 (adm_queue (gate two_pulls)) < releases first_done"
    by (simp_all add: two_pulls_def settle_pull_def acquire_enter_def first_done_def position_def)
  from admission_served [OF two_pulls_run this(1) first_done_run this(2)] this(1) first_done_run show ?thesis by simp
qed

end
