(* ===== verification/Import_Runtime.thy ===== *)
theory Import_Runtime
  imports Session_File_Cache
begin

text \<open>
  The lease registry of \<open>ImportRuntime\<close> and the life cycle of a \<open>CacheTee\<close> on the file cache
  (\<open>import_runtime.cpp\<close>). A retained lease is the handle of a shared lock and a reference count.
  Other processes act between the steps, as in the file cache. The seams for tests are left out.
\<close>

section \<open>State\<close>

record LeaseEntry =
  le_lock :: nat
  le_refs :: u32

record LeaseDrop =
  had_lease :: bool
  drop_refs :: u32

definition no_drop :: LeaseDrop where
  "no_drop = \<lparr>had_lease = False, drop_refs = 0\<rparr>"

record Runtime =
  retained_leases :: "string \<Rightarrow> LeaseEntry option"
  active_identities :: "string list"
  last_lease_diagnostic :: string

section \<open>The lease registry\<close>

definition leaseRefs :: "string \<Rightarrow> Runtime \<Rightarrow> u32" where
  "leaseRefs identity rt = (case retained_leases rt identity of None \<Rightarrow> 0 | Some e \<Rightarrow> le_refs e)"

definition insertLeaseLocked :: "string \<Rightarrow> nat \<Rightarrow> u32 \<Rightarrow> Runtime \<times> World \<Rightarrow> Runtime \<times> World" where
  "insertLeaseLocked key lease refs rw =
     (case rw of (rt, w) \<Rightarrow>
        case retained_leases rt key of
          Some e \<Rightarrow> (rt\<lparr>retained_leases := (retained_leases rt)(key \<mapsto> e\<lparr>le_refs := le_refs e + refs\<rparr>)\<rparr>, release_handle lease w)
        | None \<Rightarrow> (rt\<lparr>retained_leases := (retained_leases rt)(key \<mapsto> \<lparr>le_lock = lease, le_refs = refs\<rparr>)\<rparr>, w))"

definition acquireValidatedLease ::
  "McapLib \<Rightarrow> Faults \<Rightarrow> string \<Rightarrow> act list \<Rightarrow> string \<Rightarrow> World \<Rightarrow> (string + nat) \<times> World" where
  "acquireValidatedLease M F root acts identity w =
     (case acquireReadLease F root identity w of
        (Inl lease_error, w1) \<Rightarrow> (Inl (''read lease unavailable ('' @ lease_error @ '')''), w1)
      | (Inr h, w1) \<Rightarrow>
          (case lookup_file M F root identity (turn [h] acts w1) of
             (None, w2) \<Rightarrow> (Inl ''cache artifact does not validate under the lease'', release_handle h w2)
           | (Some validated, w2) \<Rightarrow> (Inr h, w2)))"

definition retainLeaseForLifetime ::
  "McapLib \<Rightarrow> Faults \<Rightarrow> string \<Rightarrow> act list \<Rightarrow> string \<Rightarrow> Runtime \<times> World \<Rightarrow> (string + unit) \<times> Runtime \<times> World" where
  "retainLeaseForLifetime M F root acts identity rw =
     (case rw of (rt, w) \<Rightarrow>
        case retained_leases rt identity of
          Some e \<Rightarrow> (Inr (), rt\<lparr>retained_leases := (retained_leases rt)(identity \<mapsto> e\<lparr>le_refs := le_refs e + 1\<rparr>)\<rparr>, w)
        | None \<Rightarrow>
            (case acquireValidatedLease M F root acts identity w of
               (Inl e, w1) \<Rightarrow> (Inl e, rt\<lparr>last_lease_diagnostic := e\<rparr>, w1)
             | (Inr h, w1) \<Rightarrow> (Inr (), insertLeaseLocked identity h 1 (rt, w1))))"

definition adoptLeaseForLifetime :: "string \<Rightarrow> nat \<Rightarrow> u32 \<Rightarrow> Runtime \<times> World \<Rightarrow> Runtime \<times> World" where
  "adoptLeaseForLifetime identity lease refs rw = insertLeaseLocked identity lease (if refs = 0 then 1 else refs) rw"

definition dropLeaseForMaterialize :: "string \<Rightarrow> Runtime \<times> World \<Rightarrow> LeaseDrop \<times> Runtime \<times> World" where
  "dropLeaseForMaterialize identity rw =
     (case rw of (rt, w) \<Rightarrow>
        case retained_leases rt identity of
          None \<Rightarrow> (no_drop, rt, w)
        | Some e \<Rightarrow>
            (\<lparr>had_lease = True, drop_refs = le_refs e\<rparr>, rt\<lparr>retained_leases := (retained_leases rt)(identity := None)\<rparr>,
             release_handle (le_lock e) w))"

text \<open>The attempts of \<open>restoreLease\<close>, each with its faults and what others do meanwhile.\<close>

fun restore_attempts ::
  "McapLib \<Rightarrow> string \<Rightarrow> string \<Rightarrow> u32 \<Rightarrow> string \<Rightarrow> (Faults \<times> act list) list \<Rightarrow> Runtime \<times> World \<Rightarrow> Runtime \<times> World" where
  "restore_attempts M root identity refs diagnostic [] (rt, w) =
     (rt\<lparr>last_lease_diagnostic := ''could not restore the dataset-lifetime cache lease for '' @ identity @ '': '' @ diagnostic\<rparr>, w)"
| "restore_attempts M root identity refs diagnostic ((F, acts) # rest) (rt, w) =
     (case acquireValidatedLease M F root acts identity w of
        (Inr h, w1) \<Rightarrow> insertLeaseLocked identity h refs (rt, w1)
      | (Inl e, w1) \<Rightarrow> restore_attempts M root identity refs e rest (rt, w1))"

definition restoreLease ::
  "McapLib \<Rightarrow> string \<Rightarrow> (Faults \<times> act list) list \<Rightarrow> string \<Rightarrow> LeaseDrop \<Rightarrow> Runtime \<times> World \<Rightarrow> Runtime \<times> World" where
  "restoreLease M root attempts identity dropped rw =
     (if \<not> had_lease dropped then rw else restore_attempts M root identity (drop_refs dropped) [] attempts rw)"

text \<open>\<open>ScopedLeaseDrop::merge\<close>\<close>

definition merge_drop :: "LeaseDrop \<Rightarrow> LeaseDrop \<Rightarrow> LeaseDrop" where
  "merge_drop dropped other =
     (if \<not> had_lease other then dropped
      else if \<not> had_lease dropped then other
      else dropped\<lparr>drop_refs := drop_refs dropped + drop_refs other\<rparr>)"

definition tryBeginMaterialize :: "string \<Rightarrow> Runtime \<Rightarrow> bool \<times> Runtime" where
  "tryBeginMaterialize identity rt =
     (if identity \<in> set (active_identities rt) then (False, rt)
      else (True, rt\<lparr>active_identities := identity # active_identities rt\<rparr>))"

definition endMaterialize :: "string \<Rightarrow> Runtime \<Rightarrow> Runtime" where
  "endMaterialize identity rt = rt\<lparr>active_identities := removeAll identity (active_identities rt)\<rparr>"

section \<open>The cache tee\<close>

record CacheTee =
  ct_identity :: string
  ct_ticket :: bool
  ct_lock :: "MaterializeLock option"
  lease_drop :: LeaseDrop
  partial_path :: string
  begin_refused_in_use :: bool
  begin_lock_contended :: bool
  ct_finalized :: bool
  cleaned_up :: bool

definition em_dash :: string where
  "em_dash = [CHR 0xE2, CHR 0x80, CHR 0x94]"

definition kArtifactInUseError :: string where
  "kArtifactInUseError = ''cache artifact is in use by loaded data '' @ em_dash @ '' close or reload it, then retry''"

text \<open>The corruption policy under the lock: a recording that does not validate is removed.\<close>

definition drop_corrupt :: "McapLib \<Rightarrow> Faults \<Rightarrow> string \<Rightarrow> string \<Rightarrow> World \<Rightarrow> World" where
  "drop_corrupt M F root identity w =
     (case identityHex identity of
        None \<Rightarrow> w
      | Some hex \<Rightarrow>
          if root = [] \<or> node_of w (hex @ ''.mcap'') = None then w
          else (case lookup_file M F root identity w of
              (Some path, w1) \<Rightarrow> w1
            | (None, w1) \<Rightarrow> if f_remove F (hex @ ''.mcap'') then w1 else unlink (hex @ ''.mcap'') w1))"

definition tee_begin ::
  "McapLib \<Rightarrow> Faults \<Rightarrow> string \<Rightarrow> Config \<Rightarrow> nat \<Rightarrow> script \<Rightarrow> string \<Rightarrow> bool \<Rightarrow> MaterializeLock option \<Rightarrow> LeaseDrop \<Rightarrow>
   CacheTee \<Rightarrow> Runtime \<times> World \<Rightarrow> (string + unit) \<times> CacheTee \<times> Runtime \<times> World" where
  "tee_begin M F root cfg pid script identity adopted_ticket adopted_lock adopted_drop tee rw =
     (case rw of (rt, w) \<Rightarrow>
        let tee1 = tee\<lparr>lease_drop := merge_drop (lease_drop tee) adopted_drop, ct_ticket := ct_ticket tee \<or> adopted_ticket,
              ct_lock := (case adopted_lock of Some l \<Rightarrow> Some l | None \<Rightarrow> ct_lock tee), ct_identity := identity\<rparr>;
            (got, rt1) = (if ct_ticket tee1 then (True, rt) else tryBeginMaterialize identity rt) in
        if \<not> got then
          (Inl ''a materialization of this session is already in progress in this process'', tee1, rt1, w)
        else
          let tee2 = tee1\<lparr>ct_ticket := True\<rparr> in
          if 0 < leaseRefs identity rt1 then (Inl kArtifactInUseError, tee2\<lparr>begin_refused_in_use := True\<rparr>, rt1, w)
          else
            let w1 = cleanup F root cfg script w;
                (locked, w2) =
                  (case ct_lock tee2 of
                     Some l \<Rightarrow> (Inr l, w1)
                   | None \<Rightarrow> tryLockForMaterialize F root pid identity w1) in
            (case locked of
               Inl (lock_error, contended) \<Rightarrow>
                 if contended \<and> 0 < leaseRefs identity rt1
                 then (Inl kArtifactInUseError, tee2\<lparr>begin_refused_in_use := True, begin_lock_contended := contended\<rparr>, rt1, w2)
                 else (Inl lock_error, tee2\<lparr>begin_lock_contended := contended\<rparr>, rt1, w2)
             | Inr l \<Rightarrow>
                 (Inr (), tee2\<lparr>ct_lock := Some l, partial_path := ml_partial l,
                    begin_lock_contended := ct_lock tee2 \<noteq> None \<and> begin_lock_contended tee2\<rparr>, rt1, drop_corrupt M F root identity w2)))"

text \<open>\<open>finalize\<close>; \<open>acts\<close> and \<open>acts2\<close> are what others do while the lock is converted and after it.\<close>

definition tee_finalize ::
  "McapLib \<Rightarrow> Faults \<Rightarrow> string \<Rightarrow> act list \<Rightarrow> act list \<Rightarrow> ExpectedContent \<Rightarrow> CacheTee \<Rightarrow> Runtime \<times> World \<Rightarrow>
   (string + unit) \<times> CacheTee \<times> Runtime \<times> World" where
  "tee_finalize M F root acts acts2 expected tee rw =
     (case rw of (rt, w) \<Rightarrow>
        case ct_lock tee of
          None \<Rightarrow> (Inl ''cache tee not begun'', tee, rt, w)
        | Some lock \<Rightarrow>
            (case finalize_file M F root lock (Some expected) w of
               (Inl e, w1) \<Rightarrow> (Inl e, tee, rt, w1)
             | (Inr _, w1) \<Rightarrow>
                 let tee1 = tee\<lparr>ct_lock := None\<rparr> in
                 (case toSharedLease F (turn (case ml_lock lock of Some h \<Rightarrow> [h] | None \<Rightarrow> []) acts) lock w1 of
                    (Inl lease_error, w2) \<Rightarrow>
                      (Inl (''cache file published but the read-lease handoff failed ('' @ lease_error @ '') '' @ em_dash @
                            '' treating this materialization as failed''), tee1, rt, w2)
                  | (Inr h, w2) \<Rightarrow>
                      (case lookup_file M F root (ct_identity tee) (turn [h] acts2 w2) of
                         (None, w3) \<Rightarrow>
                           (Inl ''cache file vanished during the lease handoff (evicted in the conversion window)'',
                            tee1, rt, release_handle h w3)
                       | (Some revalidated, w3) \<Rightarrow>
                           (Inr (), tee1\<lparr>lease_drop := no_drop, ct_finalized := True\<rparr>,
                            adoptLeaseForLifetime (ct_identity tee) h
                              (if had_lease (lease_drop tee) then drop_refs (lease_drop tee) else 1) (rt, w3))))))"

definition abortAndCleanup ::
  "McapLib \<Rightarrow> Faults \<Rightarrow> string \<Rightarrow> (Faults \<times> act list) list \<Rightarrow> CacheTee \<Rightarrow> Runtime \<times> World \<Rightarrow> CacheTee \<times> Runtime \<times> World" where
  "abortAndCleanup M F root attempts tee rw =
     (if cleaned_up tee then (tee, rw)
      else case rw of (rt, w) \<Rightarrow>
        let w1 = (if \<not> ct_finalized tee \<and> partial_path tee \<noteq> [] \<and> \<not> f_remove F (partial_path tee)
                  then unlink (partial_path tee) w else w);
            w2 = (case ct_lock tee of Some l \<Rightarrow> release (ml_lock l) w1 | None \<Rightarrow> w1);
            (rt3, w3) = (if ct_finalized tee then (rt, w2)
                         else restoreLease M root attempts (ct_identity tee) (lease_drop tee) (rt, w2)) in
        (tee\<lparr>cleaned_up := True, ct_lock := None, lease_drop := no_drop, ct_ticket := False\<rparr>,
         if ct_ticket tee then endMaterialize (ct_identity tee) rt3 else rt3, w3))"

section \<open>Retained recordings stay\<close>

text \<open>The lock of a retained identity is held and its recording passes the validation.\<close>

definition recording_valid :: "McapLib \<Rightarrow> string \<Rightarrow> World \<Rightarrow> bool" where
  "recording_valid M hex w \<longleftrightarrow> validateMcap M no_faults (hex @ ''.mcap'') hex None w = Inr ()"

definition pinned :: "McapLib \<Rightarrow> string \<Rightarrow> nat \<Rightarrow> World \<Rightarrow> bool" where
  "pinned M identity h w \<longleftrightarrow>
     (\<exists>hex. identityHex identity = Some hex \<and> h \<in> holders (hex @ ''.mcap.lock'') w \<and> recording_valid M hex w)"

definition rt_inv :: "McapLib \<Rightarrow> Runtime \<times> World \<Rightarrow> bool" where
  "rt_inv M rw \<longleftrightarrow> lock_ok (snd rw) \<and>
     (\<forall>identity e. retained_leases (fst rw) identity = Some e \<longrightarrow> pinned M identity (le_lock e) (snd rw))"

text \<open>A change of the directory that keeps the recordings of all retained leases.\<close>

definition kept_all :: "Runtime \<Rightarrow> World \<Rightarrow> World \<Rightarrow> bool" where
  "kept_all rt w w' \<longleftrightarrow>
     (\<forall>identity e hex. retained_leases rt identity = Some e \<and> identityHex identity = Some hex \<longrightarrow> lease_kept hex (le_lock e) w w')"

lemma valid_any: "validateMcap M F (hex @ ''.mcap'') hex expected w = Inr u \<Longrightarrow> recording_valid M hex w"
  using validate_other [of M F "hex @ ''.mcap''" hex expected w u no_faults "hex @ ''.mcap''" w]
  by (simp add: recording_valid_def no_faults_def)

lemma valid_same:
  "recording_valid M hex w \<Longrightarrow> node_of w' (hex @ ''.mcap'') = node_of w (hex @ ''.mcap'') \<Longrightarrow> recording_valid M hex w'"
  using validate_other [of M no_faults "hex @ ''.mcap''" hex None w "()" no_faults "hex @ ''.mcap''" w']
  by (simp add: recording_valid_def no_faults_def)

lemma pinned_kept:
  assumes "pinned M identity h w" "lock_ok w" "\<And>hex. identityHex identity = Some hex \<Longrightarrow> lease_kept hex h w w'"
  shows "pinned M identity h w'"
  using assms by (auto simp: pinned_def lease.kept_def same_recording_def intro: valid_same)

lemma kept_all_trans: "kept_all rt w w' \<Longrightarrow> kept_all rt w' w'' \<Longrightarrow> kept_all rt w w''"
  unfolding kept_all_def using lease.kept_trans by blast

lemma rt_inv_kept: "rt_inv M (rt, w) \<Longrightarrow> kept_all rt w w' \<Longrightarrow> lock_ok w' \<Longrightarrow> rt_inv M (rt, w')"
  unfolding rt_inv_def kept_all_def fst_conv snd_conv using pinned_kept by blast

definition foreign_acts :: "Runtime \<Rightarrow> act list \<Rightarrow> bool" where
  "foreign_acts rt acts \<longleftrightarrow>
     (\<forall>a \<in> set acts. \<forall>identity e. retained_leases rt identity = Some e \<longrightarrow> act_handle a \<noteq> Some (le_lock e))"

lemma kept_own_turn: "hex_name hex \<Longrightarrow> h \<in> set mine \<Longrightarrow> lease_kept hex h w (turn mine acts w)"
  using kept_turn [of hex "filter (\<lambda>a. act_handle a \<notin> Some ` set mine) acts" h w "[]"] by (auto simp: turn_def)

lemma kept_all_turn: "foreign_acts rt acts \<Longrightarrow> kept_all rt w (turn mine acts w)"
  by (auto simp: kept_all_def foreign_acts_def intro!: kept_turn identityHex_Some(3))

lemma kept_all_op:
  "(\<And>identity e. retained_leases rt identity = Some e \<Longrightarrow> \<not> op_uses (le_lock e) (snd op)) \<Longrightarrow> kept_all rt w (run_op M root op w)"
  by (auto simp: kept_all_def intro!: kept_op identityHex_Some(3))

lemma kept_all_lookup: "kept_all rt w (snd (lookup_file M F root identity w))"
  using kept_all_op [of rt "(F, OpLookup identity)" w M root] by simp

lemma kept_all_free: "(\<And>identity e. retained_leases rt identity = Some e \<Longrightarrow> le_lock e \<noteq> h) \<Longrightarrow> kept_all rt w (release_handle h w)"
  unfolding kept_all_def by (metis lease.kept_free)

lemma lock_ok_lookup [simp]: "lock_ok (snd (lookup_file M F root identity w)) = lock_ok w"
  by (auto simp: lookup_file_def Let_def split: option.split sum.split)

lemma lookup_valid:
  assumes "lookup_file M F root identity w = (Some path, w')"
  shows "\<exists>hex. identityHex identity = Some hex \<and> recording_valid M hex w \<and> w' = touchStamp F (hex @ ''.mcap'') w"
proof (cases "identityHex identity")
  case (Some hex)
  with assms have "validateMcap M F (hex @ ''.mcap'') hex None w = Inr ()" "w' = touchStamp F (hex @ ''.mcap'') w"
    by (auto simp: lookup_file_def Let_def split: sum.splits if_splits)
  with Some valid_any show ?thesis by blast
qed (use assms in \<open>simp add: lookup_file_def\<close>)

lemma acquire_lease_granted:
  assumes "acquireReadLease F root identity w = (Inr h, w')" "lock_ok w"
  shows "\<exists>hex. identityHex identity = Some hex \<and> h \<in> holders (hex @ ''.mcap.lock'') w'" and "h \<notin> holders q w"
proof -
  obtain hex w0 where t: "identityHex identity = Some hex" "w0 = ensureDir0700 F w"
      "tryAcquireHandle F root (hex @ ''.mcap.lock'') False w0 = (Inr h, w')"
    using assms(1) by (auto simp: acquireReadLease_def tryShared_def split: option.splits prod.splits sum.splits if_splits)
  note g = acquire_granted [OF t(3)]
  show "\<exists>hex. identityHex identity = Some hex \<and> h \<in> holders (hex @ ''.mcap.lock'') w'" using t(1) g(2) by (simp add: holders_def)
  have "w_locks w0 = w_locks w" "w_next w0 = w_next w" by (simp_all add: t(2) ensureDir0700_def Let_def)
  with g(1) assms(2) show "h \<notin> holders q w" by (auto simp: holders_def lock_ok_def)
qed

lemma lock_ok_lease: "lock_ok w \<Longrightarrow> lock_ok (snd (acquireReadLease F root identity w))"
  using lock_ok_op [of w undefined root "(F, OpLease identity)"] by simp

lemma kept_all_lease: "kept_all rt w (snd (acquireReadLease F root identity w))"
  using kept_all_op [of rt "(F, OpLease identity)" w undefined root] by simp

lemma fresh_handle:
  "rt_inv M (rt, w) \<Longrightarrow> (\<And>q. h \<notin> holders q w) \<Longrightarrow> retained_leases rt identity = Some e \<Longrightarrow> le_lock e \<noteq> h"
  by (fastforce simp: rt_inv_def pinned_def)

lemma acquireValidatedLease_inv:
  assumes inv: "rt_inv M (rt, w)" and acts: "foreign_acts rt acts"
    and a: "acquireValidatedLease M F root acts identity w = (r, w')"
  shows "rt_inv M (rt, w')" and "r = Inr h \<Longrightarrow> pinned M identity h w' \<and> (\<forall>identity e. retained_leases rt identity = Some e \<longrightarrow> le_lock e \<noteq> h)"
proof -
  have ok: "lock_ok w" using inv by (simp add: rt_inv_def)
  obtain r1 w1 where l: "acquireReadLease F root identity w = (r1, w1)" by fastforce
  have k1: "kept_all rt w w1" "lock_ok w1"
    using kept_all_lease [of rt w F root identity] lock_ok_lease [OF ok, of F root identity] l by simp_all
  have both: "rt_inv M (rt, w') \<and> (r = Inr h \<longrightarrow> pinned M identity h w' \<and> (\<forall>identity e. retained_leases rt identity = Some e \<longrightarrow> le_lock e \<noteq> h))"
  proof (cases r1)
    case (Inl e)
    with l a have "w' = w1" "r \<noteq> Inr h" by (auto simp: acquireValidatedLease_def)
    with rt_inv_kept [OF inv k1] show ?thesis by simp
  next
    case (Inr h')
    let ?t = "turn [h'] acts w1"
    obtain r2 w2 where u: "lookup_file M F root identity ?t = (r2, w2)" by fastforce
    have fresh: "le_lock e \<noteq> h'" if "retained_leases rt i = Some e" for i e
      by (rule fresh_handle [OF inv _ that]) (rule acquire_lease_granted(2) [OF l [unfolded Inr] ok])
    have k2: "kept_all rt w w2" "lock_ok w2"
      using kept_all_trans [OF kept_all_trans [OF k1(1) kept_all_turn [OF acts]] kept_all_lookup [of rt ?t M F root identity]]
        lock_ok_lookup [of M F root identity ?t] lock_ok_turn [OF k1(2)] u by simp_all
    show ?thesis
    proof (cases r2)
      case None
      with Inr l u a have w': "w' = release_handle h' w2" "r \<noteq> Inr h" by (auto simp: acquireValidatedLease_def)
      have "kept_all rt w w'" using kept_all_trans [OF k2(1) kept_all_free [OF fresh]] w' by simp
      with rt_inv_kept [OF inv this] lock_ok_release [OF k2(2)] w' show ?thesis by simp
    next
      case (Some path)
      with Inr l u a have w': "w' = w2" "r = Inr h'" by (auto simp: acquireValidatedLease_def)
      obtain hex where hex: "identityHex identity = Some hex" "recording_valid M hex ?t" "w2 = touchStamp F (hex @ ''.mcap'') ?t"
        using lookup_valid [OF u [unfolded Some]] by blast
      have "h' \<in> holders (hex @ ''.mcap.lock'') w1" using acquire_lease_granted(1) [OF l [unfolded Inr] ok] hex(1) by auto
      then have "h' \<in> holders (hex @ ''.mcap.lock'') ?t"
        using kept_own_turn [OF identityHex_Some(3) [OF hex(1)], of h' "[h']" w1 acts] k1(2) by (simp add: lease.kept_def)
      then have "pinned M identity h' w2" using hex valid_same [OF hex(2), of w2] by (auto simp: pinned_def holders_def)
      with rt_inv_kept [OF inv k2] fresh w' show ?thesis by auto
    qed
  qed
  then show "rt_inv M (rt, w')" "r = Inr h \<Longrightarrow> pinned M identity h w' \<and> (\<forall>identity e. retained_leases rt identity = Some e \<longrightarrow> le_lock e \<noteq> h)"
    by blast+
qed

lemma holders_unique: "lock_ok w \<Longrightarrow> h \<in> holders p w \<Longrightarrow> h \<in> holders q w \<Longrightarrow> p = q"
  by (auto simp: lock_ok_def holders_def distinct_map inj_on_def)

lemma insertLease_inv:
  assumes inv: "rt_inv M (rt, w)" and "pinned M identity h w"
    and fresh: "\<And>i e. retained_leases rt i = Some e \<Longrightarrow> le_lock e \<noteq> h"
  shows "rt_inv M (insertLeaseLocked identity h refs (rt, w))"
proof (cases "retained_leases rt identity")
  case None
  with assms show ?thesis by (auto simp: insertLeaseLocked_def rt_inv_def)
next
  case (Some e)
  have "rt_inv M (rt, release_handle h w)"
    by (rule rt_inv_kept [OF inv kept_all_free]) (use fresh inv in \<open>auto simp: rt_inv_def lock_ok_release\<close>)
  with Some show ?thesis by (auto simp: insertLeaseLocked_def rt_inv_def)
qed

lemma drop_inv:
  assumes inv: "rt_inv M (rt, w)" shows "rt_inv M (snd (dropLeaseForMaterialize identity (rt, w)))"
proof (cases "retained_leases rt identity")
  case None
  with inv show ?thesis by (simp add: dropLeaseForMaterialize_def)
next
  case (Some e)
  let ?rt = "rt\<lparr>retained_leases := (retained_leases rt)(identity := None)\<rparr>"
  have "le_lock e' \<noteq> le_lock e" if r: "retained_leases ?rt i = Some e'" for i e'
  proof
    assume h: "le_lock e' = le_lock e"
    from r have i: "i \<noteq> identity" "retained_leases rt i = Some e'" by (auto split: if_splits)
    have "pinned M identity (le_lock e) w" "pinned M i (le_lock e) w" using inv Some i(2) h unfolding rt_inv_def fst_conv snd_conv by metis+
    then obtain hex hex' where "identityHex identity = Some hex" "le_lock e \<in> holders (hex @ ''.mcap.lock'') w"
        "identityHex i = Some hex'" "le_lock e \<in> holders (hex' @ ''.mcap.lock'') w"
      unfolding pinned_def by blast
    with holders_unique [of w "le_lock e" "hex @ ''.mcap.lock''" "hex' @ ''.mcap.lock''"] inv i(1)
    show False by (auto simp: rt_inv_def dest: identityHex_Some(1))
  qed
  then have "kept_all ?rt w (release_handle (le_lock e) w)" by (rule kept_all_free)
  moreover have "rt_inv M (?rt, w)" using inv by (simp add: rt_inv_def)
  moreover have "lock_ok (release_handle (le_lock e) w)" using inv by (simp add: rt_inv_def lock_ok_release)
  ultimately have "rt_inv M (?rt, release_handle (le_lock e) w)" using rt_inv_kept by blast
  with Some show ?thesis by (simp add: dropLeaseForMaterialize_def)
qed

lemma retain_inv:
  assumes inv: "rt_inv M (rt, w)" and acts: "foreign_acts rt acts"
  shows "rt_inv M (snd (retainLeaseForLifetime M F root acts identity (rt, w)))"
proof (cases "retained_leases rt identity")
  case None
  obtain r w1 where a: "acquireValidatedLease M F root acts identity w = (r, w1)" by fastforce
  note v = acquireValidatedLease_inv [OF inv acts a]
  show ?thesis
  proof (cases r)
    case (Inl e)
    with None a v(1) show ?thesis by (simp add: retainLeaseForLifetime_def rt_inv_def)
  next
    case (Inr h)
    have "rt_inv M (insertLeaseLocked identity h 1 (rt, w1))" by (rule insertLease_inv [OF v(1)]) (use v(2) [OF Inr] in auto)
    with Inr None a show ?thesis by (simp add: retainLeaseForLifetime_def)
  qed
next
  case (Some e)
  with inv show ?thesis by (auto simp: retainLeaseForLifetime_def rt_inv_def)
qed

lemma restore_inv:
  "rt_inv M (rt, w) \<Longrightarrow> \<forall>(F, acts) \<in> set attempts. foreign_acts rt acts \<Longrightarrow>
   rt_inv M (restore_attempts M root identity refs diagnostic attempts (rt, w))"
proof (induction attempts arbitrary: diagnostic w)
  case (Cons a attempts)
  obtain F acts where a: "a = (F, acts)" by fastforce
  obtain r w1 where l: "acquireValidatedLease M F root acts identity w = (r, w1)" by fastforce
  have "foreign_acts rt acts" using Cons.prems(2) a by simp
  note v = acquireValidatedLease_inv [OF Cons.prems(1) this l]
  show ?case
  proof (cases r)
    case (Inl e)
    with Cons.IH [OF v(1), of e] Cons.prems(2) a l show ?thesis by simp
  next
    case (Inr h)
    have "rt_inv M (insertLeaseLocked identity h refs (rt, w1))" by (rule insertLease_inv [OF v(1)]) (use v(2) [OF Inr] in auto)
    with Inr a l show ?thesis by simp
  qed
qed (simp add: rt_inv_def)

lemma restoreLease_inv:
  "rt_inv M (rt, w) \<Longrightarrow> \<forall>(F, acts) \<in> set attempts. foreign_acts rt acts \<Longrightarrow>
   rt_inv M (restoreLease M root attempts identity dropped (rt, w))"
  by (simp add: restoreLease_def restore_inv)

section \<open>The tee keeps the invariant\<close>

definition fresh_lock :: "Runtime \<Rightarrow> MaterializeLock \<Rightarrow> bool" where
  "fresh_lock rt lock \<longleftrightarrow> (\<forall>identity e. retained_leases rt identity = Some e \<longrightarrow> ml_lock lock \<noteq> Some (le_lock e))"

lemma valid_lock_named:
  assumes "lock_ok w" "lock_valid lock w" "hex_name (ml_hex lock)" "ml_lock lock = Some h"
  shows "lock_named h w = Some (ml_hex lock @ ''.mcap.lock'')"
proof -
  have "guards h (ml_hex lock @ ''.mcap'') w" using assms(2,4) by (simp add: lock_valid_def)
  then obtain l where l: "l \<in> set (w_locks w)" "fl_handle l = h" "fl_name l = ml_hex lock @ ''.mcap.lock''"
    using identity_not_partial(1) [OF assms(3)] by (auto simp: guards_def lockPathFor_def)
  then have "find (\<lambda>l. fl_handle l = h) (w_locks w) \<noteq> None" by (auto simp: find_None_iff)
  then obtain l' where l': "find (\<lambda>l. fl_handle l = h) (w_locks w) = Some l'" by auto
  then have "l' \<in> set (w_locks w)" "fl_handle l' = h" by (auto simp: find_Some_iff)
  with l assms(1) have "l' = l" by (auto simp: lock_ok_def distinct_map inj_on_def)
  with l' l(3) show ?thesis by (simp add: lock_named_def)
qed

lemma share_granted:
  assumes "toSharedLease F others lock w = (Inr h, w')" "lock_named h w = Some name"
  shows "ml_lock lock = Some h \<and> h \<in> holders name w'"
proof -
  have l: "ml_lock lock = Some h" "w_locks w' = \<lparr>fl_handle = h, fl_name = name, fl_exclusive = False\<rparr> # w_locks (others (release_handle h w))"
    using assms by (auto simp: toSharedLease_def downgradeToShared_def Let_def split: option.splits if_splits)
  then show ?thesis by (simp add: holders_def)
qed

lemma finalize_locks:
  "w_locks (snd (finalize_file M F root lock expected w)) = w_locks w" "w_next (snd (finalize_file M F root lock expected w)) = w_next w"
  by (simp_all add: finalize_file_def fail_finalize_def chmod0600_def Let_def split: sum.split option.split)

lemma kept_all_finalize:
  "lock_valid lock w \<Longrightarrow> fresh_lock rt lock \<Longrightarrow> kept_all rt w (snd (finalize_file M F root lock expected w))"
  unfolding kept_all_def fresh_lock_def by (metis identityHex_Some(3) kept_finalize)

lemma kept_all_share:
  "fresh_lock rt lock \<Longrightarrow> foreign_acts rt acts \<Longrightarrow> kept_all rt w (snd (toSharedLease F (turn mine acts) lock w))"
  unfolding kept_all_def fresh_lock_def foreign_acts_def by (metis identityHex_Some(3) kept_share)

lemma finalize_inv:
  assumes inv: "rt_inv M (rt, w)" and acts: "foreign_acts rt acts" "foreign_acts rt acts2"
    and lock: "ct_lock tee = Some lock" "lock_valid lock w" "fresh_lock rt lock" "identityHex (ct_identity tee) = Some (ml_hex lock)"
    and f: "tee_finalize M F root acts acts2 expected tee (rt, w) = (r, tee', rw')"
  shows "rt_inv M rw'"
proof -
  let ?id = "ct_identity tee" and ?hex = "ml_hex lock"
  have ok: "lock_ok w" using inv by (simp add: rt_inv_def)
  obtain r1 w1 where f1: "finalize_file M F root lock (Some expected) w = (r1, w1)" by fastforce
  have ok1: "lock_ok w1" using lock_ok_cong [of w1 w] finalize_locks [of M F root lock "Some expected" w] f1 ok by simp
  have k1: "kept_all rt w w1" using kept_all_finalize [OF lock(2,3), of M F root "Some expected"] f1 by simp
  have i1: "rt_inv M (rt, w1)" by (rule rt_inv_kept [OF inv k1 ok1])
  show ?thesis
  proof (cases r1)
    case (Inl e)
    with f f1 lock(1) i1 show ?thesis by (auto simp: tee_finalize_def)
  next
    case (Inr u)
    define mine where "mine = (case ml_lock lock of Some h \<Rightarrow> [h] | None \<Rightarrow> [])"
    obtain r2 w2 where s: "toSharedLease F (turn mine acts) lock w1 = (r2, w2)" by fastforce
    have ok2: "lock_ok w2" using lock_ok_share [OF ok1, of F mine acts lock] s by simp
    have i2: "rt_inv M (rt, w2)" using rt_inv_kept [OF i1 _ ok2] kept_all_share [OF lock(3) acts(1), of w1 F mine] s by simp
    show ?thesis
    proof (cases r2)
      case (Inl e)
      with Inr f f1 lock(1) i2 s show ?thesis by (auto simp: tee_finalize_def mine_def)
    next
      case h: (Inr h)
      have "ml_lock lock = Some h"
        using s h by (auto simp: toSharedLease_def downgradeToShared_def Let_def split: option.splits if_splits)
      note named = valid_lock_named [OF ok lock(2) identityHex_Some(3) [OF lock(4)] this]
      have "lock_named h w1 = lock_named h w" using finalize_locks(1) [of M F root lock "Some expected" w] f1 by (simp add: lock_named_def)
      with share_granted [OF s [unfolded h]] named have g: "ml_lock lock = Some h" "h \<in> holders (?hex @ ''.mcap.lock'') w2" by simp_all
      have fresh: "le_lock e \<noteq> h" if "retained_leases rt i = Some e" for i e using lock(3) g(1) that by (auto simp: fresh_lock_def)
      let ?t = "turn [h] acts2 w2"
      obtain r3 w3 where u: "lookup_file M F root ?id ?t = (r3, w3)" by fastforce
      have ok3: "lock_ok w3" using lock_ok_lookup [of M F root ?id ?t] lock_ok_turn [OF ok2, of "[h]" acts2] u by simp
      have k3: "kept_all rt w2 w3" using kept_all_trans [OF kept_all_turn [OF acts(2), of w2 "[h]"] kept_all_lookup [of rt ?t M F root ?id]] u by simp
      note i3 = rt_inv_kept [OF i2 k3 ok3]
      show ?thesis
      proof (cases r3)
        case None
        have "rt_inv M (rt, release_handle h w3)" by (rule rt_inv_kept [OF i3 kept_all_free [OF fresh] lock_ok_release [OF ok3]])
        with None h Inr f f1 lock(1) s u show ?thesis by (auto simp: tee_finalize_def mine_def)
      next
        case (Some path)
        obtain hex where hx: "identityHex ?id = Some hex" "recording_valid M hex ?t" "w3 = touchStamp F (hex @ ''.mcap'') ?t"
          using lookup_valid [OF u [unfolded Some]] by blast
        have "h \<in> holders (?hex @ ''.mcap.lock'') ?t"
          using kept_own_turn [OF identityHex_Some(3) [OF lock(4)], of h "[h]" w2 acts2] ok2 g(2) by (simp add: lease.kept_def)
        then have "pinned M ?id h w3" using hx lock(4) valid_same [OF hx(2), of w3] by (auto simp: pinned_def holders_def)
        from insertLease_inv [OF i3 this fresh] Some h Inr f f1 lock(1) s u show ?thesis
          by (auto simp: tee_finalize_def mine_def adoptLeaseForLifetime_def)
      qed
    qed
  qed
qed

lemma not_retained_locked:
  assumes inv: "rt_inv M (rt, w)" and l: "lock_valid lock w" "fresh_lock rt lock" "retained_leases rt i = Some e"
  shows "identityHex i \<noteq> Some (ml_hex lock)"
proof
  assume i: "identityHex i = Some (ml_hex lock)"
  have "pinned M i (le_lock e) w" "lock_ok w" using inv l(3) by (auto simp: rt_inv_def)
  then have h: "le_lock e \<in> holders (ml_hex lock @ ''.mcap.lock'') w" using i by (auto simp: pinned_def)
  obtain h' where "ml_lock lock = Some h'" "guards h' (ml_hex lock @ ''.mcap'') w"
    using l(1) by (auto simp: lock_valid_def split: option.splits)
  with guards_other [OF \<open>lock_ok w\<close> h identityHex_Some(3) [OF i]] l(2,3) show False by (auto simp: fresh_lock_def)
qed

lemma kept_all_corrupt:
  assumes "\<And>i e. retained_leases rt i = Some e \<Longrightarrow> i \<noteq> identity"
  shows "kept_all rt w (drop_corrupt M F root identity w)"
proof (cases "identityHex identity")
  case (Some hex)
  have "kept_all rt v (unlink (hex @ ''.mcap'') v)" for v
    unfolding kept_all_def
  proof (intro allI impI, elim conjE)
    fix i e hex'
    assume i: "retained_leases rt i = Some e" "identityHex i = Some hex'"
    then have "hex' \<noteq> hex" using assms identityHex_Some(1) Some by metis
    then show "lease_kept hex' (le_lock e) v (unlink (hex @ ''.mcap'') v)"
      by (intro kept_unlink) (auto dest: arg_cong [where f = last])
  qed
  with kept_all_trans [OF kept_all_lookup [of rt w M F root identity]] kept_all_lookup [of rt w M F root identity] Some
  show ?thesis by (auto simp: drop_corrupt_def kept_all_def [of rt w w] lease.kept_refl split: prod.split option.split)
qed (simp add: drop_corrupt_def kept_all_def lease.kept_refl)

lemma lock_ok_corrupt: "lock_ok w \<Longrightarrow> lock_ok (drop_corrupt M F root identity w)"
  by (auto simp: drop_corrupt_def split: option.split prod.split) (metis lock_ok_lookup snd_conv)+

definition foreign_script :: "Runtime \<Rightarrow> script \<Rightarrow> bool" where
  "foreign_script rt script \<longleftrightarrow> (\<forall>identity e. retained_leases rt identity = Some e \<longrightarrow> foreign (le_lock e) script)"

lemma kept_all_cleanup: "foreign_script rt script \<Longrightarrow> kept_all rt w (cleanup F root cfg script w)"
  unfolding kept_all_def foreign_script_def by (metis cleanup_kept identityHex_Some(3))

lemma same_leases: "retained_leases rt' = retained_leases rt \<Longrightarrow> rt_inv M (rt, w) \<Longrightarrow> rt_inv M (rt', w)"
  by (simp add: rt_inv_def)

lemma trylock_not_retained:
  assumes inv: "rt_inv M (rt, w)" and t: "tryLockForMaterialize F root pid identity w = (Inr l, w')" and r: "retained_leases rt i = Some e"
  shows "i \<noteq> identity"
proof
  assume i: "i = identity"
  obtain hex h where h: "identityHex identity = Some hex" "tryExclusive F root (hex @ ''.mcap.lock'') (ensureDir0700 F w) = (Inr h, w')"
    using t by (auto simp: tryLockForMaterialize_def split: option.splits if_splits prod.splits sum.splits)
  have "pinned M identity (le_lock e) w" "lock_ok w" using inv r i by (auto simp: rt_inv_def)
  then have "le_lock e \<in> holders (hex @ ''.mcap.lock'') (ensureDir0700 F w)" "lock_ok (ensureDir0700 F w)"
    using h(1) by (auto simp: pinned_def) (simp add: holders_def ensureDir0700_def Let_def)
  with fl.granted h(2) show False by blast
qed

lemma begin_inv:
  assumes inv: "rt_inv M (rt, w)" and script: "foreign_script rt script"
    and lock: "\<And>l. ct_lock tee1 = Some l \<Longrightarrow> lock_valid l w \<and> fresh_lock rt l \<and> identityHex identity = Some (ml_hex l)"
    and tee1: "tee1 = tee\<lparr>ct_lock := (case adopted_lock of Some l \<Rightarrow> Some l | None \<Rightarrow> ct_lock tee)\<rparr>"
    and b: "tee_begin M F root cfg pid script identity adopted_ticket adopted_lock adopted_drop tee (rt, w) = (r, tee', rw')"
  shows "rt_inv M rw'"
proof -
  obtain got rt1 where t: "(if ct_ticket tee \<or> adopted_ticket then (True, rt) else tryBeginMaterialize identity rt) = (got, rt1)" by fastforce
  have rt1: "retained_leases rt1 = retained_leases rt"
    using t by (auto simp: tryBeginMaterialize_def split: if_splits)
  define w1 where "w1 = cleanup F root cfg script w"
  have ok1: "lock_ok w1" using inv lock_ok_cleanup by (simp add: w1_def rt_inv_def)
  have i1: "rt_inv M (rt1, w1)"
    using rt_inv_kept [OF inv kept_all_cleanup [OF script] ok1 [unfolded w1_def]] same_leases [OF rt1] by (simp add: w1_def)
  obtain locked w2 where lk: "(case ct_lock tee1 of Some l \<Rightarrow> (Inr l, w1) | None \<Rightarrow> tryLockForMaterialize F root pid identity w1) = (locked, w2)"
    by fastforce
  have k2: "kept_all rt1 w1 w2" "lock_ok w2"
  proof -
    have "kept_all rt1 w1 (snd (tryLockForMaterialize F root pid identity w1))" "lock_ok (snd (tryLockForMaterialize F root pid identity w1))"
      using kept_all_op [of rt1 "(F, OpTryLock pid identity)" w1 M root] lock_ok_op [OF ok1, of M root "(F, OpTryLock pid identity)"] by simp_all
    then show "kept_all rt1 w1 w2" "lock_ok w2"
      using lk ok1 by (auto simp: kept_all_def lease.kept_refl split: option.splits)
  qed
  have i2: "rt_inv M (rt1, w2)" by (rule rt_inv_kept [OF i1 k2])
  have i3: "rt_inv M (rt1, drop_corrupt M F root identity w2)" if l: "locked = Inr l" for l
  proof (rule rt_inv_kept [OF i2 kept_all_corrupt lock_ok_corrupt [OF k2(2)]])
    fix i e
    assume r: "retained_leases rt1 i = Some e"
    show "i \<noteq> identity"
    proof (cases "ct_lock tee1")
      case None
      with lk l trylock_not_retained [OF i1 _ r] show ?thesis by simp
    next
      case (Some l')
      with lock [OF this] not_retained_locked [OF inv, of l' i e] r rt1 show ?thesis by auto
    qed
  qed
  have i0: "rt_inv M (rt1, w)" by (rule same_leases [OF rt1 inv])
  from b show ?thesis
    using t lk i0 i2 i3 by (auto simp: tee_begin_def Let_def tee1 simp flip: w1_def split: prod.splits sum.splits if_splits option.splits)
qed

lemma abort_inv:
  assumes inv: "rt_inv M (rt, w)" and attempts: "\<forall>(F, acts) \<in> set attempts. foreign_acts rt acts"
    and lock: "\<And>l. ct_lock tee = Some l \<Longrightarrow> fresh_lock rt l" and partial: "partial_path tee = [] \<or> partial_base (partial_path tee) \<noteq> None"
    and a: "abortAndCleanup M F root attempts tee (rt, w) = (tee', rw')"
  shows "rt_inv M rw'"
proof (cases "cleaned_up tee")
  case True
  with a inv show ?thesis by (simp add: abortAndCleanup_def)
next
  case False
  have ok: "lock_ok w" using inv by (simp add: rt_inv_def)
  define w1 where "w1 = (if \<not> ct_finalized tee \<and> partial_path tee \<noteq> [] \<and> \<not> f_remove F (partial_path tee) then unlink (partial_path tee) w else w)"
  have "lease_kept hex h w (unlink (partial_path tee) w)" if "partial_path tee \<noteq> []" "hex_name hex" for hex h
    using partial that partial_of_other by (intro kept_unlink) auto
  then have "kept_all rt w w1" by (auto simp: w1_def kept_all_def lease.kept_refl dest: identityHex_Some(3))
  then have i1: "rt_inv M (rt, w1)" by (rule rt_inv_kept [OF inv]) (simp add: w1_def ok)
  define w2 where "w2 = (case ct_lock tee of Some l \<Rightarrow> release (ml_lock l) w1 | None \<Rightarrow> w1)"
  have "kept_all rt w1 (release_handle h w1)" if "ct_lock tee = Some l" "ml_lock l = Some h" for l h
    by (rule kept_all_free) (use lock [OF that(1)] that(2) in \<open>auto simp: fresh_lock_def\<close>)
  then have "kept_all rt w1 w2" by (auto simp: w2_def release_def kept_all_def lease.kept_refl split: option.split)
  then have i2: "rt_inv M (rt, w2)"
    by (rule rt_inv_kept [OF i1]) (use i1 in \<open>auto simp: w2_def rt_inv_def lock_ok_released split: option.split\<close>)
  obtain rt3 w3 where r: "(if ct_finalized tee then (rt, w2) else restoreLease M root attempts (ct_identity tee) (lease_drop tee) (rt, w2)) = (rt3, w3)"
    by fastforce
  then have "rt_inv M (rt3, w3)" using i2 restoreLease_inv [OF i2 attempts, of root "ct_identity tee" "lease_drop tee"] by (auto split: if_splits)
  with a False r show ?thesis
    by (auto simp: abortAndCleanup_def endMaterialize_def rt_inv_def simp flip: w1_def w2_def split: if_splits)
qed

section \<open>Runs of the runtime\<close>

text \<open>
  The operations of this process and those of others. A lock that a tee holds is the tee's own; the
  others do not use the handles of this process.
\<close>

inductive rt_step :: "McapLib \<Rightarrow> string \<Rightarrow> Runtime \<times> World \<Rightarrow> Runtime \<times> World \<Rightarrow> bool" for M root where
  Other: "\<forall>identity e. retained_leases rt identity = Some e \<longrightarrow> \<not> op_uses (le_lock e) op \<Longrightarrow>
    rt_step M root (rt, w) (rt, run_op M root (F, op) w)"
| Retain: "foreign_acts rt acts \<Longrightarrow> rt_step M root (rt, w) (snd (retainLeaseForLifetime M F root acts identity (rt, w)))"
| Drop: "rt_step M root (rt, w) (snd (dropLeaseForMaterialize identity (rt, w)))"
| Restore: "\<forall>(F, acts) \<in> set attempts. foreign_acts rt acts \<Longrightarrow>
    rt_step M root (rt, w) (restoreLease M root attempts identity dropped (rt, w))"
| Begin: "foreign_script rt script \<Longrightarrow>
    \<forall>l. (case adopted_lock of Some l' \<Rightarrow> Some l' | None \<Rightarrow> ct_lock tee) = Some l \<longrightarrow>
      lock_valid l w \<and> fresh_lock rt l \<and> identityHex identity = Some (ml_hex l) \<Longrightarrow>
    tee_begin M F root cfg pid script identity adopted_ticket adopted_lock adopted_drop tee (rt, w) = (r, tee', rw') \<Longrightarrow>
    rt_step M root (rt, w) rw'"
| Finalize: "foreign_acts rt acts \<Longrightarrow> foreign_acts rt acts2 \<Longrightarrow> ct_lock tee = Some lock \<Longrightarrow> lock_valid lock w \<Longrightarrow>
    fresh_lock rt lock \<Longrightarrow> identityHex (ct_identity tee) = Some (ml_hex lock) \<Longrightarrow>
    tee_finalize M F root acts acts2 expected tee (rt, w) = (r, tee', rw') \<Longrightarrow> rt_step M root (rt, w) rw'"
| Abort: "\<forall>(F, acts) \<in> set attempts. foreign_acts rt acts \<Longrightarrow> \<forall>l. ct_lock tee = Some l \<longrightarrow> fresh_lock rt l \<Longrightarrow>
    partial_path tee = [] \<or> partial_base (partial_path tee) \<noteq> None \<Longrightarrow>
    abortAndCleanup M F root attempts tee (rt, w) = (tee', rw') \<Longrightarrow> rt_step M root (rt, w) rw'"

lemma step_inv: "rt_step M root rw rw' \<Longrightarrow> rt_inv M rw \<Longrightarrow> rt_inv M rw'"
proof (induction rule: rt_step.induct)
  case (Other rt op w F)
  have "kept_all rt w (run_op M root (F, op) w)" by (rule kept_all_op) (use Other(1) in auto)
  then show ?case by (rule rt_inv_kept [OF Other(2)]) (use Other(2) in \<open>simp add: rt_inv_def lock_ok_op\<close>)
next
  case (Begin rt script adopted_lock tee w identity F cfg pid adopted_ticket adopted_drop r tee' rw')
  then show ?case by (intro begin_inv [OF Begin(4,1) _ refl Begin(3)]) auto
next
  case (Finalize rt acts acts2 tee lock w F expected r tee' rw')
  then show ?case by (intro finalize_inv [OF Finalize(8,1-7)])
next
  case (Abort attempts rt tee F' w tee' rw')
  then show ?case by (intro abort_inv [OF Abort(5,1) _ Abort(3,4)]) auto
qed (simp_all add: retain_inv drop_inv restoreLease_inv)

lemma run_inv: "rtranclp (rt_step M root) rw rw' \<Longrightarrow> rt_inv M rw \<Longrightarrow> rt_inv M rw'"
  by (induction rule: rtranclp_induct) (auto intro: step_inv)

text \<open>
  C3: Whatever this process and others do with the cache, from an empty registry and an empty lock
  table, with any faults and any interleaving: as long as an identity is in the lease registry its
  recording is there and valid, so a lookup hits it, and nobody can lock it to replace it.
\<close>

theorem retained_recording_hits:
  assumes "rtranclp (rt_step M root) (rt0, w0) (rt, w)" "retained_leases rt0 = Map.empty" "w_locks w0 = []" "root \<noteq> []"
    and "retained_leases rt identity = Some e" "\<forall>name. f_read F name = None"
  shows "fst (lookup_file M F root identity w) = Some (pathFor root identity) \<and>
     (\<exists>e. fst (tryLockForMaterialize F root pid identity w) = Inl e)"
proof -
  have "rt_inv M (rt0, w0)" using assms(2,3) by (simp add: rt_inv_def lock_ok_def)
  from run_inv [OF assms(1) this] have inv: "rt_inv M (rt, w)" .
  then have "pinned M identity (le_lock e) w" using assms(5) by (auto simp: rt_inv_def)
  then obtain hex where hex: "identityHex identity = Some hex" "recording_valid M hex w" by (auto simp: pinned_def)
  have "validateMcap M F (hex @ ''.mcap'') hex None w = Inr ()"
    using validate_other [of M no_faults "hex @ ''.mcap''" hex None w "()" F "hex @ ''.mcap''" w] hex(2) assms(6)
    by (simp add: recording_valid_def)
  moreover have "node_of w (hex @ ''.mcap'') \<noteq> None"
    using hex(2) by (auto simp: recording_valid_def validateMcap_def bindR_Inr_iff split: option.splits)
  moreover have "fst (tryLockForMaterialize F root pid identity w) \<noteq> Inr l" for l
    using trylock_not_retained [OF inv _ assms(5)] by (metis prod.collapse)
  then have "\<exists>e. fst (tryLockForMaterialize F root pid identity w) = Inl e" by (metis sum.exhaust)
  ultimately show ?thesis using hex(1) assms(4) by (simp add: lookup_file_def pathFor_def Let_def)
qed

definition demo_runtime :: Runtime where
  "demo_runtime = \<lparr>retained_leases = Map.empty, active_identities = [], last_lease_diagnostic = []\<rparr>"

theorem retained_recording_hits_witness:
  "\<exists>rt w e. rtranclp (rt_step demo_lib ''/c'') (demo_runtime, demo_world) (rt, w) \<and> retained_leases rt demo_identity = Some e \<and>
     fst (lookup_file demo_lib no_faults ''/c'' demo_identity w) = Some (pathFor ''/c'' demo_identity)"
proof -
  obtain rt w r where rw: "retainLeaseForLifetime demo_lib no_faults ''/c'' [] demo_identity (demo_runtime, demo_world) = (r, rt, w)"
    by (metis prod_cases3)
  let ?w1 = "snd (acquireReadLease no_faults ''/c'' demo_identity demo_world)"
  have l: "fst (acquireReadLease no_faults ''/c'' demo_identity demo_world) = Inr 0" "node_of ?w1 (demo_hex @ ''.mcap'') = Some demo_node" by code_simp+
  have v: "validateMcap demo_lib no_faults (demo_hex @ ''.mcap'') demo_hex None ?w1 = Inr ()"
    by (rule demo_validate [OF refl l(2)]) simp
  obtain w2 where a: "acquireValidatedLease demo_lib no_faults ''/c'' [] demo_identity demo_world = (Inr 0, w2)"
    using l v by (cases "acquireReadLease no_faults ''/c'' demo_identity demo_world")
      (auto simp: acquireValidatedLease_def turn_def lookup_file_def demo_identityHex Let_def)
  then have e: "retained_leases rt demo_identity = Some \<lparr>le_lock = 0, le_refs = 1\<rparr>"
    using rw by (auto simp: retainLeaseForLifetime_def demo_runtime_def insertLeaseLocked_def)
  have s: "rtranclp (rt_step demo_lib ''/c'') (demo_runtime, demo_world) (rt, w)"
    using rt_step.Retain [of demo_runtime "[]" demo_lib "''/c''" demo_world no_faults demo_identity] rw by (simp add: foreign_acts_def)
  have "\<forall>name. f_read no_faults name = None" by (simp add: no_faults_def)
  from retained_recording_hits [OF s _ _ _ e this] s e show ?thesis by (auto simp: demo_runtime_def demo_world_def)
qed

end
