(* ===== verification/Mcap_Writer.thy ===== *)
theory Mcap_Writer
  imports Wire
begin

text \<open>
  The reconstruction of a session as an MCAP file (\<open>session_mcap_writer.cpp\<close>). The MCAP library
  is a record of functions on its own state; a call returns the operations it performs on its sink,
  so the sinks of the plugin, which latch the errors the library ignores, are modelled in full. The
  disk is a list of the outcomes of the next stream operations; when it is used up they succeed.
\<close>

section \<open>Sinks\<close>

datatype sink_call = SinkWrite string | SinkFlush | SinkEnd

text \<open>
  \<open>CheckedFileWriter\<close> (\<open>sk_stream\<close>) writes through an \<open>ofstream\<close>, on which a write after the
  close fails; \<open>ExclusiveStdioSink\<close> ignores such a write. Otherwise the two are alike. What a failed
  write leaves on the disk is not modelled.
\<close>

record Sink =
  sk_stream :: bool
  sk_bytes :: string
  sk_size :: u64
  sk_error :: string
  sk_is_open :: bool
  sk_disk :: "bool list"

definition closed_sink :: "bool \<Rightarrow> bool list \<Rightarrow> Sink" where
  "closed_sink stream disk = \<lparr>sk_stream = stream, sk_bytes = [], sk_size = 0, sk_error = [], sk_is_open = False, sk_disk = disk\<rparr>"

definition next_ok :: "Sink \<Rightarrow> bool \<times> Sink" where
  "next_ok s = (case sk_disk s of [] \<Rightarrow> (True, s) | b # bs \<Rightarrow> (b, s\<lparr>sk_disk := bs\<rparr>))"

definition latch :: "bool \<Rightarrow> string \<Rightarrow> Sink \<Rightarrow> Sink" where
  "latch ok message s = (if \<not> ok \<and> sk_error s = [] then s\<lparr>sk_error := message\<rparr> else s)"

definition handleWrite :: "string \<Rightarrow> Sink \<Rightarrow> Sink" where
  "handleWrite data s =
     (let size = word_of_nat (length data) in
      if sk_error s \<noteq> [] then s\<lparr>sk_size := sk_size s + size\<rparr>
      else if \<not> sk_is_open s then latch (\<not> sk_stream s) ''filesystem write failed'' (s\<lparr>sk_size := sk_size s + size\<rparr>)
      else case next_ok s of (ok, s1) \<Rightarrow>
        latch ok ''filesystem write failed''
          (s1\<lparr>sk_bytes := (if ok then sk_bytes s1 @ data else sk_bytes s1), sk_size := sk_size s1 + size\<rparr>))"

definition sink_flush :: "Sink \<Rightarrow> Sink" where
  "sink_flush s =
     (if \<not> sk_is_open s \<or> sk_error s \<noteq> [] then s
      else case next_ok s of (ok, s1) \<Rightarrow> latch ok ''filesystem flush failed'' s1)"

definition closeStream :: "Sink \<Rightarrow> Sink" where
  "closeStream s =
     (if \<not> sk_is_open s then s
      else case next_ok s of (flushed, s1) \<Rightarrow>
        case next_ok (latch flushed ''filesystem flush failed'' s1) of (closed, s2) \<Rightarrow>
          (latch closed ''filesystem close failed'' s2)\<lparr>sk_is_open := False\<rparr>)"

fun sink_step :: "sink_call \<Rightarrow> Sink \<Rightarrow> Sink" where
  "sink_step (SinkWrite data) s = handleWrite data s"
| "sink_step SinkFlush s = sink_flush s"
| "sink_step SinkEnd s = closeStream s"

definition sink_run :: "sink_call list \<Rightarrow> Sink \<Rightarrow> Sink" where
  "sink_run calls s = fold sink_step calls s"

section \<open>The library\<close>

record McapSchema =
  sch_name :: string
  sch_encoding :: string
  sch_data :: string

record McapChannel =
  ch_topic :: string
  ch_encoding :: string
  ch_schema :: u16

record McapMessage =
  mm_channel :: u16
  mm_sequence :: u32
  mm_log_time :: u64
  mm_publish_time :: u64
  mm_data :: string

record 'l McapOut =
  mo_open :: "sink_call list \<times> 'l"
  mo_schema :: "McapSchema \<Rightarrow> 'l \<Rightarrow> u16 \<times> 'l"
  mo_channel :: "McapChannel \<Rightarrow> 'l \<Rightarrow> u16 \<times> 'l"
  mo_write :: "McapMessage \<Rightarrow> 'l \<Rightarrow> string option \<times> sink_call list \<times> 'l"
  mo_metadata :: "string \<Rightarrow> (string \<times> string) list \<Rightarrow> 'l \<Rightarrow> string option \<times> sink_call list \<times> 'l"
  mo_close :: "'l \<Rightarrow> sink_call list \<times> 'l"

section \<open>The writer\<close>

text \<open>
  \<open>wr_ext\<close> is the sink of the caller, when the writer was opened over one; otherwise the writer
  writes to its own \<open>output\<close>.
\<close>

record 'l Writer =
  wr_output :: Sink
  wr_ext :: "Sink option"
  wr_lib :: 'l
  channels_by_topic :: "u32 \<Rightarrow> (u16 \<times> u32) option"
  skipped_unknown_topics :: u64
  wr_open :: bool
  wrote_message :: bool

definition put_calls :: "sink_call list \<Rightarrow> 'l Writer \<Rightarrow> 'l Writer" where
  "put_calls calls wr =
     (case wr_ext wr of
        Some s \<Rightarrow> wr\<lparr>wr_ext := Some (sink_run calls s)\<rparr>
      | None \<Rightarrow> wr\<lparr>wr_output := sink_run calls (wr_output wr)\<rparr>)"

definition add_schemas :: "'l McapOut \<Rightarrow> SessionSchema list \<Rightarrow> 'l \<Rightarrow> (u32 \<Rightarrow> u16 option) \<times> 'l" where
  "add_schemas M schemas l =
     fold (\<lambda>s (ids, l).
        if ss_schema_id s = 0 then (ids, l)
        else case mo_schema M \<lparr>sch_name = ss_name s, sch_encoding = ss_encoding s, sch_data = ss_data s\<rparr> l of
            (i, l') \<Rightarrow> (ids(ss_schema_id s \<mapsto> i), l'))
       schemas (Map.empty, l)"

definition add_channels ::
  "'l McapOut \<Rightarrow> (u32 \<Rightarrow> u16 option) \<Rightarrow> SessionTopic list \<Rightarrow> (u32 \<Rightarrow> (u16 \<times> u32) option) \<times> 'l \<Rightarrow> (u32 \<Rightarrow> (u16 \<times> u32) option) \<times> 'l" where
  "add_channels M ids topics st =
     fold (\<lambda>t (chs, l).
        case mo_channel M \<lparr>ch_topic = st_topic_name t, ch_encoding = st_message_encoding t,
            ch_schema = (case ids (st_schema_id t) of Some i \<Rightarrow> i | None \<Rightarrow> 0)\<rparr> l of
          (c, l') \<Rightarrow> (chs(st_topic_id t \<mapsto> (c, 0)), l'))
       topics st"

definition open_over :: "'l McapOut \<Rightarrow> SessionInfo \<Rightarrow> 'l Writer \<Rightarrow> (string + unit) \<times> 'l Writer" where
  "open_over M info wr =
     (if wr_open wr then (Inl ''MCAP writer is already open'', wr)
      else case mo_open M of (calls, l) \<Rightarrow>
        case add_schemas M (inf_schemas info) l of (ids, l1) \<Rightarrow>
        case add_channels M ids (inf_topics info) (channels_by_topic wr, l1) of (chs, l2) \<Rightarrow>
          (Inr (), (put_calls calls wr)\<lparr>wr_lib := l2, channels_by_topic := chs, wr_open := True, wrote_message := False\<rparr>))"

text \<open>
  The overload with a path; \<open>opened\<close> is the outcome of opening the stream, with the text of
  \<open>errno\<close> if it fails, \<open>removed\<close> that of removing the file. The last component tells whether the
  call leaves a file it has created.
\<close>

definition open_path ::
  "'l McapOut \<Rightarrow> string \<Rightarrow> (string + unit) \<Rightarrow> (string + unit) \<Rightarrow> SessionInfo \<Rightarrow> 'l Writer \<Rightarrow>
   (string + unit) \<times> 'l Writer \<times> bool" where
  "open_path M path opened removed info wr =
     (if wr_open wr then (Inl ''MCAP writer is already open'', wr, False)
      else case opened of
        Inl e \<Rightarrow>
          let message = ''could not open output MCAP '' @ [CHR 0x27] @ path @ [CHR 0x27] @ (if e = [] then [] else '': '' @ e) in
          (Inl message, wr\<lparr>wr_output := (wr_output wr)\<lparr>sk_error := message\<rparr>\<rparr>, False)
      | Inr _ \<Rightarrow>
          let wr1 = snd (open_over M info (wr\<lparr>wr_ext := None,
                wr_output := (wr_output wr)\<lparr>sk_bytes := [], sk_is_open := True\<rparr>\<rparr>)) in
          if sk_error (wr_output wr1) \<noteq> [] then
            (let message = sk_error (wr_output wr1) in
             (Inl (case removed of
                  Inl e \<Rightarrow> message @ '' (a stray partial remains at '' @ [CHR 0x27] @ path @ [CHR 0x27] @ '': '' @ e @ '')''
                | Inr _ \<Rightarrow> message),
              wr1\<lparr>wr_output := closeStream (wr_output wr1), wr_open := False, channels_by_topic := Map.empty\<rparr>,
              case removed of Inl _ \<Rightarrow> True | Inr _ \<Rightarrow> False))
          else (Inr (), wr1, True))"

definition wr_write :: "'l McapOut \<Rightarrow> DecodedMessage \<Rightarrow> 'l Writer \<Rightarrow> (string + unit) \<times> 'l Writer" where
  "wr_write M m wr =
     (if \<not> wr_open wr then (Inl ''MCAP writer is not open'', wr)
      else
        let wr1 = wr\<lparr>wrote_message := True\<rparr> in
        case channels_by_topic wr1 (dm_topic_id m) of
          None \<Rightarrow> (Inr (), wr1\<lparr>skipped_unknown_topics := skipped_unknown_topics wr1 + 1\<rparr>)
        | Some (c, next_sequence) \<Rightarrow>
            case mo_write M \<lparr>mm_channel = c, mm_sequence = next_sequence, mm_log_time = word_of_int (dm_log_time_ns m),
                mm_publish_time = word_of_int (dm_publish_time_ns m), mm_data = dm_payload m\<rparr> (wr_lib wr1) of
              (status, calls, l) \<Rightarrow>
                let wr2 = (put_calls calls wr1)\<lparr>wr_lib := l,
                      channels_by_topic := (channels_by_topic wr1)(dm_topic_id m \<mapsto> (c, next_sequence + 1))\<rparr> in
                case status of
                  Some e \<Rightarrow> (Inl (''MCAP write failed: '' @ e), wr2)
                | None \<Rightarrow>
                    if sk_error (wr_output wr2) \<noteq> [] then (Inl (''MCAP write failed: '' @ sk_error (wr_output wr2)), wr2)
                    else (Inr (), wr2))"

definition writeMetadata :: "'l McapOut \<Rightarrow> string \<Rightarrow> string \<Rightarrow> 'l Writer \<Rightarrow> (string + unit) \<times> 'l Writer" where
  "writeMetadata M name value_json wr =
     (if \<not> wr_open wr then (Inl ''MCAP writer is not open'', wr)
      else if wrote_message wr then (Inl ''writeMetadata must be called before the first write()'', wr)
      else case mo_metadata M name [(''json'', value_json)] (wr_lib wr) of
        (status, calls, l) \<Rightarrow>
          let wr1 = (put_calls calls wr)\<lparr>wr_lib := l\<rparr> in
          case status of
            Some e \<Rightarrow> (Inl (''MCAP metadata write failed: '' @ e), wr1)
          | None \<Rightarrow>
              if sk_error (wr_output wr1) \<noteq> [] then (Inl (''MCAP metadata write failed: '' @ sk_error (wr_output wr1)), wr1)
              else (Inr (), wr1))"

definition wr_close :: "'l McapOut \<Rightarrow> 'l Writer \<Rightarrow> (string + unit) \<times> 'l Writer" where
  "wr_close M wr =
     (if \<not> wr_open wr then (Inr (), wr)
      else case mo_close M (wr_lib wr) of
        (calls, l) \<Rightarrow>
          let wr1 = (put_calls calls wr)\<lparr>wr_lib := l, wr_open := False\<rparr> in
          if sk_error (wr_output wr1) \<noteq> [] then (Inl (''MCAP finalize failed: '' @ sk_error (wr_output wr1)), wr1)
          else (Inr (), wr1))"

text \<open>A caller's loop: it stops at the first message that fails.\<close>

fun write_all :: "'l McapOut \<Rightarrow> DecodedMessage list \<Rightarrow> 'l Writer \<Rightarrow> (string + unit) \<times> 'l Writer" where
  "write_all M [] wr = (Inr (), wr)"
| "write_all M (m # ms) wr =
     (case wr_write M m wr of (Inl e, wr') \<Rightarrow> (Inl e, wr') | (Inr _, wr') \<Rightarrow> write_all M ms wr')"

section \<open>What the library is given\<close>

text \<open>
  The record of a message: on the channel of its topic, numbered by the earlier messages of the
  topic. A message of a topic outside the dictionary has none.
\<close>

definition earlier :: "DecodedMessage \<Rightarrow> DecodedMessage list \<Rightarrow> nat" where
  "earlier m before = length (filter (\<lambda>x. dm_topic_id x = dm_topic_id m) before)"

definition record_for :: "(u32 \<Rightarrow> (u16 \<times> u32) option) \<Rightarrow> DecodedMessage list \<Rightarrow> DecodedMessage \<Rightarrow> McapMessage option" where
  "record_for chs before m =
     map_option (\<lambda>(c, s). \<lparr>mm_channel = c, mm_sequence = s + word_of_nat (earlier m before),
        mm_log_time = word_of_int (dm_log_time_ns m), mm_publish_time = word_of_int (dm_publish_time_ns m),
        mm_data = dm_payload m\<rparr>) (chs (dm_topic_id m))"

fun session_records :: "(u32 \<Rightarrow> (u16 \<times> u32) option) \<Rightarrow> DecodedMessage list \<Rightarrow> DecodedMessage list \<Rightarrow> McapMessage list" where
  "session_records chs before [] = []"
| "session_records chs before (m # ms) =
     (case record_for chs before m of None \<Rightarrow> [] | Some r \<Rightarrow> [r]) @ session_records chs (before @ [m]) ms"

fun lib_feed :: "'l McapOut \<Rightarrow> McapMessage list \<Rightarrow> 'l \<Rightarrow> (sink_call list \<times> 'l) option" where
  "lib_feed M [] l = Some ([], l)"
| "lib_feed M (r # rs) l =
     (case mo_write M r l of
        (Some e, _, _) \<Rightarrow> None
      | (None, calls, l1) \<Rightarrow> map_option (\<lambda>(more, l2). (calls @ more, l2)) (lib_feed M rs l1))"

definition unknown :: "(u32 \<Rightarrow> (u16 \<times> u32) option) \<Rightarrow> DecodedMessage list \<Rightarrow> nat" where
  "unknown chs ms = length (filter (\<lambda>m. chs (dm_topic_id m) = None) ms)"

definition numbered :: "(u32 \<Rightarrow> (u16 \<times> u32) option) \<Rightarrow> DecodedMessage list \<Rightarrow> (u32 \<Rightarrow> (u16 \<times> u32) option)" where
  "numbered chs before t =
     map_option (\<lambda>(c, s). (c, s + word_of_nat (length (filter (\<lambda>x. dm_topic_id x = t) before)))) (chs t)"

lemma numbered_snoc:
  "chs (dm_topic_id m) = Some (c, s) \<Longrightarrow>
   (numbered chs before)(dm_topic_id m \<mapsto> (c, s + word_of_nat (earlier m before) + 1)) = numbered chs (before @ [m])"
  "chs (dm_topic_id m) = None \<Longrightarrow> numbered chs (before @ [m]) = numbered chs before"
  by (auto simp: numbered_def earlier_def fun_eq_iff algebra_simps split: option.split)

lemma put_calls_simps [simp]:
  "wr_lib (put_calls c wr) = wr_lib wr" "channels_by_topic (put_calls c wr) = channels_by_topic wr"
  "skipped_unknown_topics (put_calls c wr) = skipped_unknown_topics wr" "wr_open (put_calls c wr) = wr_open wr"
  "wrote_message (put_calls c wr) = wrote_message wr" "wr_ext (put_calls c wr) = map_option (sink_run c) (wr_ext wr)"
  "wr_output (put_calls c wr) = (if wr_ext wr = None then sink_run c (wr_output wr) else wr_output wr)"
  by (simp_all add: put_calls_def split: option.split)

lemma sink_run_append: "sink_run (a @ b) s = sink_run b (sink_run a s)"
  by (simp add: sink_run_def)

lemma sink_run_Nil [simp]: "sink_run [] s = s"
  by (simp add: sink_run_def)

lemma write_all_records:
  assumes "write_all M ms wr = (Inr (), wr')" "wr_open wr" "channels_by_topic wr = numbered chs before"
  shows "\<exists>calls l. lib_feed M (session_records chs before ms) (wr_lib wr) = Some (calls, l) \<and> wr_lib wr' = l \<and>
     wr_open wr' \<and> channels_by_topic wr' = numbered chs (before @ ms) \<and>
     skipped_unknown_topics wr' = skipped_unknown_topics wr + word_of_nat (unknown chs ms) \<and>
     wr_ext wr' = map_option (sink_run calls) (wr_ext wr) \<and>
     wr_output wr' = (if wr_ext wr = None then sink_run calls (wr_output wr) else wr_output wr)"
  using assms
proof (induction ms arbitrary: wr before)
  case Nil
  then show ?case by (auto simp: unknown_def option.map_ident_strong)
next
  case (Cons m ms)
  obtain wr1 where w: "wr_write M m wr = (Inr (), wr1)" "write_all M ms wr1 = (Inr (), wr')"
    using Cons.prems(1) by (auto split: prod.splits sum.splits)
  show ?case
  proof (cases "chs (dm_topic_id m)")
    case None
    then have w1: "wr1 = wr\<lparr>wrote_message := True, skipped_unknown_topics := skipped_unknown_topics wr + 1\<rparr>"
      using w(1) Cons.prems(2,3) by (auto simp: wr_write_def numbered_def Let_def)
    from Cons.IH [OF w(2), of "before @ [m]"] None show ?thesis
      by (auto simp: w1 Cons.prems numbered_snoc(2) record_for_def unknown_def algebra_simps)
  next
    case (Some cs)
    obtain c s where cs: "cs = (c, s)" by fastforce
    have rec: "record_for chs before m = Some \<lparr>mm_channel = c, mm_sequence = s + word_of_nat (earlier m before),
        mm_log_time = word_of_int (dm_log_time_ns m), mm_publish_time = word_of_int (dm_publish_time_ns m), mm_data = dm_payload m\<rparr>"
      (is "_ = Some ?r") using Some cs by (simp add: record_for_def)
    have ch: "channels_by_topic wr (dm_topic_id m) = Some (c, s + word_of_nat (earlier m before))"
      using Some cs by (simp add: Cons.prems(3) numbered_def earlier_def)
    obtain status calls l where mo: "mo_write M ?r (wr_lib wr) = (status, calls, l)" by (metis prod_cases3)
    have w1: "status = None" "wr1 = (put_calls calls (wr\<lparr>wrote_message := True\<rparr>))\<lparr>wr_lib := l,
          channels_by_topic := (numbered chs before)(dm_topic_id m \<mapsto> (c, s + word_of_nat (earlier m before) + 1))\<rparr>"
      using w(1) Cons.prems(2,3) ch mo by (auto simp: wr_write_def Let_def split: option.splits if_splits)
    from Cons.IH [OF w(2), of "before @ [m]"] w1 Some cs Cons.prems(2) mo rec show ?thesis
      by (auto simp: numbered_snoc(1) unknown_def sink_run_append option.map_comp o_def split: if_splits)
  qed
qed

text \<open>The schemas and channels of the session, registered with the opened library.\<close>

definition dictionary :: "'l McapOut \<Rightarrow> SessionInfo \<Rightarrow> (u32 \<Rightarrow> (u16 \<times> u32) option) \<times> 'l" where
  "dictionary M info =
     (case add_schemas M (inf_schemas info) (snd (mo_open M)) of (ids, l) \<Rightarrow> add_channels M ids (inf_topics info) (Map.empty, l))"

lemma open_over_dictionary:
  "\<not> wr_open wr \<Longrightarrow> channels_by_topic wr = Map.empty \<Longrightarrow> open_over M info wr = (r, wr') \<Longrightarrow>
   r = Inr () \<and> dictionary M info = (channels_by_topic wr', wr_lib wr') \<and> wr_open wr' \<and> \<not> wrote_message wr' \<and>
   wr_ext wr' = map_option (sink_run (fst (mo_open M))) (wr_ext wr) \<and>
   (wr_ext wr \<noteq> None \<longrightarrow> wr_output wr' = wr_output wr)"
  by (auto simp: open_over_def dictionary_def put_calls_def split: prod.splits option.splits)

section \<open>No loss goes unreported\<close>

fun written :: "sink_call list \<Rightarrow> string" where
  "written [] = []"
| "written (SinkWrite data # cs) = data @ written cs"
| "written (c # cs) = written cs"

lemma written_append: "written (a @ b) = written a @ written b"
  by (induction a rule: written.induct) auto

lemma sink_step_stream [simp]: "sk_stream (sink_step c s) = sk_stream s"
  by (cases c) (auto simp: handleWrite_def sink_flush_def closeStream_def latch_def next_ok_def Let_def split: list.split)

lemma sink_error_sticky: "sk_error s \<noteq> [] \<Longrightarrow> sk_error (sink_step c s) = sk_error s"
  by (cases c) (auto simp: handleWrite_def sink_flush_def closeStream_def latch_def next_ok_def Let_def split: list.split)

lemma sink_step_healthy:
  "sk_stream s \<Longrightarrow> sk_error s = [] \<Longrightarrow> sk_error (sink_step c s) = [] \<Longrightarrow> sk_bytes (sink_step c s) = sk_bytes s @ written [c]"
  by (cases c) (auto simp: handleWrite_def sink_flush_def closeStream_def latch_def next_ok_def Let_def split: list.splits if_splits)

lemma sink_run_healthy:
  assumes "sk_stream s" "sk_error (sink_run calls s) = []"
  shows "sk_error s = [] \<and> sk_bytes (sink_run calls s) = sk_bytes s @ written calls"
  using assms
proof (induction calls arbitrary: s)
  case (Cons c calls)
  have r: "sink_run (c # calls) s = sink_run calls (sink_step c s)" by (simp add: sink_run_def)
  from Cons.IH [of "sink_step c s"] Cons.prems r
  have ih: "sk_error (sink_step c s) = []" "sk_bytes (sink_run calls (sink_step c s)) = sk_bytes (sink_step c s) @ written calls" by auto
  then have "sk_error s = []" using sink_error_sticky by metis
  with ih r sink_step_healthy [of s c] Cons.prems(1) written_append [of "[c]" calls] show ?case by simp
qed simp

lemma sink_run_stream [simp]: "sk_stream (sink_run calls s) = sk_stream s"
  by (induction calls arbitrary: s) (simp_all add: sink_run_def)

lemma numbered_Nil [simp]: "numbered chs [] = chs"
  by (auto simp: numbered_def fun_eq_iff option.map_ident_strong)

lemma add_channels_dom:
  "dom (fst (add_channels M ids topics (chs, l))) = dom chs \<union> st_topic_id ` set topics"
proof (induction topics arbitrary: chs l)
  case (Cons t ts)
  obtain c l' where c: "mo_channel M \<lparr>ch_topic = st_topic_name t, ch_encoding = st_message_encoding t,
      ch_schema = (case ids (st_schema_id t) of Some i \<Rightarrow> i | None \<Rightarrow> 0)\<rparr> l = (c, l')" by fastforce
  then have "add_channels M ids (t # ts) (chs, l) = add_channels M ids ts (chs(st_topic_id t \<mapsto> (c, 0)), l')"
    by (simp add: add_channels_def)
  then have "dom (fst (add_channels M ids (t # ts) (chs, l))) = dom (chs(st_topic_id t \<mapsto> (c, 0))) \<union> st_topic_id ` set ts"
    by (simp only: Cons.IH)
  then show ?case by simp
qed (simp add: add_channels_def)

text \<open>
  When opening the file, every write and the close report success, then the library was given,
  in order, one record for every message of a topic in the dictionary, on the channel of its topic
  and numbered from 0 along it, the other messages were counted, and every byte the library wrote is
  in the file: the errors the library ignores are not lost.
\<close>

theorem writer_complete:
  assumes "\<not> wr_open wr" "sk_stream (wr_output wr)" "channels_by_topic wr = Map.empty" "skipped_unknown_topics wr = 0"
    and "open_path M path opened removed info wr = (Inr (), wr1, left)"
    and "write_all M ms wr1 = (Inr (), wr2)" and "wr_close M wr2 = (Inr (), wr3)"
  shows "\<exists>calls l. lib_feed M (session_records (channels_by_topic wr1) [] ms) (wr_lib wr1) = Some (calls, l) \<and>
     dom (channels_by_topic wr1) = st_topic_id ` set (inf_topics info) \<and>
     skipped_unknown_topics wr3 = word_of_nat (unknown (channels_by_topic wr1) ms) \<and>
     sk_bytes (wr_output wr3) = written (fst (mo_open M) @ calls @ fst (mo_close M l))"
proof -
  let ?w0 = "wr\<lparr>wr_ext := None, wr_output := (wr_output wr)\<lparr>sk_bytes := [], sk_is_open := True\<rparr>\<rparr>"
  have w1: "wr1 = snd (open_over M info ?w0)" "sk_error (wr_output wr1) = []"
    using assms(1,5) by (auto simp: open_path_def Let_def split: sum.splits if_splits)
  obtain oc l0 where o: "mo_open M = (oc, l0)" by fastforce
  obtain ids l1 where a: "add_schemas M (inf_schemas info) l0 = (ids, l1)" by fastforce
  obtain chs l2 where b: "add_channels M ids (inf_topics info) (Map.empty, l1) = (chs, l2)" by fastforce
  have w1': "wr1 = (put_calls oc ?w0)\<lparr>wr_lib := l2, channels_by_topic := chs, wr_open := True, wrote_message := False\<rparr>"
    using w1(1) assms(1,3) o a b by (simp add: open_over_def)
  then have op: "wr_open wr1" "wr_ext wr1 = None" "channels_by_topic wr1 = chs" "skipped_unknown_topics wr1 = 0" using assms(4) by simp_all
  obtain calls l where r: "lib_feed M (session_records chs [] ms) (wr_lib wr1) = Some (calls, l)" "wr_lib wr2 = l" "wr_open wr2"
      "skipped_unknown_topics wr2 = word_of_nat (unknown chs ms)" "wr_ext wr2 = None" "wr_output wr2 = sink_run calls (wr_output wr1)"
    using write_all_records [OF assms(6) op(1), of chs "[]"] op by auto
  have w3: "sk_error (wr_output wr3) = []" "wr_output wr3 = sink_run (fst (mo_close M l)) (wr_output wr2)"
      "skipped_unknown_topics wr3 = skipped_unknown_topics wr2"
    using assms(7) r by (auto simp: wr_close_def Let_def split: prod.splits if_splits)
  have "wr_output wr3 = sink_run (oc @ calls @ fst (mo_close M l)) (wr_output ?w0)"
    by (simp add: w3(2) r(6) w1' sink_run_append)
  with sink_run_healthy [of "wr_output ?w0" "oc @ calls @ fst (mo_close M l)"] w3(1) assms(2)
  have "sk_bytes (wr_output wr3) = written (oc @ calls @ fst (mo_close M l))" by simp
  moreover have "dom chs = st_topic_id ` set (inf_topics info)"
    using add_channels_dom [of M ids "inf_topics info" Map.empty l1] b by simp
  ultimately show ?thesis using r w3(3) o op(3) by auto
qed

text \<open>A library that numbers its channels and writes one byte per message.\<close>

definition toy_lib :: "nat McapOut" where
  "toy_lib = \<lparr>mo_open = ([SinkWrite ''H''], 0), mo_schema = \<lambda>_ n. (1, n), mo_channel = \<lambda>_ n. (word_of_nat n, n + 1),
     mo_write = \<lambda>r n. (None, [SinkWrite (mm_data r)], n), mo_metadata = \<lambda>_ _ n. (None, [], n),
     mo_close = \<lambda>n. ([SinkWrite ''F'', SinkEnd], n)\<rparr>"

definition toy_info :: SessionInfo where
  "toy_info = \<lparr>inf_subscription_id = 1, inf_merged_start_ns = 0, inf_merged_end_ns = 9, inf_estimated_chunk_bytes = 0,
     inf_approximate_messages = 2,
     inf_topics = [\<lparr>st_topic_id = 7, st_topic_name = ''/imu'', st_schema_id = 0, st_message_encoding = ''cdr''\<rparr>], inf_schemas = []\<rparr>"

definition toy_message :: "u32 \<Rightarrow> string \<Rightarrow> DecodedMessage" where
  "toy_message t p = \<lparr>dm_topic_id = t, dm_schema_id = 0, dm_log_time_ns = 3, dm_publish_time_ns = 3, dm_payload = p\<rparr>"

definition new_writer :: "'l \<Rightarrow> 'l Writer" where
  "new_writer l = \<lparr>wr_output = closed_sink True [], wr_ext = None, wr_lib = l, channels_by_topic = Map.empty,
     skipped_unknown_topics = 0, wr_open = False, wrote_message = False\<rparr>"

theorem writer_complete_witness:
  "\<exists>wr1 left wr2 wr3. open_path toy_lib ''out.mcap'' (Inr ()) (Inr ()) toy_info (new_writer 0) = (Inr (), wr1, left) \<and>
     write_all toy_lib [toy_message 7 ''a'', toy_message 8 ''x'', toy_message 7 ''b''] wr1 = (Inr (), wr2) \<and>
     wr_close toy_lib wr2 = (Inr (), wr3) \<and> sk_bytes (wr_output wr3) = ''HabF'' \<and> skipped_unknown_topics wr3 = 1"
proof -
  let ?ms = "[toy_message 7 ''a'', toy_message 8 ''x'', toy_message 7 ''b'']"
  let ?o = "open_path toy_lib ''out.mcap'' (Inr ()) (Inr ()) toy_info (new_writer 0)"
  define wr1 where "wr1 = fst (snd ?o)"
  define wr2 where "wr2 = snd (write_all toy_lib ?ms wr1)"
  define wr3 where "wr3 = snd (wr_close toy_lib wr2)"
  have "fst ?o = Inr ()" "fst (write_all toy_lib ?ms wr1) = Inr ()" "fst (wr_close toy_lib wr2) = Inr ()"
    unfolding wr2_def wr1_def by code_simp+
  then have o: "?o = (Inr (), wr1, snd (snd ?o))" "write_all toy_lib ?ms wr1 = (Inr (), wr2)" "wr_close toy_lib wr2 = (Inr (), wr3)"
    by (simp_all add: wr1_def wr2_def wr3_def prod_eq_iff)
  have n: "\<not> wr_open (new_writer 0)" "sk_stream (wr_output (new_writer 0))" "channels_by_topic (new_writer 0) = Map.empty"
    "skipped_unknown_topics (new_writer 0) = 0" by (simp_all add: new_writer_def closed_sink_def)
  have c: "channels_by_topic wr1 7 = Some (0, 0)" "channels_by_topic wr1 8 = None" unfolding wr1_def by code_simp+
  have "sk_bytes (wr_output wr3) = ''HabF'' \<and> skipped_unknown_topics wr3 = 1"
    using writer_complete [OF n o] by (auto simp: record_for_def toy_message_def toy_lib_def c unknown_def)
  with o show ?thesis by blast
qed

end
