(* ===== verification/Tee_Queue.thy ===== *)
theory Tee_Queue
  imports Mcap_Writer "HOL-Library.Code_Target_Nat"
begin

text \<open>
  The bounded queue between the pull thread and the writer thread of a \<open>CacheTee\<close>
  (\<open>import_runtime.cpp\<close>). Each critical section of the queue mutex is one function; the two
  threads and the abort signal interleave as an inductive step relation. A call that waits on a
  condition variable returns \<^const>\<open>None\<close> while its predicate is false.
\<close>

section \<open>State\<close>

definition kMaxQueuedMessages :: nat where
  "kMaxQueuedMessages = 4096"

definition kMaxQueuedBytes :: nat where
  "kMaxQueuedBytes = 32 * 1024 * 1024"

datatype thread_state = Waiting | Writing DecodedMessage | Finished

record 'l Tee =
  max_queued_messages :: nat
  tq_queue :: "DecodedMessage list"
  queued_bytes :: nat
  queue_closed :: bool
  tq_failed :: bool
  fail_error :: string
  abort_requested :: bool
  tq_joinable :: bool
  tq_thread :: thread_state
  known_topic_ids :: "u32 list"
  enqueued_known_topics :: "u32 list"
  enqueued_known_messages :: u64
  tq_writer :: "'l Writer"
  writer_open :: bool

section \<open>Operations\<close>

definition stopped :: "'l Tee \<Rightarrow> bool" where
  "stopped t \<longleftrightarrow> tq_failed t \<or> queue_closed t \<or> abort_requested t"

definition enqueue :: "DecodedMessage \<Rightarrow> 'l Tee \<Rightarrow> bool option \<times> 'l Tee" where
  "enqueue m t =
     (if \<not> tq_joinable t then (Some False, t)
      else if \<not> (stopped t \<or> length (tq_queue t) < max_queued_messages t \<and> queued_bytes t < kMaxQueuedBytes) then (None, t)
      else if stopped t then (Some False, t)
      else (Some True,
        t\<lparr>queued_bytes := queued_bytes t + length (dm_payload m),
          enqueued_known_messages := enqueued_known_messages t + (if dm_topic_id m \<in> set (known_topic_ids t) then 1 else 0),
          enqueued_known_topics :=
            (if dm_topic_id m \<in> set (known_topic_ids t) then List.insert (dm_topic_id m) (enqueued_known_topics t)
             else enqueued_known_topics t),
          tq_queue := tq_queue t @ [m]\<rparr>))"

definition requestAbort :: "'l Tee \<Rightarrow> 'l Tee" where
  "requestAbort t = t\<lparr>abort_requested := True\<rparr>"

definition failLocked :: "string \<Rightarrow> 'l Tee \<Rightarrow> 'l Tee" where
  "failLocked reason t = t\<lparr>tq_failed := True, fail_error := (if fail_error t = [] then reason else fail_error t)\<rparr>"

text \<open>The critical section at the head of \<open>writerLoop\<close>, and the write that follows it.\<close>

definition writer_take :: "'l Tee \<Rightarrow> 'l Tee option" where
  "writer_take t =
     (if \<not> (tq_queue t \<noteq> [] \<or> queue_closed t \<or> tq_failed t \<or> abort_requested t) then None
      else if tq_failed t \<or> abort_requested t then Some (t\<lparr>tq_thread := Finished\<rparr>)
      else (case tq_queue t of
          [] \<Rightarrow> Some (t\<lparr>tq_thread := Finished\<rparr>)
        | m # ms \<Rightarrow> Some (t\<lparr>tq_queue := ms, queued_bytes := queued_bytes t - length (dm_payload m), tq_thread := Writing m\<rparr>)))"

definition sink_error_of :: "'l Writer \<Rightarrow> string" where
  "sink_error_of wr = (case wr_ext wr of None \<Rightarrow> [] | Some s \<Rightarrow> sk_error s)"

definition writer_put :: "'l McapOut \<Rightarrow> DecodedMessage \<Rightarrow> 'l Tee \<Rightarrow> 'l Tee" where
  "writer_put M m t =
     (case wr_write M m (tq_writer t) of
        (Inl e, wr) \<Rightarrow> (failLocked e t)\<lparr>tq_writer := wr, tq_thread := Finished\<rparr>
      | (Inr _, wr) \<Rightarrow>
          if sink_error_of wr \<noteq> [] then (failLocked (sink_error_of wr) t)\<lparr>tq_writer := wr, tq_thread := Finished\<rparr>
          else t\<lparr>tq_writer := wr, tq_thread := Waiting\<rparr>)"

text \<open>One step of the writer thread; it stays where it is while it waits and once it has returned.\<close>

definition writer_step :: "'l McapOut \<Rightarrow> 'l Tee \<Rightarrow> 'l Tee" where
  "writer_step M t =
     (case tq_thread t of
        Waiting \<Rightarrow> (case writer_take t of None \<Rightarrow> t | Some t' \<Rightarrow> t')
      | Writing m \<Rightarrow> writer_put M m t
      | Finished \<Rightarrow> t)"

text \<open>
  Joining the writer thread of a closed queue: the thread runs to its end. Before each of its steps
  another thread may ask for an abort, which the list of flags tells.
\<close>

definition thread_work :: "'l Tee \<Rightarrow> nat" where
  "thread_work t = 2 * length (tq_queue t) + (case tq_thread t of Waiting \<Rightarrow> 1 | Writing _ \<Rightarrow> 2 | Finished \<Rightarrow> 0)"

fun next_flag :: "bool list \<Rightarrow> bool \<times> bool list" where
  "next_flag [] = (False, [])"
| "next_flag (b # bs) = (b, bs)"

lemma writer_put_work: "thread_work (writer_put M m t) < 2 * length (tq_queue t) + 2"
  by (simp add: writer_put_def failLocked_def thread_work_def split: prod.split sum.split)

lemma writer_step_work:
  assumes "queue_closed t" "tq_thread t \<noteq> Finished" shows "thread_work (writer_step M t) < thread_work t"
proof (cases "tq_thread t")
  case (Writing m)
  with writer_put_work [of M m t] show ?thesis by (simp add: writer_step_def thread_work_def)
qed (use assms in \<open>auto simp: writer_step_def thread_work_def writer_take_def split: list.split\<close>)

lemma requestAbort_simps [simp]:
  "thread_work (requestAbort t) = thread_work t" "queue_closed (requestAbort t) = queue_closed t"
  "tq_thread (requestAbort t) = tq_thread t"
  by (simp_all add: requestAbort_def thread_work_def)

function join_writer :: "'l McapOut \<Rightarrow> bool list \<Rightarrow> 'l Tee \<Rightarrow> 'l Tee" where
  "join_writer M aborts t =
     (if tq_thread t = Finished \<or> \<not> queue_closed t then t
      else case next_flag aborts of (b, rest) \<Rightarrow>
        join_writer M rest (writer_step M (if b then requestAbort t else t)))"
  by auto
termination
  by (relation "measure (\<lambda>(M, aborts, t). thread_work t)") (auto intro: less_le_trans [OF writer_step_work])

declare join_writer.simps [simp del]

text \<open>\<open>drainAndClose\<close>; the sink is the one the writer was opened over.\<close>

definition close_sink :: "'l Writer \<Rightarrow> 'l Writer" where
  "close_sink wr = wr\<lparr>wr_ext := map_option closeStream (wr_ext wr)\<rparr>"

definition drainAndClose :: "'l McapOut \<Rightarrow> bool list \<Rightarrow> 'l Tee \<Rightarrow> (string + unit) \<times> 'l Tee" where
  "drainAndClose M aborts t =
     (let t1 = t\<lparr>queue_closed := True\<rparr>;
          t2 = (if tq_joinable t1 then (join_writer M aborts t1)\<lparr>tq_joinable := False\<rparr> else t1) in
      if \<not> writer_open t2 then (Inl (if tq_failed t2 then fail_error t2 else ''cache tee writer was never opened''), t2)
      else
        case wr_close M (tq_writer t2) of (closed, wr) \<Rightarrow>
          let t3 = t2\<lparr>tq_writer := close_sink wr, writer_open := False\<rparr> in
          if tq_failed t3 then (Inl (fail_error t3), t3)
          else case closed of
              Inl e \<Rightarrow> (Inl e, t3)
            | Inr _ \<Rightarrow>
                if sink_error_of (tq_writer t3) \<noteq> [] then (Inl (sink_error_of (tq_writer t3)), t3) else (Inr (), t3))"

section \<open>Interleavings\<close>

text \<open>
  The steps of the two threads and of a thread that aborts, labelled with the message that the
  producer has handed over.
\<close>

inductive tee_step :: "'l McapOut \<Rightarrow> 'l Tee \<Rightarrow> DecodedMessage list \<Rightarrow> 'l Tee \<Rightarrow> bool" for M where
  Accept: "enqueue m t = (Some True, t') \<Longrightarrow> tee_step M t [m] t'"
| Refuse: "enqueue m t = (Some False, t') \<Longrightarrow> tee_step M t [] t'"
| Write: "tq_joinable t \<Longrightarrow> tee_step M t [] (writer_step M t)"
| Abort: "tee_step M t [] (requestAbort t)"

inductive_cases tee_stepE: "tee_step M t a t'"

inductive tee_run :: "'l McapOut \<Rightarrow> 'l Tee \<Rightarrow> DecodedMessage list \<Rightarrow> 'l Tee \<Rightarrow> bool" for M where
  Start: "tee_run M t [] t"
| Step: "tee_run M t a t' \<Longrightarrow> tee_step M t' b t'' \<Longrightarrow> tee_run M t (a @ b) t''"

text \<open>The state after a successful \<open>openWriter\<close>: the thread has been started.\<close>

definition started :: "nat \<Rightarrow> u32 list \<Rightarrow> 'l Writer \<Rightarrow> 'l Tee" where
  "started limit topics wr =
     \<lparr>max_queued_messages = limit, tq_queue = [], queued_bytes = 0, queue_closed = False, tq_failed = False,
      fail_error = [], abort_requested = False, tq_joinable = True, tq_thread = Waiting, known_topic_ids = topics,
      enqueued_known_topics = [], enqueued_known_messages = 0, tq_writer = wr, writer_open = True\<rparr>"

section \<open>The invariant\<close>

definition payload_bytes :: "DecodedMessage list \<Rightarrow> nat" where
  "payload_bytes ms = sum_list (map (\<lambda>m. length (dm_payload m)) ms)"

definition in_flight :: "'l Tee \<Rightarrow> DecodedMessage list" where
  "in_flight t = (case tq_thread t of Writing m \<Rightarrow> [m] | _ \<Rightarrow> [])"

text \<open>The queue holds at most as many messages as allowed, and without the last one less than the byte limit.\<close>

definition queue_bounded :: "'l Tee \<Rightarrow> bool" where
  "queue_bounded t \<longleftrightarrow> length (tq_queue t) \<le> max_queued_messages t \<and> queued_bytes t = payload_bytes (tq_queue t) \<and>
     (tq_queue t \<noteq> [] \<longrightarrow> payload_bytes (butlast (tq_queue t)) < kMaxQueuedBytes)"

definition known :: "u32 list \<Rightarrow> DecodedMessage list \<Rightarrow> DecodedMessage list" where
  "known topics ms = filter (\<lambda>m. dm_topic_id m \<in> set topics) ms"

text \<open>
  What was accepted is what was written, the message being written and the queue, in this order,
  and the counters count it. While nothing has failed the writer has written without an error.
\<close>

definition tee_inv :: "'l McapOut \<Rightarrow> 'l Writer \<Rightarrow> u32 list \<Rightarrow> DecodedMessage list \<Rightarrow> 'l Tee \<Rightarrow> bool" where
  "tee_inv M wr topics acc t \<longleftrightarrow> queue_bounded t \<and> known_topic_ids t = topics \<and>
     enqueued_known_messages t = word_of_nat (length (known topics acc)) \<and>
     set (enqueued_known_topics t) = dm_topic_id ` set (known topics acc) \<and> distinct (enqueued_known_topics t) \<and>
     (tq_failed t \<or>
        (\<exists>past. acc = past @ in_flight t @ tq_queue t \<and> write_all M past wr = (Inr (), tq_writer t) \<and>
           (past \<noteq> [] \<longrightarrow> sink_error_of (tq_writer t) = []))) \<and>
     (tq_thread t = Finished \<longrightarrow> tq_failed t \<or> abort_requested t \<or> queue_closed t \<and> tq_queue t = [])"

lemma write_all_snoc:
  "write_all M ms wr = (Inr (), wr1) \<Longrightarrow> wr_write M m wr1 = (Inr (), wr2) \<Longrightarrow> write_all M (ms @ [m]) wr = (Inr (), wr2)"
  by (induction ms arbitrary: wr) (auto split: prod.splits sum.splits)

lemma payload_bytes_simps [simp]:
  "payload_bytes [] = 0" "payload_bytes (m # ms) = length (dm_payload m) + payload_bytes ms"
  "payload_bytes (ms @ ns) = payload_bytes ms + payload_bytes ns"
  by (simp_all add: payload_bytes_def)

lemma enqueue_accepts:
  assumes "enqueue m t = (Some True, t')"
  shows "\<not> stopped t" "length (tq_queue t) < max_queued_messages t" "queued_bytes t < kMaxQueuedBytes" "tq_joinable t"
    and "t' = t\<lparr>queued_bytes := queued_bytes t + length (dm_payload m),
          enqueued_known_messages := enqueued_known_messages t + (if dm_topic_id m \<in> set (known_topic_ids t) then 1 else 0),
          enqueued_known_topics :=
            (if dm_topic_id m \<in> set (known_topic_ids t) then List.insert (dm_topic_id m) (enqueued_known_topics t)
             else enqueued_known_topics t),
          tq_queue := tq_queue t @ [m]\<rparr>"
  using assms by (auto simp: enqueue_def split: if_splits)

lemma inv_enqueue:
  assumes inv: "tee_inv M wr topics acc t" and "enqueue m t = (Some True, t')"
  shows "tee_inv M wr topics (acc @ [m]) t'"
proof -
  note e = enqueue_accepts [OF assms(2)]
  have "queue_bounded t'" using inv e by (simp add: tee_inv_def queue_bounded_def)
  moreover have "in_flight t' = in_flight t" by (simp add: e(5) in_flight_def)
  moreover have "enqueued_known_messages t' = word_of_nat (length (known topics (acc @ [m])))"
    using inv by (simp add: e(5) tee_inv_def known_def)
  moreover have "set (enqueued_known_topics t') = dm_topic_id ` set (known topics (acc @ [m]))"
    using inv by (simp add: e(5) tee_inv_def known_def)
  moreover have "distinct (enqueued_known_topics t')" using inv by (simp add: e(5) tee_inv_def)
  ultimately show ?thesis using inv e(1) by (simp add: tee_inv_def stopped_def e(5))
qed

lemma bounded_tl:
  assumes "queue_bounded t" "tq_queue t = m # ms"
  shows "length ms \<le> max_queued_messages t \<and> queued_bytes t - length (dm_payload m) = payload_bytes ms \<and>
    (ms \<noteq> [] \<longrightarrow> payload_bytes (butlast ms) < kMaxQueuedBytes)"
  using assms by (auto simp: queue_bounded_def)

lemma inv_take:
  assumes inv: "tee_inv M wr topics acc t" and "tq_thread t = Waiting" "writer_take t = Some t'"
  shows "tee_inv M wr topics acc t'"
proof (cases "tq_failed t \<or> abort_requested t \<or> tq_queue t = []")
  case True
  with assms(3) have "t' = t\<lparr>tq_thread := Finished\<rparr>" "tq_queue t = [] \<longrightarrow> queue_closed t \<or> tq_failed t \<or> abort_requested t"
    by (auto simp: writer_take_def split: if_splits list.splits)
  with inv True assms(2) show ?thesis by (auto simp: tee_inv_def queue_bounded_def in_flight_def)
next
  case False
  then obtain m ms where q: "tq_queue t = m # ms" by (cases "tq_queue t") auto
  with False assms(3) have t': "t' = t\<lparr>tq_queue := ms, queued_bytes := queued_bytes t - length (dm_payload m), tq_thread := Writing m\<rparr>"
    by (auto simp: writer_take_def)
  have "queue_bounded t'" using bounded_tl [OF _ q] inv by (simp add: t' tee_inv_def queue_bounded_def)
  with inv q assms(2) show ?thesis by (simp add: t' tee_inv_def in_flight_def)
qed

lemma inv_put:
  assumes inv: "tee_inv M wr topics acc t" and th: "tq_thread t = Writing m"
  shows "tee_inv M wr topics acc (writer_put M m t)"
proof -
  obtain r wr1 where w: "wr_write M m (tq_writer t) = (r, wr1)" by fastforce
  show ?thesis
  proof (cases "r = Inr () \<and> sink_error_of wr1 = []")
    case True
    then have t': "writer_put M m t = t\<lparr>tq_writer := wr1, tq_thread := Waiting\<rparr>" using w by (simp add: writer_put_def)
    show ?thesis
    proof (cases "tq_failed t")
      case False
      then obtain past where p: "acc = past @ m # tq_queue t" "write_all M past wr = (Inr (), tq_writer t)"
        using inv th by (auto simp: tee_inv_def in_flight_def)
      have "write_all M (past @ [m]) wr = (Inr (), wr1)" using write_all_snoc [OF p(2)] w True by simp
      with inv p(1) True show ?thesis
        by (simp add: t' tee_inv_def queue_bounded_def in_flight_def)
    qed (use inv in \<open>simp add: t' tee_inv_def queue_bounded_def\<close>)
  next
    case False
    then obtain e where "writer_put M m t = (failLocked e t)\<lparr>tq_writer := wr1, tq_thread := Finished\<rparr>"
      using w by (cases r) (auto simp: writer_put_def)
    with inv show ?thesis by (simp add: tee_inv_def queue_bounded_def failLocked_def)
  qed
qed

lemma inv_writer: "tee_inv M wr topics acc t \<Longrightarrow> tee_inv M wr topics acc (writer_step M t)"
  by (cases "tq_thread t") (auto simp: writer_step_def inv_put split: option.split dest: inv_take)

lemma inv_abort: "tee_inv M wr topics acc t \<Longrightarrow> tee_inv M wr topics acc (requestAbort t)"
  by (auto simp: tee_inv_def queue_bounded_def requestAbort_def in_flight_def)

lemma inv_step: "tee_step M t a t' \<Longrightarrow> tee_inv M wr topics acc t \<Longrightarrow> tee_inv M wr topics (acc @ a) t'"
proof (induction rule: tee_step.induct)
  case (Refuse m t t')
  then show ?case by (auto simp: enqueue_def split: if_splits)
qed (simp_all add: inv_enqueue inv_writer inv_abort)

lemma inv_started: "tee_inv M wr topics [] (started limit topics wr)"
  by (auto simp: tee_inv_def started_def queue_bounded_def known_def in_flight_def)

lemma inv_run: "tee_run M (started limit topics wr) acc t \<Longrightarrow> tee_inv M wr topics acc t"
proof (induction "started limit topics wr" acc t rule: tee_run.induct)
  case Start
  then show ?case by (rule inv_started)
next
  case (Step a t' b t'')
  then show ?case using inv_step by blast
qed

lemma run_limit: "tee_run M (started limit topics wr) acc t \<Longrightarrow> max_queued_messages t = limit \<and> tq_joinable t"
proof (induction "started limit topics wr" acc t rule: tee_run.induct)
  case (Step a t' b t'')
  have "max_queued_messages (writer_step M t') = max_queued_messages t' \<and> tq_joinable (writer_step M t') = tq_joinable t'"
    by (auto simp: writer_step_def writer_take_def writer_put_def failLocked_def
        split: thread_state.split option.split list.split prod.split sum.split)
  with Step show ?case
    by (auto elim!: tee_stepE simp: enqueue_def requestAbort_def split: if_splits)
qed (simp add: started_def)

text \<open>
  C11: In every interleaving of the producer, the writer thread and aborts, the queue of the cache
  tee holds at most the allowed number of messages and, without its last message, less than the byte
  limit; its byte count is exact. While nothing has failed, no message is lost, repeated or
  reordered: what was accepted is what has been written, the message being written, and the queue.
\<close>

theorem tee_queue_bounded_fifo:
  assumes "tee_run M (started limit topics wr) acc t"
  shows "length (tq_queue t) \<le> limit \<and> queued_bytes t = payload_bytes (tq_queue t) \<and>
     (tq_queue t \<noteq> [] \<longrightarrow> payload_bytes (butlast (tq_queue t)) < kMaxQueuedBytes) \<and>
     (tq_failed t \<or> (\<exists>past. acc = past @ in_flight t @ tq_queue t \<and> write_all M past wr = (Inr (), tq_writer t)))"
  using inv_run [OF assms] run_limit [OF assms] by (auto simp: tee_inv_def queue_bounded_def)

section \<open>The producer is not left waiting\<close>

fun writer_steps :: "'l McapOut \<Rightarrow> nat \<Rightarrow> 'l Tee \<Rightarrow> 'l Tee" where
  "writer_steps M 0 t = t"
| "writer_steps M (Suc n) t = writer_steps M n (writer_step M t)"

lemma blocked_writer:
  assumes inv: "tee_inv M wr topics acc t" and "0 < max_queued_messages t" and "fst (enqueue m t) = None"
  shows "thread_work (writer_step M t) < thread_work t"
proof -
  have b: "tq_joinable t" "\<not> stopped t" "\<not> (length (tq_queue t) < max_queued_messages t \<and> queued_bytes t < kMaxQueuedBytes)"
    using assms(3) by (auto simp: enqueue_def split: if_splits)
  have "tq_thread t \<noteq> Finished" using inv b(2) by (auto simp: tee_inv_def stopped_def)
  moreover have "tq_queue t \<noteq> []" using inv b(3) assms(2) by (auto simp: tee_inv_def queue_bounded_def kMaxQueuedBytes_def)
  ultimately show ?thesis using writer_put_work [of M _ t] b(2)
    by (cases "tq_thread t") (auto simp: writer_step_def thread_work_def writer_take_def stopped_def neq_Nil_conv)
qed

lemma writer_step_keeps: "max_queued_messages (writer_step M t) = max_queued_messages t"
  by (auto simp: writer_step_def writer_take_def writer_put_def failLocked_def
      split: thread_state.split option.split list.split prod.split sum.split)

lemma producer_resumes:
  assumes "tee_inv M wr topics acc t" "0 < max_queued_messages t"
  shows "\<exists>n \<le> thread_work t. fst (enqueue m (writer_steps M n t)) \<noteq> None"
  using assms
proof (induction "thread_work t" arbitrary: t rule: less_induct)
  case less
  show ?case
  proof (cases "fst (enqueue m t) = None")
    case True
    note w = blocked_writer [OF less.prems True]
    from less.hyps [OF w inv_writer [OF less.prems(1)]] less.prems(2) obtain n where
      "n \<le> thread_work (writer_step M t)" "fst (enqueue m (writer_steps M n (writer_step M t))) \<noteq> None"
      by (auto simp: writer_step_keeps)
    with w show ?thesis by (intro exI [of _ "Suc n"]) auto
  qed (intro exI [of _ 0], simp)
qed

text \<open>
  C23: A producer that waits for room in the queue is not left waiting: from every reachable state
  the call returns, with room for the message or because the tee has failed, after at most two steps
  of the writer thread per queued message and two more.
\<close>

theorem tee_producer_resumes:
  assumes "tee_run M (started limit topics wr) acc t" "0 < limit"
  shows "\<exists>n \<le> 2 * length (tq_queue t) + 2. fst (enqueue m (writer_steps M n t)) \<noteq> None"
proof -
  have "thread_work t \<le> 2 * length (tq_queue t) + 2" by (simp add: thread_work_def split: thread_state.split)
  moreover obtain n where "n \<le> thread_work t" "fst (enqueue m (writer_steps M n t)) \<noteq> None"
    using producer_resumes [OF inv_run [OF assms(1)], of m] run_limit [OF assms(1)] assms(2) by auto
  ultimately show ?thesis by (intro exI [of _ n]) simp
qed

section \<open>Draining\<close>

lemma join_writer_inv:
  "tee_inv M wr topics acc t \<Longrightarrow> queue_closed t \<Longrightarrow>
   tee_inv M wr topics acc (join_writer M aborts t) \<and> tq_thread (join_writer M aborts t) = Finished"
proof (induction M aborts t rule: join_writer.induct)
  case (1 M aborts t)
  obtain b rest where b: "next_flag aborts = (b, rest)" by fastforce
  let ?t = "if b then requestAbort t else t"
  have c: "queue_closed (writer_step M ?t)" if "queue_closed t"
    using that by (auto simp: writer_step_def writer_take_def writer_put_def failLocked_def requestAbort_def
        split: thread_state.split option.split list.split prod.split sum.split)
  have "tee_inv M wr topics acc (writer_step M ?t)" using 1(2) by (simp add: inv_writer inv_abort)
  with 1 b c show ?case by (subst (1 2) join_writer.simps) auto
qed

lemma records_known:
  assumes "set topics = dom chs"
  shows "length (session_records chs before ms) = length (known topics ms)"
    and "mm_channel ` set (session_records chs before ms) = (fst \<circ> the \<circ> chs) ` dm_topic_id ` set (known topics ms)"
proof -
  show "length (session_records chs before ms) = length (known topics ms)"
    using assms by (induction ms arbitrary: before) (auto simp: known_def record_for_def split: option.split)
  show "mm_channel ` set (session_records chs before ms) = (fst \<circ> the \<circ> chs) ` dm_topic_id ` set (known topics ms)"
  proof (induction ms arbitrary: before)
    case (Cons m ms)
    show ?case
    proof (cases "chs (dm_topic_id m)")
      case None
      then have "dm_topic_id m \<notin> set topics" using assms by auto
      with Cons None show ?thesis by (simp add: known_def record_for_def)
    next
      case (Some cs)
      then have "dm_topic_id m \<in> set topics" using assms by auto
      with Cons Some show ?thesis by (cases cs) (simp add: known_def record_for_def)
    qed
  qed (simp add: known_def)
qed

lemma of_nat_u64_eq: "a < 2 ^ 64 \<Longrightarrow> b < 2 ^ 64 \<Longrightarrow> (word_of_nat a :: u64) = word_of_nat b \<longleftrightarrow> a = b"
  by (simp add: word_of_nat_eq_iff take_bit_nat_eq_self)

text \<open>
  A drain that reports success has written a prefix of the accepted messages and closed the writer
  and its sink without an error; only an abort can leave messages in the queue.
\<close>

lemma drained:
  assumes "tee_run M (started limit topics wr) acc t" and "drainAndClose M aborts t = (Inr (), t')"
  obtains past wr1 wr2 where "acc = past @ tq_queue t'" "write_all M past wr = (Inr (), wr1)" "wr_close M wr1 = (Inr (), wr2)"
    "tq_writer t' = close_sink wr2" "sink_error_of (tq_writer t') = []" "\<not> abort_requested t' \<longrightarrow> tq_queue t' = []"
    "enqueued_known_messages t' = word_of_nat (length (known topics acc))"
    "set (enqueued_known_topics t') = dm_topic_id ` set (known topics acc)" "distinct (enqueued_known_topics t')"
proof -
  let ?j = "join_writer M aborts (t\<lparr>queue_closed := True\<rparr>)"
  have "tee_inv M wr topics acc (t\<lparr>queue_closed := True\<rparr>)"
    using inv_run [OF assms(1)] by (auto simp: tee_inv_def queue_bounded_def in_flight_def)
  then have j: "tee_inv M wr topics acc ?j" "tq_thread ?j = Finished"
    using join_writer_inv [of M wr topics acc "t\<lparr>queue_closed := True\<rparr>" aborts] by auto
  obtain wr2 where c: "wr_close M (tq_writer ?j) = (Inr (), wr2)" "\<not> tq_failed ?j" "sink_error_of (close_sink wr2) = []"
      "t' = ?j\<lparr>tq_joinable := False, tq_writer := close_sink wr2, writer_open := False\<rparr>"
    using assms(2) run_limit [OF assms(1)] by (auto simp: drainAndClose_def Let_def split: if_splits prod.splits sum.splits)
  obtain past where past: "acc = past @ tq_queue ?j" "write_all M past wr = (Inr (), tq_writer ?j)"
    using j c(2) by (auto simp: tee_inv_def in_flight_def)
  have inv: "enqueued_known_messages ?j = word_of_nat (length (known topics acc))"
      "set (enqueued_known_topics ?j) = dm_topic_id ` set (known topics acc)" "distinct (enqueued_known_topics ?j)"
      "abort_requested ?j \<or> tq_queue ?j = []"
    using j c(2) by (auto simp: tee_inv_def)
  show ?thesis by (rule that [of past "tq_writer ?j" wr2]) (use past c inv in auto)
qed

text \<open>
  When a drain reports success, what the library was given are the records of a prefix of the
  accepted messages, and the number of messages that the tee expects in the file is the number of
  those records exactly when no message of the dictionary's topics is missing; then the number of
  topics it expects is the number of channels in use. Only an abort can cut the prefix short.
\<close>

theorem tee_drain_counts:
  assumes "tee_run M (started limit topics wr) acc t" "length acc < 2 ^ 64"
    and "wr_open wr" "channels_by_topic wr = chs" "set topics = dom chs" "inj_on (fst \<circ> the \<circ> chs) (dom chs)"
    and "drainAndClose M aborts t = (Inr (), t')"
  shows "\<exists>past rest calls l. acc = past @ rest \<and> (\<not> abort_requested t' \<longrightarrow> rest = []) \<and>
     lib_feed M (session_records chs [] past) (wr_lib wr) = Some (calls, l) \<and>
     (enqueued_known_messages t' = word_of_nat (length (session_records chs [] past)) \<longleftrightarrow> known topics rest = []) \<and>
     (known topics rest = [] \<longrightarrow> length (enqueued_known_topics t') = card (mm_channel ` set (session_records chs [] past)))"
proof -
  obtain past wr1 where d: "acc = past @ tq_queue t'" "write_all M past wr = (Inr (), wr1)" "\<not> abort_requested t' \<longrightarrow> tq_queue t' = []"
      "enqueued_known_messages t' = word_of_nat (length (known topics acc))"
      "set (enqueued_known_topics t') = dm_topic_id ` set (known topics acc)" "distinct (enqueued_known_topics t')"
    using drained [OF assms(1,7)] by metis
  obtain calls l where feed: "lib_feed M (session_records chs [] past) (wr_lib wr) = Some (calls, l)"
    using write_all_records [OF d(2) assms(3), of chs "[]"] assms(4) by auto
  let ?r = "tq_queue t'"
  have k: "known topics acc = known topics past @ known topics ?r" using d(1) by (simp add: known_def)
  have len: "length (known topics acc) < 2 ^ 64" using assms(2) by (simp add: known_def le_less_trans [OF length_filter_le])
  have "(word_of_nat (length (known topics acc)) :: u64) = word_of_nat (length (known topics past)) \<longleftrightarrow> known topics ?r = []"
    using of_nat_u64_eq [OF len, of "length (known topics past)"] len k by simp
  then have "enqueued_known_messages t' = word_of_nat (length (session_records chs [] past)) \<longleftrightarrow> known topics ?r = []"
    using d(4) by (simp add: records_known(1) [OF assms(5)])
  moreover have "length (enqueued_known_topics t') = card (mm_channel ` set (session_records chs [] past))" if "known topics ?r = []"
  proof -
    have "length (enqueued_known_topics t') = card (dm_topic_id ` set (known topics past))"
      using d(5,6) k that by (metis append_Nil2 distinct_card)
    moreover have "inj_on (fst \<circ> the \<circ> chs) (dm_topic_id ` set (known topics past))"
      by (rule inj_on_subset [OF assms(6)]) (use assms(5) in \<open>auto simp: known_def\<close>)
    ultimately show ?thesis by (simp only: records_known(2) [OF assms(5)] card_image)
  qed
  ultimately show ?thesis using d(1,3) feed by blast
qed

section \<open>Examples\<close>

text \<open>A writer over the sink of the cache, two messages of a known topic and one of an unknown one.\<close>

definition toy_writer :: "nat Writer" where
  "toy_writer = snd (open_over toy_lib toy_info ((new_writer 0)\<lparr>wr_ext := Some ((closed_sink False [])\<lparr>sk_is_open := True\<rparr>)\<rparr>))"

definition toy_messages :: "DecodedMessage list" where
  "toy_messages = [toy_message 7 ''a'', toy_message 8 ''x'', toy_message 7 ''b'']"

definition toy_tee :: "nat Tee" where
  "toy_tee = snd (enqueue (toy_messages ! 2) (writer_step toy_lib (snd (enqueue (toy_messages ! 1)
     (snd (enqueue (toy_messages ! 0) (started 2 [7] toy_writer)))))))"

lemma toy_run: "tee_run toy_lib (started 2 [7] toy_writer) toy_messages toy_tee"
proof -
  let ?t0 = "started 2 [7] toy_writer"
  let ?t1 = "snd (enqueue (toy_messages ! 0) ?t0)"
  let ?t2 = "snd (enqueue (toy_messages ! 1) ?t1)"
  let ?t3 = "writer_step toy_lib ?t2"
  have e: "fst (enqueue (toy_messages ! 0) ?t0) = Some True" "fst (enqueue (toy_messages ! 1) ?t1) = Some True"
      "fst (enqueue (toy_messages ! 2) ?t3) = Some True" "tq_joinable ?t2" by code_simp+
  have "tee_run toy_lib ?t0 [toy_messages ! 0] ?t1"
    using tee_run.Step [OF tee_run.Start tee_step.Accept, of "toy_messages ! 0" ?t0 ?t1] e(1) by (simp add: prod_eq_iff)
  from tee_run.Step [OF this tee_step.Accept, of "toy_messages ! 1" ?t2] e(2)
  have "tee_run toy_lib ?t0 [toy_messages ! 0, toy_messages ! 1] ?t2" by (simp add: prod_eq_iff)
  from tee_run.Step [OF this tee_step.Write [OF e(4)]]
  have "tee_run toy_lib ?t0 [toy_messages ! 0, toy_messages ! 1] ?t3" by simp
  from tee_run.Step [OF this tee_step.Accept, of "toy_messages ! 2" toy_tee] e(3)
  show ?thesis by (simp add: prod_eq_iff toy_tee_def toy_messages_def)
qed

theorem tee_queue_bounded_fifo_witness:
  "tee_run toy_lib (started 2 [7] toy_writer) toy_messages toy_tee \<and> length (tq_queue toy_tee) \<le> 2 \<and>
   queued_bytes toy_tee = payload_bytes (tq_queue toy_tee)"
  using tee_queue_bounded_fifo [OF toy_run] toy_run by simp

theorem tee_producer_resumes_witness:
  "fst (enqueue (toy_message 7 ''c'') toy_tee) = None \<and>
   (\<exists>n \<le> 2 * length (tq_queue toy_tee) + 2. fst (enqueue (toy_message 7 ''c'') (writer_steps toy_lib n toy_tee)) \<noteq> None)"
proof -
  have "fst (enqueue (toy_message 7 ''c'') toy_tee) = None" by code_simp
  with tee_producer_resumes [OF toy_run, of "toy_message 7 ''c''"] show ?thesis by simp
qed

theorem tee_drain_counts_witness:
  "\<exists>t'. drainAndClose toy_lib [] toy_tee = (Inr (), t') \<and> enqueued_known_messages t' = 2 \<and>
     length (enqueued_known_topics t') = card (mm_channel ` set (session_records (channels_by_topic toy_writer) [] toy_messages))"
proof -
  define t' where "t' = snd (drainAndClose toy_lib [] toy_tee)"
  have "fst (drainAndClose toy_lib [] toy_tee) = Inr ()" by code_simp
  then have d: "drainAndClose toy_lib [] toy_tee = (Inr (), t')" by (simp add: t'_def prod_eq_iff)
  have a: "\<not> abort_requested t'" "enqueued_known_messages t' = 2" unfolding t'_def by code_simp+
  have c: "channels_by_topic toy_writer = [7 \<mapsto> (0, 0)]"
    by (simp add: toy_writer_def open_over_def new_writer_def toy_lib_def toy_info_def add_schemas_def add_channels_def)
  have w: "wr_open toy_writer" "length toy_messages < 2 ^ 64" by (code_simp, simp add: toy_messages_def)
  have "set [7] = dom (channels_by_topic toy_writer)" "inj_on (fst \<circ> the \<circ> channels_by_topic toy_writer) (dom (channels_by_topic toy_writer))"
    by (simp_all add: c)
  from tee_drain_counts [OF toy_run w(2,1) refl this d] a d show ?thesis by (auto simp: known_def)
qed

end
