(* ===== verification/Cache_Tee.thy ===== *)
theory Cache_Tee
  imports Import_Runtime Tee_Queue Session_Cache
begin

text \<open>
  A whole materialisation: \<open>CacheTee::openWriter\<close> (\<open>import_runtime.cpp\<close>), the sink it creates
  (\<open>ExclusiveFileSink\<close>), and the terminal \<open>finishCacheTee\<close> of a pull (\<open>fetch_worker.cpp\<close>), over the
  queue of the tee and its life cycle. What the stream holds reaches the partial file when the sink
  is closed.
\<close>

section \<open>Opening the writer\<close>

definition quote :: "string \<Rightarrow> string" where
  "quote s = [CHR 0x27] @ s @ [CHR 0x27]"

definition remove_file :: "Faults \<Rightarrow> string \<Rightarrow> World \<Rightarrow> World" where
  "remove_file F name w = (if f_remove F name then w else unlink name w)"

definition sink_open :: "Faults \<Rightarrow> bool \<Rightarrow> bool list \<Rightarrow> string \<Rightarrow> string \<Rightarrow> Sink option \<Rightarrow> World \<Rightarrow> (string + Sink) \<times> World" where
  "sink_open F fdopen_ok disk root name sink w =
     (if sink \<noteq> None then (Inl ''exclusive sink is already open'', w)
      else case if w_dir w = None then Some ''No such file or directory''
                else if node_of w name \<noteq> None then Some ''File exists'' else f_open F name of
        Some e \<Rightarrow> (Inl (''could not exclusively create '' @ quote (path_join root name) @ '': '' @ e), w)
      | None \<Rightarrow>
          let w1 = put_node name \<lparr>node_bytes = [], node_mtime = w_now w, node_mode = 384\<rparr> w in
          if \<not> fdopen_ok then (Inl (''could not open stream over '' @ quote (path_join root name)), remove_file F name w1)
          else (Inr ((closed_sink False disk)\<lparr>sk_is_open := True\<rparr>), w1))"

text \<open>The budget and the free space for a session of the estimated size; 0 is no estimate.\<close>

definition reserve_space :: "Faults \<Rightarrow> string \<Rightarrow> Config \<Rightarrow> script \<Rightarrow> u64 \<Rightarrow> World \<Rightarrow> (string + unit) \<times> World" where
  "reserve_space F root cfg script estimated_bytes w =
     (let est = unat estimated_bytes in
      if est = 0 then (Inr (), w)
      else if max_total_bytes cfg < est then
        (Inl (''session estimate ~'' @ nat_str est @ '' bytes exceeds the whole cache budget ('' @
              nat_str (max_total_bytes cfg) @ '' bytes)''), w)
      else
        let w1 = cleanup F root (cfg\<lparr>max_total_bytes := max_total_bytes cfg - est\<rparr>) script w;
            reserve = min_free_bytes cfg;
            needed = (if 2 ^ 64 - 1 - reserve < est then 2 ^ 64 - 1 else est + reserve) in
        case f_space F w1 of
          None \<Rightarrow> (Inr (), w1)
        | Some available \<Rightarrow>
            if available < needed then
              (Inl (''insufficient free space for the session cache: need ~'' @ nat_str est @ '' bytes plus the '' @
                    nat_str reserve @ ''-byte reserve, '' @ nat_str available @ '' available at '' @ root), w1)
            else (Inr (), w1))"

definition close_writer :: "'l McapOut \<Rightarrow> 'l Writer \<Rightarrow> 'l Writer" where
  "close_writer M wr = close_sink (snd (wr_close M wr))"

text \<open>\<open>fdopen_ok\<close> and \<open>thread_ok\<close> tell whether the stream and the thread could be made.\<close>

definition openWriter ::
  "'l McapOut \<Rightarrow> Faults \<Rightarrow> bool \<Rightarrow> bool \<Rightarrow> bool list \<Rightarrow> string \<Rightarrow> Config \<Rightarrow> script \<Rightarrow> SessionInfo \<Rightarrow> string \<Rightarrow> u64 \<Rightarrow>
   CacheTee \<Rightarrow> 'l Tee \<Rightarrow> World \<Rightarrow> (string + unit) \<times> 'l Tee \<times> World" where
  "openWriter M F fdopen_ok thread_ok disk root cfg script info json estimated_bytes tee q w =
     (let fail = (\<lambda>message q w. (Inl message, q, remove_file F (partial_path tee) w)) in
      if ct_lock tee = None then fail ''cache tee not begun'' q w
      else case reserve_space F root cfg script estimated_bytes w of
        (Inl e, w1) \<Rightarrow> fail e q w1
      | (Inr _, w1) \<Rightarrow>
          (case sink_open F fdopen_ok disk root (partial_path tee) (wr_ext (tq_writer q)) (remove_file F (partial_path tee) w1) of
             (Inl e, w2) \<Rightarrow> fail e q w2
           | (Inr sink, w2) \<Rightarrow>
               (case open_over M info ((tq_writer q)\<lparr>wr_ext := Some sink\<rparr>) of
                  (Inl e, wr) \<Rightarrow> fail e (q\<lparr>tq_writer := close_sink wr\<rparr>) w2
                | (Inr _, wr) \<Rightarrow>
                    (case writeMetadata M kProvenanceName json wr of
                       (Inl e, wr1) \<Rightarrow> fail e (q\<lparr>tq_writer := close_writer M wr1, writer_open := False\<rparr>) w2
                     | (Inr _, wr1) \<Rightarrow>
                         let q1 = q\<lparr>tq_writer := wr1, writer_open := True, known_topic_ids := map st_topic_id (inf_topics info)\<rparr> in
                         if \<not> thread_ok then
                           fail ''could not start the cache writer thread (resource exhaustion)''
                             (q1\<lparr>tq_writer := close_writer M wr1, writer_open := False\<rparr>) w2
                         else (Inr (), q1\<lparr>tq_joinable := True, tq_thread := Waiting\<rparr>, w2)))))"

text \<open>The members of a new tee.\<close>

definition new_queue :: "'l \<Rightarrow> 'l Tee" where
  "new_queue l = (started kMaxQueuedMessages [] (new_writer l))\<lparr>tq_joinable := False, tq_thread := Finished, writer_open := False\<rparr>"

section \<open>The terminal of a pull\<close>

text \<open>The closed stream is what the partial file holds.\<close>

definition flush_partial :: "string \<Rightarrow> 'l Writer \<Rightarrow> World \<Rightarrow> World" where
  "flush_partial name wr w =
     (case (wr_ext wr, node_of w name) of
        (Some s, Some node) \<Rightarrow> put_node name (node\<lparr>node_bytes := sk_bytes s, node_mtime := w_now w\<rparr>) w
      | _ \<Rightarrow> w)"

datatype McapSaveStatus = SaveComplete | SavePartial | SaveFailed | SaveSkipped

record McapSaveResult =
  save_status :: McapSaveStatus
  save_path :: string
  save_error :: string

text \<open>
  The reserved names of an export, the files of the destination, and whether copying, renaming and
  removing fail there.
\<close>

record Export =
  ex_final :: string
  ex_partial :: string
  ex_files :: "(string \<times> string) list"
  ex_copy :: "string option"
  ex_rename :: "string option"
  ex_remove :: bool

definition discard_partial :: "Export \<Rightarrow> Export" where
  "discard_partial ex = (if ex_remove ex then ex else ex\<lparr>ex_files := AList.delete (ex_partial ex) (ex_files ex)\<rparr>)"

definition fail_export :: "string \<Rightarrow> Export \<Rightarrow> McapSaveResult \<times> Export" where
  "fail_export e ex = (\<lparr>save_status = SaveFailed, save_path = [], save_error = e\<rparr>, discard_partial ex)"

definition copy_to_export_partial :: "World \<Rightarrow> string \<Rightarrow> Export \<Rightarrow> (string + unit) \<times> Export" where
  "copy_to_export_partial w source ex =
     (case (node_of w source, ex_copy ex) of
        (Some node, None) \<Rightarrow> (Inr (), ex\<lparr>ex_files := AList.update (ex_partial ex) (node_bytes node) (ex_files ex)\<rparr>)
      | (None, None) \<Rightarrow> (Inl (''could not copy the cached session to '' @ quote (ex_partial ex) @ '': No such file or directory''), ex)
      | (_, Some e) \<Rightarrow> (Inl (''could not copy the cached session to '' @ quote (ex_partial ex) @ '': '' @ e), ex))"

definition export_by_copy :: "World \<Rightarrow> string \<Rightarrow> Export \<Rightarrow> McapSaveResult \<times> Export" where
  "export_by_copy w source ex =
     (case copy_to_export_partial w source ex of
        (Inl e, ex1) \<Rightarrow> fail_export e ex1
      | (Inr _, ex1) \<Rightarrow>
          (case ex_rename ex1 of
             Some e \<Rightarrow> fail_export (''could not finalize MCAP '' @ quote (ex_final ex1) @ '': '' @ e) ex1
           | None \<Rightarrow>
               (\<lparr>save_status = SaveComplete, save_path = ex_final ex1, save_error = []\<rparr>,
                ex1\<lparr>ex_files := (case map_of (ex_files ex1) (ex_partial ex1) of
                     None \<Rightarrow> ex_files ex1
                   | Some bytes \<Rightarrow> AList.update (ex_final ex1) bytes (AList.delete (ex_partial ex1) (ex_files ex1)))\<rparr>)))"

definition keep_partial :: "World \<Rightarrow> string \<Rightarrow> string \<Rightarrow> Export \<Rightarrow> McapSaveResult \<times> Export" where
  "keep_partial w source reason ex =
     (case copy_to_export_partial w source ex of
        (Inl e, ex1) \<Rightarrow> fail_export e ex1
      | (Inr _, ex1) \<Rightarrow> (\<lparr>save_status = SavePartial, save_path = ex_partial ex1, save_error = reason\<rparr>, ex1))"

text \<open>The part of \<open>abortAndCleanup\<close> that stops the queue and closes the writer.\<close>

definition abort_queue :: "'l McapOut \<Rightarrow> bool list \<Rightarrow> bool \<Rightarrow> 'l Tee \<Rightarrow> 'l Tee" where
  "abort_queue M aborts finalized q =
     (let q1 = q\<lparr>queue_closed := True\<rparr>;
          q2 = (if finalized then q1 else failLocked ''cache materialization aborted'' q1);
          q3 = (if tq_joinable q2 then (join_writer M aborts q2)\<lparr>tq_joinable := False\<rparr> else q2);
          q4 = (if writer_open q3 then q3\<lparr>tq_writer := snd (wr_close M (tq_writer q3)), writer_open := False\<rparr> else q3) in
      q4\<lparr>tq_writer := close_sink (tq_writer q4)\<rparr>)"

definition sink_is_open :: "'l Tee \<Rightarrow> bool" where
  "sink_is_open q = (case wr_ext (tq_writer q) of Some s \<Rightarrow> sk_is_open s | None \<Rightarrow> False)"

definition tee_cleanup ::
  "'l McapOut \<Rightarrow> McapLib \<Rightarrow> Faults \<Rightarrow> string \<Rightarrow> bool list \<Rightarrow> (Faults \<times> act list) list \<Rightarrow> CacheTee \<times> 'l Tee \<Rightarrow> Runtime \<times> World \<Rightarrow>
   (CacheTee \<times> 'l Tee) \<times> Runtime \<times> World" where
  "tee_cleanup Mo M F root aborts attempts tq rw =
     (case tq of (tee, q) \<Rightarrow> case rw of (rt, w) \<Rightarrow>
        if cleaned_up tee then (tq, rw)
        else
          let q' = abort_queue Mo aborts (ct_finalized tee) q;
              w' = (if sink_is_open q then flush_partial (partial_path tee) (tq_writer q') w else w) in
          case abortAndCleanup M F root attempts tee (rt, w') of (tee', rw') \<Rightarrow> ((tee', q'), rw'))"

definition expected_content :: "'l Tee \<Rightarrow> ExpectedContent" where
  "expected_content q = \<lparr>message_count = enqueued_known_messages q, channel_count = word_of_nat (length (enqueued_known_topics q))\<rparr>"

definition aborted_reason :: "SessionStats \<Rightarrow> bool \<Rightarrow> string" where
  "aborted_reason stats cancelled_after_download =
     (if stats_error stats \<noteq> [] then stats_error stats
      else if eos stats = EosCancelled \<or> cancelled_after_download then ''download cancelled''
      else ''download ended before completion'')"

definition final_name :: "CacheTee \<Rightarrow> string" where
  "final_name tee = (case identityHex (ct_identity tee) of Some hex \<Rightarrow> hex @ ''.mcap'' | None \<Rightarrow> [])"

record TeeTerminalOutcome =
  to_outcome :: TeeOutcome
  to_error :: string

definition finishCacheTee ::
  "'l McapOut \<Rightarrow> McapLib \<Rightarrow> Faults \<Rightarrow> string \<Rightarrow> bool list \<Rightarrow> act list \<Rightarrow> act list \<Rightarrow> (Faults \<times> act list) list \<Rightarrow>
   SessionStats \<Rightarrow> bool \<Rightarrow> Export option \<Rightarrow> CacheTee \<times> 'l Tee \<Rightarrow> Runtime \<times> World \<Rightarrow>
   TeeTerminalOutcome \<times> (McapSaveResult \<times> Export) option \<times> (CacheTee \<times> 'l Tee) \<times> Runtime \<times> World" where
  "finishCacheTee Mo M F root aborts acts acts2 attempts stats cancelled_after_download export tq rw =
     (case tq of (tee, q) \<Rightarrow> case rw of (rt, w) \<Rightarrow>
        case drainAndClose Mo aborts q of (closed, q1) \<Rightarrow>
        let w1 = flush_partial (partial_path tee) (tq_writer q1) w;
            complete = (eos stats = EosComplete \<and> \<not> cancelled_after_download) in
        case (case closed of
            Inl close_error \<Rightarrow> (TeeFailed, close_error, map_option (fail_export close_error) export, tee, rt, w1)
          | Inr _ \<Rightarrow>
              if complete then
                (case tee_finalize M F root acts acts2 (expected_content q1) tee (rt, w1) of
                   (Inr _, tee1, rt1, w2) \<Rightarrow>
                     (TeeFinalized, [], map_option (export_by_copy w2 (final_name tee)) export, tee1, rt1, w2)
                 | (Inl e, tee1, rt1, w2) \<Rightarrow> (TeeFailed, e, map_option (fail_export e) export, tee1, rt1, w2))
              else
                (let reason = aborted_reason stats cancelled_after_download in
                 (TeeAborted, reason, map_option (keep_partial w1 (partial_path tee) reason) export, tee, rt, w1))) of
          (outcome, e, saved, tee1, rt1, w2) \<Rightarrow>
            (\<lparr>to_outcome = outcome, to_error = e\<rparr>, saved,
             tee_cleanup Mo M F root aborts attempts (tee1, q1) (rt1, w2)))"

text \<open>
  \<open>teeEnqueueFailed\<close> gives the error once the tee is dropped; it is \<^const>\<open>None\<close> itself while
  \<open>enqueue\<close> waits for room.
\<close>

definition teeEnqueueFailed ::
  "'l McapOut \<Rightarrow> McapLib \<Rightarrow> Faults \<Rightarrow> string \<Rightarrow> bool list \<Rightarrow> (Faults \<times> act list) list \<Rightarrow> DecodedMessage \<Rightarrow>
   (CacheTee \<times> 'l Tee) option \<Rightarrow> Runtime \<times> World \<Rightarrow>
   (string option \<times> (CacheTee \<times> 'l Tee) option \<times> Runtime \<times> World) option" where
  "teeEnqueueFailed Mo M F root aborts attempts message tq rw =
     (case tq of
        None \<Rightarrow> Some (None, None, rw)
      | Some (tee, q) \<Rightarrow>
          (case enqueue message q of
             (None, _) \<Rightarrow> None
           | (Some accepted, q1) \<Rightarrow>
               if accepted \<or> abort_requested q1 \<and> \<not> tq_failed q1 then Some (None, Some (tee, q1), rw)
               else Some (Some (fail_error q1), None, snd (tee_cleanup Mo M F root aborts attempts (tee, q1) rw))))"

section \<open>What is published\<close>

text \<open>
  All that the library writes for a session: the magic, the provenance record, the records, the
  summary and footer; \<^const>\<open>None\<close> when the library reports an error.
\<close>

definition session_calls :: "'l McapOut \<Rightarrow> SessionInfo \<Rightarrow> string \<Rightarrow> DecodedMessage list \<Rightarrow> sink_call list option" where
  "session_calls Mo info json ms =
     (case dictionary Mo info of (chs, l) \<Rightarrow>
        case mo_metadata Mo kProvenanceName [(''json'', json)] l of
          (Some e, _, _) \<Rightarrow> None
        | (None, calls, l1) \<Rightarrow>
            map_option (\<lambda>(more, l2). fst (mo_open Mo) @ calls @ more @ fst (mo_close Mo l2))
              (lib_feed Mo (session_records chs [] ms) l1))"

definition session_file :: "'l McapOut \<Rightarrow> SessionInfo \<Rightarrow> string \<Rightarrow> DecodedMessage list \<Rightarrow> string option" where
  "session_file Mo info json ms = map_option written (session_calls Mo info json ms)"

text \<open>The library closes its sink last, and not before its own close.\<close>

definition ends_last :: "'l McapOut \<Rightarrow> bool" where
  "ends_last Mo \<longleftrightarrow> SinkEnd \<notin> set (fst (mo_open Mo)) \<and>
     (\<forall>n entries l. SinkEnd \<notin> set (fst (snd (mo_metadata Mo n entries l)))) \<and>
     (\<forall>r l. SinkEnd \<notin> set (fst (snd (mo_write Mo r l)))) \<and> (\<forall>l. SinkEnd \<notin> set (butlast (fst (mo_close Mo l))))"

text \<open>The Statistics that the reader finds in a file count the messages that the writer was given.\<close>

definition reader_agrees :: "McapLib \<Rightarrow> 'l McapOut \<Rightarrow> bool" where
  "reader_agrees M Mo \<longleftrightarrow>
     (\<forall>info json ms bytes summary stats. session_file Mo info json ms = Some bytes \<and> mcap_summary M bytes = Inr summary \<and>
        ms_statistics summary = Some stats \<longrightarrow> fst stats = word_of_nat (length (known (map st_topic_id (inf_topics info)) ms)))"

lemma sink_step_open:
  "sk_is_open s \<Longrightarrow> sk_error s = [] \<Longrightarrow> sk_error (sink_step c s) = [] \<Longrightarrow>
   sk_bytes (sink_step c s) = sk_bytes s @ written [c] \<and> (c \<noteq> SinkEnd \<longrightarrow> sk_is_open (sink_step c s))"
  by (cases c) (auto simp: handleWrite_def sink_flush_def closeStream_def latch_def next_ok_def Let_def split: list.splits if_splits)

lemma sink_run_open:
  assumes "sk_is_open s" "SinkEnd \<notin> set (butlast calls)" "sk_error (sink_run calls s) = []" "sk_error s = []"
  shows "sk_bytes (sink_run calls s) = sk_bytes s @ written calls"
  using assms
proof (induction calls arbitrary: s)
  case (Cons c calls)
  have r: "sink_run (c # calls) s = sink_run calls (sink_step c s)" by (simp add: sink_run_def)
  have e: "sk_error (sink_step c s) = []"
  proof (rule ccontr)
    assume a: "sk_error (sink_step c s) \<noteq> []"
    have "sk_error (sink_run xs t) = sk_error t" if "sk_error t \<noteq> []" for xs t
      using that sink_error_sticky by (induction xs arbitrary: t) (auto simp: sink_run_def)
    from this [OF a] a Cons.prems(3) r show False by simp
  qed
  note st = sink_step_open [OF Cons.prems(1,4) e]
  show ?case
  proof (cases "calls = []")
    case False
    then have "c \<noteq> SinkEnd" "SinkEnd \<notin> set (butlast calls)" using Cons.prems(2) by auto
    with Cons.IH [of "sink_step c s"] st e Cons.prems(3) r show ?thesis
      using written_append [of "[c]" calls] by simp
  qed (use st r in simp)
qed simp

lemma openWriter_opened:
  assumes "openWriter Mo F fd_ok th_ok disk root cfg script info json est tee (new_queue l) w = (Inr (), q, w')"
  obtains wr calls l0 where "q = started kMaxQueuedMessages (map st_topic_id (inf_topics info)) wr" "wr_open wr"
    "dictionary Mo info = (channels_by_topic wr, l0)"
    "mo_metadata Mo kProvenanceName [(''json'', json)] l0 = (None, calls, wr_lib wr)"
    "wr_ext wr = Some (sink_run (fst (mo_open Mo) @ calls) ((closed_sink False disk)\<lparr>sk_is_open := True\<rparr>))"
proof -
  let ?sink = "(closed_sink False disk)\<lparr>sk_is_open := True\<rparr>"
  let ?w0 = "(new_writer l)\<lparr>wr_ext := Some ?sink\<rparr>"
  have nq: "tq_writer (new_queue l) = new_writer l" by (simp add: new_queue_def started_def)
  have snk: "sink = ?sink" if "sink_open F fd_ok disk root n None v = (Inr sink, v')" for sink n v v'
    using that by (auto simp: sink_open_def Let_def split: option.splits if_splits)
  obtain wr0 wr where o: "open_over Mo info ?w0 = (Inr (), wr0)" "writeMetadata Mo kProvenanceName json wr0 = (Inr (), wr)"
      "q = (new_queue l)\<lparr>tq_writer := wr, writer_open := True, known_topic_ids := map st_topic_id (inf_topics info),
         tq_joinable := True, tq_thread := Waiting\<rparr>"
    using assms by (auto simp: openWriter_def Let_def nq new_writer_def dest!: snk split: if_splits prod.splits sum.splits)
  have n: "\<not> wr_open ?w0" "channels_by_topic ?w0 = Map.empty" by (simp_all add: new_writer_def)
  note d = open_over_dictionary [OF n o(1)]
  obtain status calls l1 where m: "mo_metadata Mo kProvenanceName [(''json'', json)] (wr_lib wr0) = (status, calls, l1)" by (metis prod_cases3)
  have w: "status = None" "wr = (put_calls calls wr0)\<lparr>wr_lib := l1\<rparr>"
    using o(2) m d by (auto simp: writeMetadata_def Let_def split: if_splits option.splits)
  show ?thesis
    by (rule that [of wr "wr_lib wr0" calls]) (use o(3) d m w in \<open>simp_all add: new_queue_def started_def sink_run_append\<close>)
qed

lemma dictionary_dom: "dom (fst (dictionary Mo info)) = st_topic_id ` set (inf_topics info)"
  by (simp add: dictionary_def add_channels_dom split: prod.split)

lemma feed_no_end: "ends_last Mo \<Longrightarrow> lib_feed Mo rs l = Some (calls, l') \<Longrightarrow> SinkEnd \<notin> set calls"
proof (induction rs arbitrary: l calls)
  case (Cons r rs)
  obtain status c l1 where w: "mo_write Mo r l = (status, c, l1)" by (metis prod_cases3)
  then have "SinkEnd \<notin> set c" using Cons.prems(1) unfolding ends_last_def by (metis fst_conv snd_conv)
  with w Cons show ?case by (auto split: option.splits)
qed simp

lemma records_append:
  "session_records chs before (ms @ ns) = session_records chs before ms @ session_records chs (before @ ms) ns"
  by (induction ms arbitrary: before) auto

lemma records_unknown: "set ts = dom chs \<Longrightarrow> known ts ms = [] \<Longrightarrow> session_records chs before ms = []"
  using records_known(1) [of ts chs before ms] by simp

text \<open>A tee that was drained without an error has put the file of a prefix of the session on the disk.\<close>

lemma drained_file:
  assumes "openWriter Mo F fd_ok th_ok disk root cfg script info json est tee (new_queue l) w = (Inr (), q, w')"
    and "tee_run Mo q acc q1" and "drainAndClose Mo aborts q1 = (Inr (), q2)" and "ends_last Mo"
  obtains past rest s where "acc = past @ rest" "wr_ext (tq_writer q2) = Some s" "\<not> sk_is_open s" "session_file Mo info json past = Some (sk_bytes s)"
    "enqueued_known_messages q2 = word_of_nat (length (known (map st_topic_id (inf_topics info)) acc))"
    "known (map st_topic_id (inf_topics info)) rest = [] \<longrightarrow> session_file Mo info json acc = session_file Mo info json past"
proof -
  let ?topics = "map st_topic_id (inf_topics info)" and ?s0 = "(closed_sink False disk)\<lparr>sk_is_open := True\<rparr>"
  obtain wr mc l0 where o: "q = started kMaxQueuedMessages ?topics wr" "wr_open wr" "dictionary Mo info = (channels_by_topic wr, l0)"
      "mo_metadata Mo kProvenanceName [(''json'', json)] l0 = (None, mc, wr_lib wr)"
      "wr_ext wr = Some (sink_run (fst (mo_open Mo) @ mc) ?s0)"
    using openWriter_opened [OF assms(1)] by metis
  let ?chs = "channels_by_topic wr"
  obtain past wr1 wr2 where d: "acc = past @ tq_queue q2" "write_all Mo past wr = (Inr (), wr1)" "wr_close Mo wr1 = (Inr (), wr2)"
      "tq_writer q2 = close_sink wr2" "sink_error_of (tq_writer q2) = []"
      "enqueued_known_messages q2 = word_of_nat (length (known ?topics acc))"
    using drained [OF assms(2) [unfolded o(1)] assms(3)] by metis
  obtain calls l1 where r: "lib_feed Mo (session_records ?chs [] past) (wr_lib wr) = Some (calls, l1)" "wr_lib wr1 = l1" "wr_open wr1"
      "wr_ext wr1 = map_option (sink_run calls) (wr_ext wr)"
    using write_all_records [OF d(2) o(2), of ?chs "[]"] by auto
  have e2: "wr_ext wr2 = map_option (sink_run (fst (mo_close Mo l1))) (wr_ext wr1)"
    using d(3) r(2,3) by (auto simp: wr_close_def Let_def split: prod.splits if_splits)
  let ?all = "fst (mo_open Mo) @ mc @ calls @ fst (mo_close Mo l1)"
  have s: "wr_ext (tq_writer q2) = Some (closeStream (sink_run ?all ?s0))"
    using d(4) e2 r(4) o(5) by (simp add: close_sink_def sink_run_append)
  have err: "sk_error (closeStream (sink_run ?all ?s0)) = []" using d(5) s by (simp add: sink_error_of_def)
  then have "sk_error (sink_run ?all ?s0) = []" using sink_error_sticky [of _ SinkEnd] by force
  moreover have "SinkEnd \<notin> set (butlast ?all)"
  proof -
    have "SinkEnd \<notin> set (fst (mo_open Mo) @ mc @ calls)"
      using assms(4) feed_no_end [OF assms(4) r(1)] o(4) unfolding ends_last_def by (metis fst_conv snd_conv Un_iff set_append)
    moreover have "SinkEnd \<notin> set (butlast (fst (mo_close Mo l1)))" using assms(4) by (simp add: ends_last_def)
    ultimately show ?thesis by (auto simp: butlast_append dest: in_set_butlastD split: if_splits)
  qed
  ultimately have "sk_bytes (sink_run ?all ?s0) = written ?all"
    using sink_run_open [of ?s0 ?all] by (simp add: closed_sink_def)
  then have b: "sk_bytes (closeStream (sink_run ?all ?s0)) = written ?all"
    by (simp add: closeStream_def next_ok_def latch_def split: list.split)
  have dom: "set ?topics = dom ?chs"
    using dictionary_dom [of Mo info] o(3) by simp
  have "session_records ?chs [] acc = session_records ?chs [] past" if "known ?topics (tq_queue q2) = []"
    using records_unknown [OF dom that] d(1) by (simp add: records_append)
  then have "known ?topics (tq_queue q2) = [] \<longrightarrow> session_file Mo info json acc = session_file Mo info json past"
    by (simp add: session_file_def session_calls_def o(3,4))
  moreover have "session_file Mo info json past = Some (written ?all)"
    using r(1) o(3,4) by (simp add: session_file_def session_calls_def)
  moreover have "\<not> sk_is_open (closeStream (sink_run ?all ?s0))" by (simp add: closeStream_def split: prod.split)
  ultimately show ?thesis using that [OF d(1) s] b d(6) by simp
qed

lemma share_files: "node_of (snd (toSharedLease F (turn mine []) lock w)) = node_of w"
proof -
  obtain r w' where e: "toSharedLease F (turn mine []) lock w = (r, w')" by fastforce
  have "node_of w' = node_of w" using e by (cases rule: share_cases) (auto simp: turn_def release_handle_def)
  with e show ?thesis by simp
qed

lemma lookup_files: "node_of (snd (lookup_file M F root identity w)) (hex @ ''.mcap'') = node_of w (hex @ ''.mcap'')"
  by (simp add: lookup_file_def Let_def split: option.split sum.split)

lemma adopt_files: "w_files (snd (adoptLeaseForLifetime identity h n (rt, w))) = w_files w"
  by (simp add: adoptLeaseForLifetime_def insertLeaseLocked_def release_handle_def split: option.split)

lemma tee_finalize_published:
  assumes "tee_finalize M F root [] [] expected tee (rt, w) = (Inr (), tee', rt', w')" "ct_lock tee = Some lock"
  obtains w1 where "finalize_file M F root lock (Some expected) w = (Inr (), w1)" "ct_finalized tee'" "ct_lock tee' = None"
    "cleaned_up tee' = cleaned_up tee" "\<And>hex. node_of w' (hex @ ''.mcap'') = node_of w1 (hex @ ''.mcap'')"
proof -
  define mine where "mine = (case ml_lock lock of Some h \<Rightarrow> [h] | None \<Rightarrow> [])"
  obtain r1 w1 where f: "finalize_file M F root lock (Some expected) w = (r1, w1)" by fastforce
  obtain r2 w2 where s: "toSharedLease F (turn mine []) lock w1 = (r2, w2)" by fastforce
  from assms f s obtain h where r: "r1 = Inr ()" "r2 = Inr h" by (cases r1; cases r2) (auto simp: tee_finalize_def mine_def Let_def)
  obtain p w3 where u: "lookup_file M F root (ct_identity tee) w2 = (p, w3)" by fastforce
  have t: "tee' = tee\<lparr>ct_lock := None, lease_drop := no_drop, ct_finalized := True\<rparr>"
      "(rt', w') = adoptLeaseForLifetime (ct_identity tee) h (if had_lease (lease_drop tee) then drop_refs (lease_drop tee) else 1) (rt, w3)"
    using assms f s r u by (auto simp: tee_finalize_def mine_def turn_def Let_def split: option.splits)
  then have "w_files w' = w_files w3" using adopt_files by (metis snd_conv)
  moreover have "node_of w3 (hex @ ''.mcap'') = node_of w2 (hex @ ''.mcap'')" for hex using lookup_files u by (metis snd_conv)
  moreover have "node_of w2 = node_of w1" using share_files s by (metis snd_conv)
  ultimately show ?thesis using that f r(1) t(1) by simp
qed

lemma cleanup_finalized:
  assumes "ct_finalized tee" "ct_lock tee = None" "\<not> sink_is_open q"
  shows "snd (snd (tee_cleanup Mo M F root aborts attempts (tee, q) (rt, w))) = w"
  using assms by (simp add: tee_cleanup_def abortAndCleanup_def Let_def)

lemma export_copies:
  assumes "export_by_copy w source ex = (res, ex')" "node_of w source = Some node" "save_status res = SaveComplete"
  shows "map_of (ex_files ex') (save_path res) = Some (node_bytes node)"
  using assms by (auto simp: export_by_copy_def copy_to_export_partial_def fail_export_def update_conv' split: option.splits)


section \<open>An example\<close>

text \<open>A library that writes one byte for a message, and a reader that counts them.\<close>

definition count_lib :: "nat McapOut" where
  "count_lib = \<lparr>mo_open = ([SinkWrite (CHR 0x0C # replicate 8 CHR 0x00)], 0), mo_schema = \<lambda>_ n. (1, n),
     mo_channel = \<lambda>_ n. (word_of_nat n, n + 1), mo_write = \<lambda>r n. (None, [SinkWrite ''m''], n), mo_metadata = \<lambda>_ _ n. (None, [], n),
     mo_close = \<lambda>n. ([SinkWrite (CHR 0x02 # replicate 36 CHR 0x00), SinkEnd], n)\<rparr>"

definition count_reader :: McapLib where
  "count_reader = demo_lib\<lparr>mcap_summary := \<lambda>bytes. Inr \<lparr>ms_statistics = Some (word_of_nat (count_list bytes CHR ''m''), 1),
     ms_metadata_indexes = [(kProvenanceName, \<lparr>mi_offset = 0, mi_length = 40\<rparr>)]\<rparr>\<rparr>"

lemma count_feed: "lib_feed count_lib rs n = Some (replicate (length rs) (SinkWrite ''m''), n)"
  by (induction rs) (simp_all add: count_lib_def)

lemma written_replicate: "written (replicate n (SinkWrite ''m'') @ cs) = replicate n CHR ''m'' @ written cs"
  by (induction n) simp_all

lemma count_ends_last: "ends_last count_lib"
  by (simp add: ends_last_def count_lib_def)

lemma count_file:
  "session_file count_lib info json ms =
     Some (CHR 0x0C # replicate 8 CHR 0x00 @ replicate (length (known (map st_topic_id (inf_topics info)) ms)) CHR ''m'' @
       CHR 0x02 # replicate 36 CHR 0x00)"
proof -
  obtain chs l where d: "dictionary count_lib info = (chs, l)" by fastforce
  have "set (map st_topic_id (inf_topics info)) = dom chs" using dictionary_dom [of count_lib info] d by simp
  note k = records_known(1) [OF this, of "[]" ms]
  have "fst (mo_open count_lib) = [SinkWrite (CHR 0x0C # replicate 8 CHR 0x00)]" "mo_metadata count_lib x y l = (None, [], l)"
    "fst (mo_close count_lib l) = [SinkWrite (CHR 0x02 # replicate 36 CHR 0x00), SinkEnd]" for x y by (simp_all add: count_lib_def)
  then show ?thesis by (simp add: session_file_def session_calls_def d count_feed k written_replicate del: replicate.simps)
qed

lemma count_agrees: "reader_agrees count_reader count_lib"
proof -
  have r: "count_list (replicate n c) CHR ''m'' = (if c = CHR ''m'' then n else 0)" for n c by (induction n) auto
  show ?thesis unfolding reader_agrees_def count_file by (auto simp: count_reader_def r simp del: replicate.simps)
qed

definition demo_tee :: CacheTee where
  "demo_tee = \<lparr>ct_identity = demo_identity, ct_ticket = True, ct_lock = Some demo_lock, lease_drop = no_drop,
     partial_path = ml_partial demo_lock, begin_refused_in_use = False, begin_lock_contended = False, ct_finalized = False, cleaned_up = False\<rparr>"

definition demo_open :: "(string + unit) \<times> nat Tee \<times> World" where
  "demo_open = openWriter count_lib no_faults True True [] ''/c'' demo_config [] toy_info ''abc'' 0 demo_tee (new_queue 0) demo_partial_world"

definition demo_queue :: "nat Tee" where
  "demo_queue = snd (enqueue (toy_message 7 ''a'') (fst (snd demo_open)))"

definition demo_stats :: SessionStats where
  "demo_stats = no_stats\<lparr>eos := EosComplete\<rparr>"

definition demo_export :: Export where
  "demo_export = \<lparr>ex_final = ''/out/a.mcap'', ex_partial = ''/out/a.mcap.partial'', ex_files = [], ex_copy = None, ex_rename = None, ex_remove = False\<rparr>"

definition demo_finish :: "TeeTerminalOutcome \<times> (McapSaveResult \<times> Export) option \<times> (CacheTee \<times> nat Tee) \<times> Runtime \<times> World" where
  "demo_finish = finishCacheTee count_lib count_reader no_faults ''/c'' [] [] [] [] demo_stats False (Some demo_export)
     (demo_tee, demo_queue) (demo_runtime, snd (snd demo_open))"

definition count_bytes :: string where
  "count_bytes = CHR 0x0C # replicate 8 CHR 0x00 @ ''m'' @ CHR 0x02 # replicate 36 CHR 0x00"

lemma count_validate:
  assumes "node_of w name = Some node" "node_bytes node = count_bytes"
    and "expected = None \<or> expected = Some \<lparr>message_count = 1, channel_count = 1\<rparr>"
  shows "validateMcap count_reader no_faults name demo_hex expected w = Inr ()"
proof -
  have "str_bytes ''abc'' = [0x61, 0x62, 0x63]" by code_simp
  then have s: "sha256HexPrefix (str_bytes ''abc'') 16 = demo_hex" using sha256_abc by (simp add: demo_hex_def)
  have z: "le64 (CHR 0x0C # replicate 8 CHR 0x00) 1 = 0" "le64 (CHR 0x02 # replicate 36 CHR 0x00) 9 = 0"
    by (rule le64_zero, code_simp)+
  have h: "take 9 count_bytes = CHR 0x0C # replicate 8 CHR 0x00" "byte_at (CHR 0x0C # replicate 8 CHR 0x00) 0 = 12" by code_simp+
  have l: "length count_bytes = 47" "drop 10 count_bytes = CHR 0x02 # replicate 36 CHR 0x00"
    "byte_at (CHR 0x02 # replicate 36 CHR 0x00) 0 = 2" "count_list count_bytes CHR ''m'' = 1" by code_simp+
  have p: "raw_preflight no_faults name count_bytes \<lparr>mi_offset = 0, mi_length = 40\<rparr>"
    using z(1) h l(1) by (simp add: raw_preflight_def no_faults_def read_at_def Let_def kQueryMetadataBudget_def del: replicate.simps)
  have b: "summarySpanWithinBudget no_faults name w = Inr ()"
    using l z(2) assms(1,2)
    by (simp add: summarySpanWithinBudget_def kMcapTailBytes_def no_faults_def Let_def del: replicate.simps)
  from assms s p b l(4) show ?thesis
    by (auto simp: validateMcap_def validate_bytes_def count_reader_def demo_lib_def check_expected_def of_option_def on_error_def
        kQueryMetadataBudget_def kDigestHexChars_def no_faults_def)
qed

lemma demo_finishes: "to_outcome (fst demo_finish) = TeeFinalized"
proof -
  let ?p = "ml_partial demo_lock" and ?f = "demo_hex @ ''.mcap''"
  define q1 where "q1 = snd (drainAndClose count_lib [] demo_queue)"
  define w2 where "w2 = flush_partial ?p (tq_writer q1) (snd (snd demo_open))"
  define w4 where "w4 = touchStamp no_faults ?f (rename_file ?p ?f (chmod0600 no_faults ?p w2))"
  define w5 where "w5 = snd (toSharedLease no_faults (turn [0] []) demo_lock w4)"
  have "fst (drainAndClose count_lib [] demo_queue) = Inr ()" by code_simp
  then have d: "drainAndClose count_lib [] demo_queue = (Inr (), q1)" by (simp add: q1_def prod_eq_iff)
  have e: "expected_content q1 = \<lparr>message_count = 1, channel_count = 1\<rparr>" unfolding q1_def by code_simp
  have n2: "map_option node_bytes (node_of w2 ?p) = Some count_bytes" unfolding w2_def q1_def by code_simp
  have n5: "map_option node_bytes (node_of w5 ?f) = Some count_bytes" "fst (toSharedLease no_faults (turn [0] []) demo_lock w4) = Inr 0"
    unfolding w5_def w4_def w2_def q1_def by code_simp+
  have c: "node_of (chmod0600 no_faults ?p w2) ?p \<noteq> None" using n2 by (auto simp: chmod0600_def no_faults_def)
  have h: "ml_hex demo_lock = demo_hex" "ml_lock demo_lock = Some 0" by (simp_all add: demo_lock_def)
  have v: "validateMcap count_reader no_faults ?p demo_hex (Some (expected_content q1)) w2 = Inr ()"
    using n2 by (auto simp: e intro!: count_validate)
  have f: "finalize_file count_reader no_faults ''/c'' demo_lock (Some (expected_content q1)) w2 = (Inr (), w4)"
    using v c h by (auto simp: finalize_file_def syncFile_def no_faults_def Let_def w4_def)
  have v5: "validateMcap count_reader no_faults ?f demo_hex None w5 = Inr ()"
    using n5(1) by (auto intro!: count_validate)
  have s: "toSharedLease no_faults (turn [0] []) demo_lock w4 = (Inr 0, w5)" using n5(2) by (simp add: w5_def prod_eq_iff)
  obtain path w6 where u: "lookup_file count_reader no_faults ''/c'' demo_identity w5 = (Some path, w6)"
    using v5 n5(1) by (auto simp: lookup_file_def demo_identityHex Let_def)
  have "turn [0] [] w5 = w5" by (simp add: turn_def)
  then have t: "fst (tee_finalize count_reader no_faults ''/c'' [] [] (expected_content q1) demo_tee (demo_runtime, w2)) = Inr ()"
    using f s u h by (simp add: tee_finalize_def demo_tee_def Let_def)
  obtain tee1 rt1 w6 where "tee_finalize count_reader no_faults ''/c'' [] [] (expected_content q1) demo_tee (demo_runtime, w2) = (Inr (), tee1, rt1, w6)"
    using t by (metis prod_cases4 fst_conv)
  moreover have "partial_path demo_tee = ?p" by (simp add: demo_tee_def)
  ultimately show ?thesis using d by (simp add: demo_finish_def finishCacheTee_def demo_stats_def w2_def Let_def split: prod.split)
qed


end
