(* ===== verification/Promotion.thy ===== *)
theory Promotion
  imports Session_Cache
begin

text \<open>
  The promotion of a materialised dataset to a file source (\<open>import_runtime.cpp\<close>): the result that
  is settled once, the call to the host, and the callback that the host runs later on any thread.
  The host is free in what it answers and when; it keeps the contract of its interface, which says
  that an accepted request is answered by exactly one callback and a rejected one by none.
\<close>

section \<open>Results\<close>

record PromotionResult =
  pr_done :: bool
  pr_ok :: bool
  pr_message :: string

definition new_result :: PromotionResult where
  "new_result = \<lparr>pr_done = False, pr_ok = False, pr_message = []\<rparr>"

definition settle_result :: "bool \<Rightarrow> string \<Rightarrow> PromotionResult \<Rightarrow> PromotionResult" where
  "settle_result ok message r = (if pr_done r then r else r\<lparr>pr_done := True, pr_ok := ok, pr_message := message\<rparr>)"

definition result_ok :: "PromotionResult \<Rightarrow> bool option" where
  "result_ok r = (if \<not> pr_done r then None else Some (pr_ok r))"

text \<open>
  The loop of \<open>waitSettled\<close>: each turn sees the result as it is then and whether the caller was
  cancelled; \<open>None\<close> is a wait that has not ended.
\<close>

fun waitSettled :: "(PromotionResult \<times> bool) list \<Rightarrow> bool option" where
  "waitSettled [] = None"
| "waitSettled ((r, cancelled) # rest) = (if pr_done r then Some True else if cancelled then Some False else waitSettled rest)"

section \<open>The promotion call\<close>

text \<open>What the closure of the callback captures; \<open>cl_result\<close> is the shared result.\<close>

record Closure =
  cl_result :: nat
  cl_key :: "SessionKey option"
  cl_dataset :: u32
  cl_generation :: u64
  cl_tracked :: bool

text \<open>
  The runtime as the callbacks see it: the session cache until it is destroyed, the results, the
  counter of outstanding promotions and the callbacks that the host still owes.
\<close>

record Promotions =
  pm_cache :: "SessionCache option"
  pm_results :: "PromotionResult list"
  pm_outstanding :: int
  pm_owed :: "Closure list"

definition settle_entry :: "PromotionState \<Rightarrow> Closure \<Rightarrow> Promotions \<Rightarrow> Promotions" where
  "settle_entry st cl p =
     (case cl_key cl of
        None \<Rightarrow> p
      | Some key \<Rightarrow>
          if \<not> cl_tracked cl then p
          else (case pm_cache p of
              None \<Rightarrow> p
            | Some c \<Rightarrow> p\<lparr>pm_cache := Some (settlePromotion c key (cl_dataset cl) (cl_generation cl) st)\<rparr>))"

definition set_result :: "nat \<Rightarrow> bool \<Rightarrow> string \<Rightarrow> Promotions \<Rightarrow> Promotions" where
  "set_result i ok message p = p\<lparr>pm_results := (pm_results p)[i := settle_result ok message (pm_results p ! i)]\<rparr>"

definition on_result :: "bool \<Rightarrow> string \<Rightarrow> Closure \<Rightarrow> Promotions \<Rightarrow> Promotions" where
  "on_result ok message cl p =
     (let p1 = settle_entry (if ok then Promoted else EagerOnly) cl p;
          p2 = p1\<lparr>pm_outstanding := pm_outstanding p1 - 1\<rparr> in
      set_result (cl_result cl) ok message p2)"

text \<open>
  The host refuses the request, or takes it and runs the callback at once or later. No host is the
  service that is absent or not valid.
\<close>

datatype host_answer = NoHost | Rejects string | Accepts | AcceptsAtOnce bool string

definition call_host :: "host_answer \<Rightarrow> Closure \<Rightarrow> Promotions \<Rightarrow> Promotions" where
  "call_host host cl p =
     (let p1 = p\<lparr>pm_outstanding := pm_outstanding p + 1\<rparr> in
      case host of
        NoHost \<Rightarrow>
          set_result (cl_result cl) False ''source promotion service not available (host without promotion support)''
            (settle_entry EagerOnly cl p)
      | Accepts \<Rightarrow> p1\<lparr>pm_owed := pm_owed p1 @ [cl]\<rparr>
      | AcceptsAtOnce ok message \<Rightarrow> on_result ok message cl p1
      | Rejects error \<Rightarrow>
          set_result (cl_result cl) False error (settle_entry EagerOnly cl (p1\<lparr>pm_outstanding := pm_outstanding p1 - 1\<rparr>)))"

definition promoteToFileSource :: "host_answer \<Rightarrow> u32 \<Rightarrow> SessionKey option \<Rightarrow> Promotions \<Rightarrow> nat \<times> Promotions" where
  "promoteToFileSource host dataset cache_key p =
     (let i = length (pm_results p);
          p1 = p\<lparr>pm_results := pm_results p @ [new_result]\<rparr>;
          cl = \<lparr>cl_result = i, cl_key = cache_key, cl_dataset = dataset, cl_generation = 0, cl_tracked = False\<rparr> in
      case (cache_key, pm_cache p) of
        (Some key, Some c) \<Rightarrow>
          (case beginPromotion c key dataset of
             (c', Begun, g) \<Rightarrow>
               (i, call_host host (cl\<lparr>cl_tracked := True, cl_generation := (case g of Some x \<Rightarrow> x | None \<Rightarrow> 0)\<rparr>)
                     (p1\<lparr>pm_cache := Some c'\<rparr>))
           | (c', BeginNoEntry, g) \<Rightarrow> (i, call_host host cl (p1\<lparr>pm_cache := Some c'\<rparr>))
           | (c', BeginAlreadyPending, g) \<Rightarrow>
               (i, set_result i False ''a promotion for this session is already pending'' (p1\<lparr>pm_cache := Some c'\<rparr>))
           | (c', BeginDatasetMismatch, g) \<Rightarrow>
               (i, set_result i False ''the cached session now belongs to a different dataset'' (p1\<lparr>pm_cache := Some c'\<rparr>)))
      | _ \<Rightarrow> (i, call_host host cl p1))"

section \<open>Runs\<close>

text \<open>
  Promotions, callbacks and the other operations on the cache, in any order, and the end of the
  runtime. The other operations do not mark an entry pending.
\<close>

fun marks_pending :: "cache_op \<Rightarrow> bool" where
  "marks_pending (OpStore k v) \<longleftrightarrow> promotion_state v = PromoPending"
| "marks_pending (OpBegin k ds) \<longleftrightarrow> True"
| "marks_pending (OpSettle k ds g st) \<longleftrightarrow> True"
| "marks_pending (OpUpdate k st) \<longleftrightarrow> st = PromoPending"
| "marks_pending _ \<longleftrightarrow> False"

inductive promo_step :: "Promotions \<Rightarrow> Promotions \<Rightarrow> bool" where
  Promote: "pm_cache p = Some c \<Longrightarrow> (\<forall>k. key = Some k \<longrightarrow> session_key k) \<Longrightarrow>
    promo_step p (snd (promoteToFileSource host dataset key p))"
| Callback: "pm_owed p = before @ cl # after \<Longrightarrow>
    promo_step p (on_result ok message cl (p\<lparr>pm_owed := before @ after\<rparr>))"
| Cache: "pm_cache p = Some c \<Longrightarrow> session_key (op_key op) \<Longrightarrow> \<not> marks_pending op \<Longrightarrow>
    promo_step p (p\<lparr>pm_cache := Some (run_op c op)\<rparr>)"
| Teardown: "promo_step p (p\<lparr>pm_cache := None\<rparr>)"

inductive promo_run :: "Promotions \<Rightarrow> Promotions \<Rightarrow> bool" for p where
  Start: "promo_run p p"
| Step: "promo_run p q \<Longrightarrow> promo_step q r \<Longrightarrow> promo_run p r"

definition fresh :: "nat \<Rightarrow> Promotions" where
  "fresh n = \<lparr>pm_cache = Some (new_cache n), pm_results = [], pm_outstanding = 0, pm_owed = []\<rparr>"

section \<open>Accounting\<close>

text \<open>
  The counter counts the callbacks that are owed; a result is open exactly while one of them is its
  own; and an entry is marked pending only while the callback for just this entry is owed.
\<close>

definition owes :: "Promotions \<Rightarrow> SessionKey \<Rightarrow> CachedSession \<Rightarrow> bool" where
  "owes p k v \<longleftrightarrow> (\<exists>cl \<in> set (pm_owed p). cl_key cl = Some k \<and> cl_tracked cl \<and> cl_dataset cl = dataset_id v \<and>
     cl_generation cl = generation v)"

definition entries_ok :: "Promotions \<Rightarrow> bool" where
  "entries_ok p \<longleftrightarrow>
     (case pm_cache p of
        None \<Rightarrow> True
      | Some c \<Rightarrow> cache_inv c \<and> (\<forall>(k, v) \<in> set (cache_abs c). promotion_state v = PromoPending \<longrightarrow> owes p k v))"

definition results_ok :: "Promotions \<Rightarrow> bool" where
  "results_ok p \<longleftrightarrow>
     pm_outstanding p = int (length (pm_owed p)) \<and> distinct (map cl_result (pm_owed p)) \<and>
     (\<forall>i < length (pm_results p). pr_done (pm_results p ! i) \<longleftrightarrow> i \<notin> cl_result ` set (pm_owed p)) \<and>
     (\<forall>cl \<in> set (pm_owed p). cl_result cl < length (pm_results p) \<and> (\<forall>k. cl_key cl = Some k \<longrightarrow> session_key k))"

definition promo_inv :: "Promotions \<Rightarrow> bool" where
  "promo_inv p \<longleftrightarrow> results_ok p \<and> entries_ok p"

lemma settle_entry_simps [simp]:
  "pm_results (settle_entry st cl p) = pm_results p" "pm_outstanding (settle_entry st cl p) = pm_outstanding p"
  "pm_owed (settle_entry st cl p) = pm_owed p"
  by (simp_all add: settle_entry_def split: option.split)

lemma set_result_simps [simp]:
  "pm_cache (set_result i ok m p) = pm_cache p" "pm_outstanding (set_result i ok m p) = pm_outstanding p"
  "pm_owed (set_result i ok m p) = pm_owed p" "length (pm_results (set_result i ok m p)) = length (pm_results p)"
  by (simp_all add: set_result_def)

lemma settle_done [simp]: "pr_done (settle_result ok m r)"
  by (simp add: settle_result_def)

lemma set_upd_val: "(k', v) \<in> set (upd_val k f m) \<Longrightarrow> (k', v) \<in> set m \<or> k' = k \<and> (\<exists>u. (k, u) \<in> set m \<and> v = f u)"
  by (auto simp: upd_val_def split: if_splits)

lemma set_del_take: "x \<in> set (take n (y # del_key k m)) \<Longrightarrow> x = y \<or> x \<in> set m"
  by (auto simp: del_key_def dest!: in_set_takeD)

text \<open>An operation that does not mark entries leaves the pending ones among those that were there.\<close>

lemma other_op_pending:
  assumes "\<not> marks_pending op" "(k, v) \<in> set (fst (lru_op cap (m, g) op))" "promotion_state v = PromoPending"
  shows "\<exists>u. (k, u) \<in> set m \<and> promotion_state u = PromoPending \<and> dataset_id u = dataset_id v \<and> generation u = generation v"
  using assms
proof (cases op)
  case (OpStore k' v')
  with assms show ?thesis by (auto dest!: set_del_take)
next
  case (OpCommit k' ex cand)
  with assms show ?thesis by (auto simp: del_key_def split: option.splits if_splits dest: map_of_SomeD)
qed (auto simp: del_key_def upd_val_def split: if_splits)

lemma owes_more: "owes p k v \<Longrightarrow> set (pm_owed p) \<subseteq> set (pm_owed q) \<Longrightarrow> owes q k v"
  by (auto simp: owes_def)

text \<open>Settling the entry of a closure removes the only entry that only this closure accounts for.\<close>

lemma settle_entries:
  assumes "entries_ok p" "st \<noteq> PromoPending" "\<And>k. cl_key cl = Some k \<Longrightarrow> session_key k"
    and "set (pm_owed p) \<subseteq> insert cl (set (pm_owed q))" "pm_cache q = pm_cache p"
  shows "entries_ok (settle_entry st cl q)"
proof (cases "pm_cache p")
  case (Some c)
  then have inv: "cache_inv c" and pend: "\<And>k v. (k, v) \<in> set (cache_abs c) \<Longrightarrow> promotion_state v = PromoPending \<Longrightarrow> owes p k v"
    using assms(1) by (auto simp: entries_ok_def)
  show ?thesis
  proof (cases "\<exists>k. cl_key cl = Some k \<and> cl_tracked cl")
    case True
    then obtain k where k: "cl_key cl = Some k" "cl_tracked cl" by blast
    let ?c = "settlePromotion c k (cl_dataset cl) (cl_generation cl) st"
    have sim: "simulates c (OpSettle k (cl_dataset cl) (cl_generation cl) st) ?c" by (rule settle_sim [OF inv assms(3) [OF k(1)]])
    have "owes q k' v" if v: "(k', v) \<in> set (cache_abs ?c)" "promotion_state v = PromoPending" for k' v
    proof -
      have v': "(k', v) \<in> set (cache_abs c)" "\<not> (k' = k \<and> settles (cl_dataset cl) (cl_generation cl) v)"
        using v assms(2) sim by (auto simp: simulates_def cache_lru_def upd_val_def split: if_splits)
      from pend [OF v'(1) v(2)] obtain cl' where cl': "cl' \<in> set (pm_owed p)" "cl_key cl' = Some k'" "cl_tracked cl'"
          "cl_dataset cl' = dataset_id v" "cl_generation cl' = generation v" by (auto simp: owes_def)
      have "cl' \<noteq> cl" using v'(2) v(2) cl' k by (auto simp: settles_def)
      then show ?thesis using cl' assms(4) by (auto simp: owes_def)
    qed
    moreover have "cache_inv ?c" using sim by (simp add: simulates_def)
    ultimately show ?thesis using Some k assms(5) by (auto simp: entries_ok_def settle_entry_def owes_def)
  next
    case False
    then have "\<forall>k v. owes p k v \<longrightarrow> owes q k v" using assms(4) by (auto simp: owes_def)
    with False Some inv pend assms(5) show ?thesis by (auto simp: entries_ok_def settle_entry_def split: option.split)
  qed
qed (use assms in \<open>simp add: entries_ok_def settle_entry_def split: option.split\<close>)

lemma entries_set_result [simp]: "entries_ok (set_result i ok m p) = entries_ok p"
  by (simp add: entries_ok_def owes_def split: option.split)

lemma entries_outstanding [simp]: "entries_ok (p\<lparr>pm_outstanding := n\<rparr>) = entries_ok p"
  by (simp add: entries_ok_def owes_def split: option.split)

lemma settle_outstanding: "settle_entry st cl (p\<lparr>pm_outstanding := n\<rparr>) = (settle_entry st cl p)\<lparr>pm_outstanding := n\<rparr>"
  by (simp add: settle_entry_def split: option.split)


lemma on_result_inv:
  assumes inv: "promo_inv p" and owed: "pm_owed p = before @ cl # after"
  shows "promo_inv (on_result ok message cl (p\<lparr>pm_owed := before @ after\<rparr>))"
proof -
  have keys: "\<And>k. cl_key cl = Some k \<Longrightarrow> session_key k" and i: "cl_result cl < length (pm_results p)"
    using inv owed by (auto simp: promo_inv_def results_ok_def)
  have "entries_ok (settle_entry (if ok then Promoted else EagerOnly) cl (p\<lparr>pm_owed := before @ after\<rparr>))"
    by (rule settle_entries [where p = p]) (use inv owed keys in \<open>auto simp: promo_inv_def\<close>)
  then have "entries_ok (on_result ok message cl (p\<lparr>pm_owed := before @ after\<rparr>))" by (simp add: on_result_def Let_def)
  moreover have "results_ok (on_result ok message cl (p\<lparr>pm_owed := before @ after\<rparr>))"
    using inv owed i by (auto simp: promo_inv_def results_ok_def on_result_def Let_def set_result_def nth_list_update)
  ultimately show ?thesis by (simp add: promo_inv_def)
qed

text \<open>Every way the call can end at once is the callback run on the state that owes it.\<close>

definition owing :: "Closure \<Rightarrow> Promotions \<Rightarrow> Promotions" where
  "owing cl p = p\<lparr>pm_outstanding := pm_outstanding p + 1, pm_owed := pm_owed p @ [cl]\<rparr>"

lemma owing_result: "on_result ok m cl ((owing cl p)\<lparr>pm_owed := pm_owed p\<rparr>) = set_result (cl_result cl) ok m (settle_entry (if ok then Promoted else EagerOnly) cl p)"
  by (simp add: on_result_def owing_def settle_outstanding Let_def) (simp add: set_result_def)

lemma call_host_inv:
  assumes "promo_inv (owing cl p)"
  shows "promo_inv (call_host host cl p)"
proof -
  have ended: "promo_inv (set_result (cl_result cl) ok m (settle_entry (if ok then Promoted else EagerOnly) cl p))" for ok m
    using on_result_inv [OF assms, of "pm_owed p" cl "[]" ok m] owing_result [of ok m cl p] by (simp add: owing_def)
  show ?thesis
  proof (cases host)
    case (AcceptsAtOnce ok m)
    then have "call_host host cl p = set_result (cl_result cl) ok m (settle_entry (if ok then Promoted else EagerOnly) cl p)"
      by (simp add: call_host_def on_result_def settle_outstanding) (simp add: set_result_def)
    with ended show ?thesis by simp
  qed (use assms ended [of False] in \<open>simp_all add: call_host_def owing_def\<close>)
qed

lemma promote_inv:
  assumes inv: "promo_inv p" and c: "pm_cache p = Some c" and key: "\<forall>k. key = Some k \<longrightarrow> session_key k"
  shows "promo_inv (snd (promoteToFileSource host dataset key p))"
proof -
  let ?cl = "\<lparr>cl_result = length (pm_results p), cl_key = key, cl_dataset = dataset, cl_generation = 0, cl_tracked = False\<rparr>"
  let ?p = "p\<lparr>pm_results := pm_results p @ [new_result]\<rparr>"
  have res: "results_ok (owing cl (?p\<lparr>pm_cache := c'\<rparr>))" if "cl_result cl = length (pm_results p)" "cl_key cl = key" for cl c'
    using inv key that by (auto simp: promo_inv_def results_ok_def owing_def nth_append new_result_def less_Suc_eq)
  have ent: "entries_ok (owing cl (?p\<lparr>pm_cache := Some c\<rparr>))" for cl
    using inv c by (auto simp: promo_inv_def entries_ok_def owing_def owes_def)
  have base: "promo_inv (owing ?cl (?p\<lparr>pm_cache := Some c\<rparr>))" using res ent by (simp add: promo_inv_def)
  have refused: "promo_inv (set_result (length (pm_results p)) False m (?p\<lparr>pm_cache := Some c\<rparr>))" for m
    using on_result_inv [OF base, of "pm_owed p" ?cl "[]" False m] owing_result [of False m ?cl "?p\<lparr>pm_cache := Some c\<rparr>"]
    by (simp add: owing_def settle_entry_def split: option.splits)
  have self: "?p\<lparr>pm_cache := Some c\<rparr> = ?p" using c by simp
  show ?thesis
  proof (cases key)
    case None
    with c call_host_inv [OF base, of host] self show ?thesis by (simp add: promoteToFileSource_def Let_def)
  next
    case (Some k)
    have cinv: "cache_inv c" using inv c by (simp add: promo_inv_def entries_ok_def)
    obtain c' b g where b: "beginPromotion c k dataset = (c', b, g)" by (metis prod_cases3)
    show ?thesis
    proof (cases "b = Begun")
      case True
      let ?t = "?cl\<lparr>cl_tracked := True, cl_generation := (case g of Some x \<Rightarrow> x | None \<Rightarrow> 0)\<rparr>"
      obtain v where v: "map_of (cache_abs c) k = Some v" "dataset_id v = dataset" "g = Some (generation v)"
        using begun_iff [OF cinv, of k dataset c' g] key Some b True by auto
      have sim: "simulates c (OpBegin k dataset) c'" using begin_sim [OF cinv, of k dataset] key Some b by simp
      have u: "u = v" if "(k, u) \<in> set (cache_abs c)" for u
        using that v(1) distinct_abs [OF inv_ok [OF cinv]] by (metis map_of_is_SomeI option.inject)
      have "owes (owing ?t (?p\<lparr>pm_cache := Some c'\<rparr>)) k' v'"
        if "(k', v') \<in> set (cache_abs c')" "promotion_state v' = PromoPending" for k' v'
      proof (cases "k' = k")
        case True
        with that sim u v(2) have "dataset_id v' = dataset" "generation v' = generation v"
          by (auto simp: simulates_def cache_lru_def upd_val_def split: if_splits)
        with True v(3) Some show ?thesis by (auto simp: owes_def owing_def)
      next
        case False
        with that sim have "(k', v') \<in> set (cache_abs c)" by (auto simp: simulates_def cache_lru_def upd_val_def)
        then have "owes p k' v'" using inv c that(2) by (auto simp: promo_inv_def entries_ok_def)
        then show ?thesis by (rule owes_more) (auto simp: owing_def)
      qed
      then have "promo_inv (owing ?t (?p\<lparr>pm_cache := Some c'\<rparr>))"
        using sim res [of ?t] by (auto simp: promo_inv_def entries_ok_def simulates_def owing_def owes_def)
      from call_host_inv [OF this, of host] True b c Some show ?thesis by (simp add: promoteToFileSource_def Let_def)
    next
      case False
      then have "c' = c" using b by (auto simp: beginPromotion_def split: option.splits if_splits)
      with False b c Some call_host_inv [OF base, of host] refused show ?thesis
        by (cases b) (simp_all add: promoteToFileSource_def Let_def)
    qed
  qed
qed

lemma promo_step_inv: "promo_step p q \<Longrightarrow> promo_inv p \<Longrightarrow> promo_inv q"
proof (induction rule: promo_step.induct)
  case (Cache p c op)
  then have inv: "cache_inv c" by (simp add: promo_inv_def entries_ok_def)
  have sim: "simulates c op (run_op c op)" by (rule op_sim [OF inv Cache(2)])
  have "owes p k v" if "(k, v) \<in> set (cache_abs (run_op c op))" "promotion_state v = PromoPending" for k v
  proof -
    have "(k, v) \<in> set (fst (lru_op (max_entries c) (cache_abs c, next_generation c) op))"
      using that(1) sim by (metis cache_lru_def fst_conv simulates_def)
    from other_op_pending [OF Cache(3) this that(2)] Cache(1,4) show ?thesis
      by (fastforce simp: promo_inv_def entries_ok_def owes_def)
  qed
  with sim Cache show ?case by (auto simp: promo_inv_def results_ok_def entries_ok_def simulates_def owes_def)
next
  case (Teardown p)
  then show ?case by (simp add: promo_inv_def results_ok_def entries_ok_def)
qed (auto intro: promote_inv on_result_inv)

lemma promo_run_inv: "promo_run p q \<Longrightarrow> promo_inv p \<Longrightarrow> promo_inv q"
  by (induction rule: promo_run.induct) (auto intro: promo_step_inv)

lemma fresh_inv: "promo_inv (fresh n)"
  using new_cache_lru [of n] new_cache_inv [of n]
  by (simp add: promo_inv_def results_ok_def entries_ok_def fresh_def cache_lru_def)

section \<open>Results are final\<close>

definition later :: "PromotionResult list \<Rightarrow> PromotionResult list \<Rightarrow> bool" where
  "later rs rs' \<longleftrightarrow> length rs \<le> length rs' \<and> (\<forall>i < length rs. pr_done (rs ! i) \<longrightarrow> rs' ! i = rs ! i)"

lemma later_refl: "later rs rs"
  by (simp add: later_def)

lemma later_trans: "later rs rs' \<Longrightarrow> later rs' rs'' \<Longrightarrow> later rs rs''"
  by (fastforce simp: later_def)

lemma later_set: "later rs (pm_results p) \<Longrightarrow> later rs (pm_results (set_result i ok m p))"
  by (cases "i < length (pm_results p)") (auto simp: later_def set_result_def nth_list_update settle_result_def)

lemma later_host: "later rs (pm_results p) \<Longrightarrow> later rs (pm_results (call_host host cl p))"
  by (simp add: call_host_def on_result_def Let_def later_set split: host_answer.split)

lemma later_promote: "later (pm_results p) (pm_results (snd (promoteToFileSource host dataset key p)))"
proof -
  have "later (pm_results p) (pm_results p @ [new_result])" by (simp add: later_def nth_append)
  then show ?thesis
    by (simp add: promoteToFileSource_def Let_def later_set later_host split: option.split prod.split PromotionBegin.split)
qed

lemma later_run: "promo_run p q \<Longrightarrow> later (pm_results p) (pm_results q)"
proof (induction rule: promo_run.induct)
  case (Step q r)
  from Step(2) have "later (pm_results q) (pm_results r)"
    by (induction rule: promo_step.induct) (simp_all add: later_promote later_refl on_result_def Let_def later_set)
  with Step(3) show ?case by (rule later_trans)
qed (rule later_refl)

lemma open_results:
  assumes "results_ok p"
  shows "pm_outstanding p = int (length (filter (\<lambda>r. result_ok r = None) (pm_results p)))"
proof -
  have "cl_result ` set (pm_owed p) = {i. i < length (pm_results p) \<and> result_ok (pm_results p ! i) = None}"
    using assms by (auto simp: results_ok_def result_ok_def)
  then have "card (set (map cl_result (pm_owed p))) = length (filter (\<lambda>r. result_ok r = None) (pm_results p))"
    by (simp add: length_filter_conv_card)
  moreover have "distinct (map cl_result (pm_owed p))" using assms by (simp add: results_ok_def)
  ultimately show ?thesis using assms distinct_card [of "map cl_result (pm_owed p)"] by (simp add: results_ok_def)
qed


definition stored_one :: Promotions where
  "stored_one = (fresh 8)\<lparr>pm_cache := Some (store (new_cache 8) (demo_key ''a'') (demo_session 7))\<rparr>"

definition promoting :: Promotions where
  "promoting = snd (promoteToFileSource Accepts 7 (Some (demo_key ''a'')) stored_one)"

lemma promoting_owed:
  "\<exists>c. promoting = \<lparr>pm_cache = Some c, pm_results = [new_result], pm_outstanding = 1,
     pm_owed = [\<lparr>cl_result = 0, cl_key = Some (demo_key ''a''), cl_dataset = 7, cl_generation = 1, cl_tracked = True\<rparr>]\<rparr>"
  using demo_begun [of "''a''" 7]
  by (auto simp: promoting_def promoteToFileSource_def stored_one_def fresh_def call_host_def)

lemma promoting_run: "promo_run (fresh 8) promoting"
proof -
  have "promo_step (fresh 8) stored_one"
    using promo_step.Cache [of "fresh 8" "new_cache 8" "OpStore (demo_key ''a'') (demo_session 7)"]
    by (simp add: fresh_def stored_one_def demo_key_valid)
  moreover have "promo_step stored_one promoting"
    unfolding promoting_def by (rule promo_step.Promote) (simp_all add: stored_one_def demo_key_valid)
  ultimately show ?thesis by (blast intro: promo_run.intros)
qed


end
