(* ===== verification/Mcap_Download.thy ===== *)
theory Mcap_Download
  imports Session_Download Mcap_Writer
begin

text \<open>
  The download of a session into an MCAP file (\<open>tools/session_download.cpp\<close>): the session is opened
  on the connection, and the writer is the handler of the download.
\<close>

section \<open>The download\<close>

text \<open>The handler's state is the writer and the text of its last error.\<close>

definition on_message :: "'l McapOut \<Rightarrow> ('l Writer \<times> string) handler" where
  "on_message M h m = (case wr_write M m (fst h) of (Inl e, wr) \<Rightarrow> (False, wr, e) | (Inr _, wr) \<Rightarrow> (True, wr, snd h))"

definition fresh_writer :: "'l \<Rightarrow> bool list \<Rightarrow> 'l Writer" where
  "fresh_writer l disk = \<lparr>wr_output = closed_sink True disk, wr_ext = None, wr_lib = l, channels_by_topic = Map.empty,
     skipped_unknown_topics = 0, wr_open = False, wrote_message = False\<rparr>"

text \<open>The end of the call: the writer is closed however the stream ended.\<close>

definition finish_file :: "'l McapOut \<Rightarrow> SessionStats \<Rightarrow> 'l Writer \<times> string \<Rightarrow> SessionStats \<times> 'l Writer" where
  "finish_file M stats h =
     (case wr_close M (fst h) of (closed, wr) \<Rightarrow>
        let writer_error = (case closed of Inl e \<Rightarrow> if snd h = [] then e else snd h | Inr _ \<Rightarrow> snd h) in
        (if writer_error \<noteq> [] then stats\<lparr>stats_error := writer_error, eos := EosError\<rparr> else stats, wr))"

text \<open>
  \<open>l0\<close> is the library before it is opened, \<open>disk\<close> the outcome of the stream operations. The result
  is the statistics, the session unless none was opened, the writer unless none was made, and the
  connection.
\<close>

definition downloadToMcap ::
  "Lib \<Rightarrow> 'l McapOut \<Rightarrow> 'l \<Rightarrow> bool list \<Rightarrow> (string + unit) \<Rightarrow> (string + unit) \<Rightarrow> OpenSessionParams \<Rightarrow> string \<Rightarrow> Conn \<Rightarrow>
   (SessionStats \<times> SessionInfo option \<times> 'l Writer option \<times> Conn) option" where
  "downloadToMcap L M l0 disk opened removed params out_path c =
     do {
       (r, c) \<leftarrow> openSessionFresh L params c;
       case r of
         Inl open_err \<Rightarrow>
           Some (no_stats\<lparr>stats_error := (if open_err = [] then ''openSessionFresh failed'' else open_err), eos := EosError\<rparr>,
             None, None, c)
       | Inr info \<Rightarrow>
           (case open_path M out_path opened removed info (fresh_writer l0 disk) of
              (Inl writer_error, wr, left) \<Rightarrow> Some (no_stats\<lparr>stats_error := writer_error, eos := EosError\<rparr>, Some info, Some wr, c)
            | (Inr _, wr, left) \<Rightarrow> do {
                (stats, h, c) \<leftarrow> downloadSession L info (on_message M) (wr, []) c;
                Some (let (stats, wr) = finish_file M stats h in (stats, Some info, Some wr, c))
              })
     }"

section \<open>A complete download is a complete file\<close>

lemma handler_write_all:
  assumes "accepts (on_message M) (wr, e) ms"
  shows "write_all M ms wr = (Inr (), fst (handler_after (on_message M) (wr, e) ms)) \<and> snd (handler_after (on_message M) (wr, e) ms) = e"
  using assms
proof (induction ms arbitrary: wr)
  case (Cons m ms)
  then obtain wr1 where w: "wr_write M m wr = (Inr (), wr1)"
    by (cases "wr_write M m wr"; cases "fst (wr_write M m wr)") (auto simp: on_message_def)
  with Cons show ?case by (simp add: on_message_def)
qed simp

lemma open_dictionary:
  "open_path M path opened removed info (fresh_writer l0 disk) = (Inr (), wr, left) \<Longrightarrow>
   dictionary M info = (channels_by_topic wr, wr_lib wr)"
  by (auto simp: open_path_def open_over_def fresh_writer_def dictionary_def Let_def split: sum.splits prod.splits if_splits)

text \<open>The frames that arrive without a request of their own belong to one subscription.\<close>

definition one_subscription :: "Lib \<Rightarrow> string set \<Rightarrow> u64 \<Rightarrow> bool" where
  "one_subscription L S sub \<longleftrightarrow>
     (\<forall>b \<in> S. \<forall>m. unwrap_frame L b = Some m \<and> sm_request_id m = 0 \<and> is_session_frame (sm_payload m) \<longrightarrow> sm_subscription_id m = sub)"

lemma opened_session:
  assumes "openSessionFresh L params c = Some (Inr info, c')" "frames (script c) \<subseteq> S" "one_subscription L S (inf_subscription_id info)"
  shows "session_subscription_id c' = inf_subscription_id info" "frames (script c') \<subseteq> S" "inbox_ok L S c'"
proof -
  obtain c1 reply c2 where o1: "sync L c = Some c1"
      "sendAndWait L (open_request params) kOpenSessionTimeout True
          (c1\<lparr>session_active := True, session_from_selection := (osp_selection_id params \<noteq> []),
             session_subscription_id := 0, session_inbox := [], session_wire_bytes := 0\<rparr>) = Some (reply, c2)"
    and x: "(case reply of
          None \<Rightarrow> do {
            (cancelled, c) \<leftarrow> read_cancel L c2;
            Some (Inl (if cancelled then ''cancelled'' else ''no response to OpenSession (timeout or socket closed)''),
              finish_session c)
          }
        | Some m \<Rightarrow>
            (case sm_payload m of
               SmError e \<Rightarrow> Some (Inl (formatWireError e), finish_session c2)
             | SmOpenSession r \<Rightarrow> do {
                 c \<leftarrow> sync L c2;
                 Some (Inr (session_info r), c\<lparr>session_subscription_id := os_subscription_id r\<rparr>)
               }
             | _ \<Rightarrow> Some (Inl ''unexpected reply to OpenSession'', finish_session c2))) = Some (Inr info, c')"
    using assms(1) unfolding openSessionFresh_def by (auto simp: bind_eq_Some_conv split: if_splits)
  obtain m r c3 where o2: "reply = Some m" "sync L c2 = Some c3" "info = session_info r"
      "c' = c3\<lparr>session_subscription_id := os_subscription_id r\<rparr>"
    using x by (cases reply; cases "sm_payload (the reply)") (auto simp: bind_eq_Some_conv)
  let ?c1 = "c1\<lparr>session_active := True, session_from_selection := (osp_selection_id params \<noteq> []),
             session_subscription_id := 0, session_inbox := [], session_wire_bytes := 0\<rparr>"
  have "evolves L S ?c1 c3"
    using evolves_trans [OF _ sync_evolves [OF o2(2)]] sendAndWait_done [OF o1(2), of S] by (simp add: rpc_done_def)
  moreover have "frames (script c1) \<subseteq> S" using sync_evolves [OF o1(1), of S] assms(2) by (simp add: evolves_def)
  ultimately have e: "frames (script c3) \<subseteq> S" "inbox_ok L S c3" by (simp_all add: evolves_def inbox_ok_def)
  show "session_subscription_id c' = inf_subscription_id info" "frames (script c') \<subseteq> S" using o2 e by (simp_all add: session_info_def)
  show "inbox_ok L S c'"
    using e(2) assms(3) o2(3,4) by (fastforce simp: inbox_ok_def session_frame_def one_subscription_def session_info_def)
qed

lemma downloadSession_ok:
  assumes "downloadSession L info f h c = Some (s, h', c')" "eos s = EosComplete"
    and "session_subscription_id c = inf_subscription_id info" "frames (script c) \<subseteq> S" "inbox_ok L S c"
  shows "\<exists>bs. in_order L S (inf_subscription_id info) 0 bs \<and> accepts f h (messages_of L bs) \<and> h' = handler_after f h (messages_of L bs) \<and>
     completed L S (inf_subscription_id info)"
proof -
  from assms(1,2) obtain r where r: "runFrameLoop L info f 0 True h c = Some r" "h' = flr_handler r" "eos (flr_stats r) = EosComplete"
    by (auto simp: downloadSession_def bind_eq_Some_conv no_stats_def Let_def split: if_splits)
  from runFrameLoop_ok [OF r(1) assms(4,5)] r(2,3) show ?thesis
    by (auto simp: leg_ok_def assms(3) handed_over_def result_pos_def)
qed


definition file_stream :: Lib where
  "file_stream = demo_lib
     [(''b1'', stream_frame 7 (SmBatch (demo_batch 1 [demo_message PAYLOAD_RAW ''x'']))),
      (''b2'', stream_frame 7 (SmBatch (demo_batch 2 [demo_message PAYLOAD_RAW ''y'']))),
      (''eos'', stream_frame 7 (demo_eos EOS_COMPLETE)),
      (''open'', reply_to 1 (SmOpenSession \<lparr>os_subscription_id = 7, os_range = None, os_chunk_bytes = 0, os_messages = 0,
         os_topics = [\<lparr>tb_topic_id = 1, tb_topic_name = ''/t'', tb_schema_id = 0, tb_message_encoding = ''cdr''\<rparr>], os_schemas = []\<rparr>))]"

definition file_conn :: Conn where
  "file_conn = (new_connection ''ws://h'' [] [] False
     (replicate 4 [] @ [[EvFrame ''open'', EvFrame ''b1'', EvFrame ''b2'', EvFrame ''eos'']] @ replicate 20 []))\<lparr>has_socket := True\<rparr>"


lemma file_run: "map_option (\<lambda>(s, i, w, c). (eos s, map_option inf_subscription_id i, map_option (sk_bytes o wr_output) w)) (downloadToMcap file_stream toy_lib 0 [] (Inr ()) (Inr ()) demo_params ''out'' file_conn) = Some (EosComplete, Some 7, Some ''HxyF'')"
  by code_simp



end
