(* ===== verification/Spec2Isabelle.thy ===== *)
theory Spec2Isabelle
  imports Vocab_Gate Catalog_Rpc Session_Download Session_Cache Trusted_Origins Credentials Sha256_Vector Source_Descriptor Query_Edit
    Query_Roundtrip Browse_Sessions Catalog_View Time_Format Cache_Eviction Admission Cache_Tee Promotion Mcap_Download
begin

text \<open>
  A verification development of the PlotJuggler MCAP cloud toolbox.
\<close>

end
